(* ===== verification/Prelude.thy ===== *)
theory Prelude
  imports Main "HOL-Library.Word" "HOL-Library.List_Lexorder" "HOL-Library.Sublist"
begin

text \<open>
  Shared vocabulary of the development: the machine types of the Go sources (bytes and
  fixed-width unsigned integers), the collections of rewrite rules the component theories
  extend, and the generic facts on lists, options and strictly sorted association lists that
  several components use.
\<close>

section \<open>Machine types\<close>

type_synonym byte = "8 word"
type_synonym bytes = "8 word list"
type_synonym uint32 = "32 word"
type_synonym uint64 = "64 word"

named_theorems codec_simps \<open>lengths and inversions of the byte-level encoders\<close>
named_theorems wf_intros \<open>preservation of well-formedness by operations\<close>

section \<open>Words and natural numbers\<close>

lemma unat_of_nat_small [simp]:
  "n < 2 ^ LENGTH('a) \<Longrightarrow> unat (word_of_nat n :: 'a::len word) = n"
  by (simp add: unat_of_nat take_bit_nat_eq_self)

lemma unat_lt_pow [simp]: "unat (w :: 'a::len word) < 2 ^ LENGTH('a)"
  by (rule unsigned_less)

lemma word64_succ_gt: "(x :: uint64) \<noteq> - 1 \<Longrightarrow> x < x + 1"
  by (metis add.commute add_eq_0_iff lessI unatSuc word_less_nat_alt)

section \<open>Lists\<close>

lemma take_append_exact [simp]: "length xs = n \<Longrightarrow> take n (xs @ ys) = xs"
  by simp

lemma drop_append_exact [simp]: "length xs = n \<Longrightarrow> drop n (xs @ ys) = ys"
  by simp

lemma find_append:
  "find P (xs @ ys) = (case find P xs of None \<Rightarrow> find P ys | Some y \<Rightarrow> Some y)"
  by (induction xs) auto

lemma find_splitE:
  assumes "find P xs = Some y"
  obtains us vs where "xs = us @ y # vs" "P y" "\<forall>z \<in> set us. \<not> P z"
proof -
  have "\<exists>us vs. xs = us @ y # vs \<and> P y \<and> (\<forall>z \<in> set us. \<not> P z)"
    using assms
  proof (induction xs)
    case Nil
    then show ?case by simp
  next
    case (Cons x xs)
    show ?case
    proof (cases "P x")
      case True
      with Cons.prems show ?thesis by (metis append_Nil empty_iff find.simps(2) list.set(1) option.inject)
    next
      case False
      with Cons obtain us vs where "xs = us @ y # vs" "P y" "\<forall>z \<in> set us. \<not> P z" by auto
      with False show ?thesis by (intro exI [of _ "x # us"] exI [of _ vs]) simp
    qed
  qed
  then show thesis using that by blast
qed

text \<open>A prefix of a concatenation is some whole pieces and a proper prefix of the next one.\<close>

lemma take_concat_pieces:
  assumes "k < length (concat xss)"
  obtains j r where "j < length xss" "r < length (xss ! j)"
    "take k (concat xss) = concat (take j xss) @ take r (xss ! j)"
proof -
  have "\<exists>j r. j < length xss \<and> r < length (xss ! j)
      \<and> take k (concat xss) = concat (take j xss) @ take r (xss ! j)"
    using assms
  proof (induction xss arbitrary: k)
    case Nil
    then show ?case by simp
  next
    case (Cons xs xss)
    show ?case
    proof (cases "k < length xs")
      case True
      then show ?thesis by (intro exI [of _ 0] exI [of _ k]) simp
    next
      case False
      with Cons.prems have "k - length xs < length (concat xss)" by simp
      then obtain j r where "j < length xss" "r < length (xss ! j)"
        "take (k - length xs) (concat xss) = concat (take j xss) @ take r (xss ! j)"
        using Cons.IH by blast
      with False show ?thesis by (intro exI [of _ "Suc j"] exI [of _ r]) simp
    qed
  qed
  then show thesis using that by blast
qed

section \<open>Strictly sorted association lists\<close>

text \<open>
  The abstract value of the memtable and of an SSTable is a list of entries in strictly
  increasing key order. \<open>sorted_keys\<close> is that order and \<open>upd_sorted\<close> is the specification of
  an insertion or an overwrite.
\<close>

definition sorted_keys :: "('k::linorder \<times> 'v) list \<Rightarrow> bool" where
  "sorted_keys ps \<longleftrightarrow> sorted_wrt (<) (map fst ps)"

fun upd_sorted :: "'k::linorder \<Rightarrow> 'v \<Rightarrow> ('k \<times> 'v) list \<Rightarrow> ('k \<times> 'v) list" where
  "upd_sorted k v [] = [(k, v)]"
| "upd_sorted k v ((a, b) # ps) =
     (if k < a then (k, v) # (a, b) # ps
      else if k = a then (k, v) # ps
      else (a, b) # upd_sorted k v ps)"

lemma sorted_keys_Nil [simp]: "sorted_keys []"
  by (simp add: sorted_keys_def)

lemma sorted_keys_Cons [simp]:
  "sorted_keys (p # ps) \<longleftrightarrow> (\<forall>q \<in> set ps. fst p < fst q) \<and> sorted_keys ps"
  by (auto simp: sorted_keys_def)

lemma sorted_keys_append:
  "sorted_keys (ps @ qs) \<longleftrightarrow>
     sorted_keys ps \<and> sorted_keys qs \<and> (\<forall>p \<in> set ps. \<forall>q \<in> set qs. fst p < fst q)"
  by (auto simp: sorted_keys_def sorted_wrt_append)

lemma sorted_keys_distinct: "sorted_keys ps \<Longrightarrow> distinct (map fst ps)"
  by (induction ps) fastforce+

lemma map_of_upd_sorted [simp]: "map_of (upd_sorted k v ps) = (map_of ps)(k \<mapsto> v)"
  by (induction ps rule: upd_sorted.induct) (auto simp: fun_eq_iff)

lemma set_upd_sorted: "fst ` set (upd_sorted k v ps) = insert k (fst ` set ps)"
  by (induction k v ps rule: upd_sorted.induct) auto

lemma sorted_upd_sorted [wf_intros]: "sorted_keys ps \<Longrightarrow> sorted_keys (upd_sorted k v ps)"
proof (induction k v ps rule: upd_sorted.induct)
  case (1 k v)
  then show ?case by simp
next
  case (2 k v a b ps)
  have "\<forall>q \<in> set (upd_sorted k v ps). a < fst q" if "a < k"
  proof
    fix q
    assume "q \<in> set (upd_sorted k v ps)"
    then have "fst q \<in> insert k (fst ` set ps)"
      by (metis imageI set_upd_sorted)
    with 2 that show "a < fst q" by auto
  qed
  with 2 show ?case by (auto dest: less_trans)
qed

lemma upd_sorted_split:
  assumes "\<forall>p \<in> set ps. fst p < k" and "\<forall>q \<in> set qs. k < fst q"
  shows "upd_sorted k v (ps @ qs) = ps @ (k, v) # qs"
    and "upd_sorted k v (ps @ (k, w) # qs) = ps @ (k, v) # qs"
proof -
  have "upd_sorted k v qs = (k, v) # qs"
    using assms(2) by (cases qs) auto
  with assms(1) show "upd_sorted k v (ps @ qs) = ps @ (k, v) # qs"
    by (induction ps) auto
  from assms(1) show "upd_sorted k v (ps @ (k, w) # qs) = ps @ (k, v) # qs"
    by (induction ps) auto
qed

lemma map_of_sorted_append:
  assumes "sorted_keys (ps @ qs)" and "\<forall>p \<in> set ps. fst p < k"
  shows "map_of (ps @ qs) k = map_of qs k"
proof -
  have "map_of ps k = None"
    using assms(2) by (auto simp: map_of_eq_None_iff)
  then show ?thesis by (simp add: map_add_def)
qed

section \<open>Loops over a list that may fail\<close>

fun fold_option :: "('a \<Rightarrow> 'b \<Rightarrow> 'b option) \<Rightarrow> 'a list \<Rightarrow> 'b \<Rightarrow> 'b option" where
  "fold_option f [] s = Some s"
| "fold_option f (x # xs) s = Option.bind (f x s) (fold_option f xs)"

lemma fold_option_invariant:
  assumes "fold_option f xs s = Some s'" "P s"
    and "\<And>x s s'. x \<in> set xs \<Longrightarrow> f x s = Some s' \<Longrightarrow> P s \<Longrightarrow> P s'"
  shows "P s'"
  using assms
proof (induction xs arbitrary: s)
  case (Cons x xs)
  then obtain s1 where s1: "f x s = Some s1" "fold_option f xs s1 = Some s'"
    by (auto simp: bind_eq_Some_conv)
  have "P s1" using Cons.prems(3) [OF _ s1(1) Cons.prems(2)] by simp
  with s1(2) show ?case by (rule Cons.IH) (use Cons.prems(3) in auto)
qed simp

lemma fold_option_returns:
  assumes "P s" and "\<And>x s. x \<in> set xs \<Longrightarrow> P s \<Longrightarrow> \<exists>s'. f x s = Some s' \<and> P s'"
  shows "\<exists>s'. fold_option f xs s = Some s' \<and> P s'"
  using assms
proof (induction xs arbitrary: s)
  case (Cons x xs)
  then obtain s1 where "f x s = Some s1" "P s1" by fastforce
  with Cons show ?case by auto
qed simp

section \<open>Results\<close>

text \<open>Sequencing of computations that return an error (\<open>Inl\<close>) or a value.\<close>

definition sum_bind :: "'e + 'a \<Rightarrow> ('a \<Rightarrow> 'e + 'b) \<Rightarrow> 'e + 'b" where
  "sum_bind m f = (case m of Inl e \<Rightarrow> Inl e | Inr x \<Rightarrow> f x)"

lemma sum_bind_simps [simp]: "sum_bind (Inl e) f = Inl e" "sum_bind (Inr x) f = f x"
  by (simp_all add: sum_bind_def)

lemma sum_bind_Inr [simp]: "sum_bind m f = Inr y \<longleftrightarrow> (\<exists>x. m = Inr x \<and> f x = Inr y)"
  by (cases m) simp_all

lemma sum_bind_cong [fundef_cong]:
  assumes "m = m'" "\<And>x. m' = Inr x \<Longrightarrow> f x = f' x"
  shows "sum_bind m f = sum_bind m' f'"
  using assms by (cases m') simp_all

lemma sum_bind_not:
  assumes "m \<noteq> Inl e" "\<And>x. m = Inr x \<Longrightarrow> f x \<noteq> Inl e"
  shows "sum_bind m f \<noteq> Inl e"
  using assms by (cases m) simp_all

end
