(* ===== verification/Go_Std.thy ===== *)
theory Go_Std
  imports Prelude
begin

text \<open>
  The parts of Go's standard library the sources use, as executable functions:
  \<open>encoding/binary\<close> (little-endian integers and unsigned varints), \<open>bytes.Compare\<close>,
  \<open>sort.Search\<close>, \<open>hash/crc32\<close> with the Castagnoli polynomial and \<open>hash/fnv\<close>.
\<close>

unbundle bit_operations_syntax

section \<open>encoding/binary: little-endian integers\<close>

fun le_bytes :: "nat \<Rightarrow> nat \<Rightarrow> bytes" where
  "le_bytes 0 n = []"
| "le_bytes (Suc k) n = word_of_nat n # le_bytes k (n div 256)"

fun le_value :: "bytes \<Rightarrow> nat" where
  "le_value [] = 0"
| "le_value (b # bs) = unat b + 256 * le_value bs"

definition PutUint32 :: "uint32 \<Rightarrow> bytes" where
  "PutUint32 v = le_bytes 4 (unat v)"

definition PutUint64 :: "uint64 \<Rightarrow> bytes" where
  "PutUint64 v = le_bytes 8 (unat v)"

text \<open>The readers use the first four (eight) bytes; every caller has checked that they exist.\<close>

definition Uint32 :: "bytes \<Rightarrow> uint32" where
  "Uint32 bs = word_of_nat (le_value (take 4 bs))"

definition Uint64 :: "bytes \<Rightarrow> uint64" where
  "Uint64 bs = word_of_nat (le_value (take 8 bs))"

lemma length_le_bytes [simp, codec_simps]: "length (le_bytes k n) = k"
  by (induction k arbitrary: n) simp_all

lemma le_value_le_bytes: "le_value (le_bytes k n) = n mod 256 ^ k"
proof (induction k arbitrary: n)
  case 0
  then show ?case by simp
next
  case (Suc k)
  have "unat (word_of_nat n :: byte) = n mod 256"
    by (simp add: unat_of_nat)
  with Suc show ?case by (simp add: mod_mult2_eq)
qed

lemma length_PutUint32 [simp, codec_simps]: "length (PutUint32 v) = 4"
  by (simp add: PutUint32_def)

lemma length_PutUint64 [simp, codec_simps]: "length (PutUint64 v) = 8"
  by (simp add: PutUint64_def)

lemma Uint32_PutUint32 [simp, codec_simps]: "Uint32 (PutUint32 v @ bs) = v"
proof -
  have "unat v < 256 ^ 4"
    using unat_lt_pow [of v] by simp
  then show ?thesis
    by (simp add: Uint32_def PutUint32_def le_value_le_bytes)
qed

lemma Uint64_PutUint64 [simp, codec_simps]: "Uint64 (PutUint64 v @ bs) = v"
proof -
  have "unat v < 256 ^ 8"
    using unat_lt_pow [of v] by simp
  then show ?thesis
    by (simp add: Uint64_def PutUint64_def le_value_le_bytes)
qed

lemmas Uint_Put_Nil [simp, codec_simps] =
  Uint32_PutUint32 [where bs = "[]", simplified append_Nil2]
  Uint64_PutUint64 [where bs = "[]", simplified append_Nil2]

lemma Uint32_cong_take: "take 4 xs = take 4 ys \<Longrightarrow> Uint32 xs = Uint32 ys"
  by (simp add: Uint32_def)

lemma Uint64_cong_take: "take 8 xs = take 8 ys \<Longrightarrow> Uint64 xs = Uint64 ys"
  by (simp add: Uint64_def)

section \<open>encoding/binary: unsigned varints\<close>

fun PutUvarint :: "nat \<Rightarrow> bytes" where
  "PutUvarint v =
     (if v < 128 then [word_of_nat v]
      else word_of_nat (128 + v mod 128) # PutUvarint (v div 128))"

declare PutUvarint.simps [simp del]

definition AppendUvarint :: "bytes \<Rightarrow> uint64 \<Rightarrow> bytes" where
  "AppendUvarint buf v = buf @ PutUvarint (unat v)"

text \<open>
  The reader returns the value and the number of bytes read: 0 for a buffer that ends too
  early, a negative count for a value that does not fit 64 bits.
\<close>

fun Uvarint_loop :: "bytes \<Rightarrow> nat \<Rightarrow> nat \<Rightarrow> nat \<times> int" where
  "Uvarint_loop [] i x = (0, 0)"
| "Uvarint_loop (b # bs) i x =
     (if i = 10 then (0, - (int i + 1))
      else if unat b < 128 then
        (if i = 9 \<and> 1 < unat b then (0, - (int i + 1))
         else (x + unat b * 2 ^ (7 * i), int i + 1))
      else Uvarint_loop bs (Suc i) (x + (unat b - 128) * 2 ^ (7 * i)))"

definition Uvarint :: "bytes \<Rightarrow> uint64 \<times> int" where
  "Uvarint buf = (let (x, n) = Uvarint_loop buf 0 0 in (word_of_nat x, n))"

lemma PutUvarint_nonempty [simp]: "PutUvarint v \<noteq> []"
  by (subst PutUvarint.simps) simp

lemma Uvarint_loop_Put:
  assumes "v < 2 ^ (64 - 7 * i)" and "i \<le> 9"
  shows "Uvarint_loop (PutUvarint v @ bs) i x
    = (x + v * 2 ^ (7 * i), int i + int (length (PutUvarint v)))"
  using assms
proof (induction v arbitrary: i x rule: PutUvarint.induct)
  case (1 v)
  show ?case
  proof (cases "v < 128")
    case True
    then have "unat (word_of_nat v :: byte) = v" by simp
    moreover have "\<not> (i = 9 \<and> 1 < v)" using "1.prems" by auto
    ultimately show ?thesis
      using True "1.prems" by (auto simp: PutUvarint.simps [of v])
  next
    case False
    have b: "unat (word_of_nat (128 + v mod 128) :: byte) = 128 + v mod 128"
      by (rule unat_of_nat_small) (simp add: mod_less_divisor [THEN less_le_trans])
    have i: "Suc i \<le> 9"
      using False "1.prems" by (cases "i = 9") auto
    have "(2::nat) ^ (64 - 7 * i) = 2 ^ (64 - 7 * Suc i) * 128"
    proof -
      have "64 - 7 * i = (64 - 7 * Suc i) + 7" using i by simp
      then show ?thesis by (simp only: power_add) simp
    qed
    with "1.prems" have "v div 128 < 2 ^ (64 - 7 * Suc i)"
      by (simp add: less_mult_imp_div_less)
    with 1 False i have IH: "Uvarint_loop (PutUvarint (v div 128) @ bs) (Suc i) y
        = (y + (v div 128) * 2 ^ (7 * Suc i), int (Suc i) + int (length (PutUvarint (v div 128))))"
      for y by blast
    have shift: "x + a * p + b * (128 * p) = x + (a + 128 * b) * p" for a b p :: nat
      by (simp add: algebra_simps)
    have "2 ^ (7 * Suc i) = 128 * (2 ^ (7 * i) :: nat)"
      by (simp add: power_add)
    then have "x + (v mod 128) * 2 ^ (7 * i) + (v div 128) * 2 ^ (7 * Suc i)
        = x + v * 2 ^ (7 * i)"
      by (simp only: shift mod_mult_div_eq)
    with False i b IH show ?thesis
      by (simp add: PutUvarint.simps [of v])
  qed
qed

lemma Uvarint_PutUvarint [simp, codec_simps]:
  "Uvarint (PutUvarint (unat v) @ bs) = (v, int (length (PutUvarint (unat v))))"
  using Uvarint_loop_Put [of "unat v" 0 bs 0] unat_lt_pow [of v]
  by (simp add: Uvarint_def)

lemma Uvarint_loop_bound:
  "Uvarint_loop bs i x = (y, n) \<Longrightarrow> 0 < n \<Longrightarrow> int i < n \<and> n \<le> int i + int (length bs)"
  by (induction bs i x rule: Uvarint_loop.induct) (auto split: if_splits)

lemma Uvarint_bound: "Uvarint bs = (y, n) \<Longrightarrow> 0 < n \<Longrightarrow> nat n \<le> length bs"
  by (auto simp: Uvarint_def split: prod.splits dest: Uvarint_loop_bound)

section \<open>bytes.Compare and sort.Search\<close>

fun bytes_Compare :: "bytes \<Rightarrow> bytes \<Rightarrow> int" where
  "bytes_Compare [] [] = 0"
| "bytes_Compare [] (b # bs) = -1"
| "bytes_Compare (a # as) [] = 1"
| "bytes_Compare (a # as) (b # bs) =
     (if a < b then -1 else if b < a then 1 else bytes_Compare as bs)"

lemma bytes_Compare_less [simp]: "bytes_Compare a b = -1 \<longleftrightarrow> a < b"
  by (induction a b rule: bytes_Compare.induct) auto

lemma bytes_Compare_eq [simp]: "bytes_Compare a b = 0 \<longleftrightarrow> a = b"
  by (induction a b rule: bytes_Compare.induct) auto

lemma bytes_Compare_greater [simp]: "bytes_Compare a b = 1 \<longleftrightarrow> b < a"
  by (induction a b rule: bytes_Compare.induct) auto

lemma bytes_Compare_cases: "bytes_Compare a b \<in> {-1, 0, 1}"
  by (induction a b rule: bytes_Compare.induct) auto

lemma bytes_Compare_neg [simp]: "bytes_Compare a b < 0 \<longleftrightarrow> a < b"
proof -
  have "bytes_Compare a b < 0 \<longleftrightarrow> bytes_Compare a b = -1"
    using bytes_Compare_cases [of a b] by (auto simp del: bytes_Compare_less bytes_Compare_eq bytes_Compare_greater)
  then show ?thesis by (simp only: bytes_Compare_less)
qed

lemma bytes_Compare_nonneg [simp]: "0 \<le> bytes_Compare a b \<longleftrightarrow> b \<le> a"
  by (simp only: not_less [symmetric] bytes_Compare_neg)

function sort_Search_loop :: "(nat \<Rightarrow> bool) \<Rightarrow> nat \<Rightarrow> nat \<Rightarrow> nat" where
  "sort_Search_loop f i j =
     (if i < j then
        let h = (i + j) div 2
        in if \<not> f h then sort_Search_loop f (h + 1) j else sort_Search_loop f i h
      else i)"
  by pat_completeness auto
termination
  by (relation "measure (\<lambda>(f, i, j). j - i)") auto

declare sort_Search_loop.simps [simp del]

definition sort_Search :: "nat \<Rightarrow> (nat \<Rightarrow> bool) \<Rightarrow> nat" where
  "sort_Search n f = sort_Search_loop f 0 n"

text \<open>On a predicate that stays true once it is true, the result is the first true index.\<close>

lemma sort_Search_loop_first:
  assumes "\<And>a b. a \<le> b \<Longrightarrow> b < n \<Longrightarrow> f a \<Longrightarrow> f b"
    and "i \<le> j" "j \<le> n" "\<And>k. k < i \<Longrightarrow> \<not> f k" "j < n \<Longrightarrow> f j"
  shows "let r = sort_Search_loop f i j in
    r \<le> n \<and> (\<forall>k < r. \<not> f k) \<and> (r < n \<longrightarrow> f r)"
  using assms
proof (induction f i j rule: sort_Search_loop.induct)
  case (1 f i j)
  show ?case
  proof (cases "i < j")
    case False
    then have "sort_Search_loop f i j = i" by (simp add: sort_Search_loop.simps [of f i j])
    with False "1.prems" show ?thesis by (simp add: Let_def)
  next
    case True
    define h where "h = (i + j) div 2"
    from True have h: "i \<le> h" "h < j" by (auto simp: h_def)
    show ?thesis
    proof (cases "f h")
      case True
      with 1 h \<open>i < j\<close> show ?thesis
        by (simp add: sort_Search_loop.simps [of f i j] h_def [symmetric] Let_def)
    next
      case False
      have "\<not> f k" if "k < h + 1" for k
        using "1.prems"(1) [of k h] False that h "1.prems"(3) by (metis Suc_eq_plus1 less_Suc_eq_le order_less_le_trans)
      with 1 h False \<open>i < j\<close> show ?thesis
        by (simp add: sort_Search_loop.simps [of f i j] h_def [symmetric] Let_def)
    qed
  qed
qed

lemma sort_Search_partition:
  assumes "sorted_wrt (\<lambda>x y. P x \<longrightarrow> P y) xs"
  defines "r \<equiv> sort_Search (length xs) (\<lambda>i. P (xs ! i))"
  shows "r \<le> length xs" "drop r xs = filter P xs" "take r xs = filter (\<lambda>x. \<not> P x) xs"
proof -
  have mono: "P (xs ! b)" if "a \<le> b" "b < length xs" "P (xs ! a)" for a b
    using assms(1) that by (metis le_neq_implies_less sorted_wrt_iff_nth_less)
  have r: "r \<le> length xs" "\<forall>k < r. \<not> P (xs ! k)" "r < length xs \<longrightarrow> P (xs ! r)"
    using sort_Search_loop_first [of "length xs" "\<lambda>i. P (xs ! i)" 0 "length xs"] mono
    by (auto simp: r_def sort_Search_def Let_def)
  then show "r \<le> length xs" by simp
  have "\<forall>x \<in> set (drop r xs). P x"
    using mono [of r] r(3) by (fastforce simp: in_set_conv_nth)
  moreover have "\<forall>x \<in> set (take r xs). \<not> P x"
    using r(1,2) by (auto simp: in_set_conv_nth)
  ultimately have "filter P (take r xs @ drop r xs) = drop r xs"
    "filter (\<lambda>x. \<not> P x) (take r xs @ drop r xs) = take r xs"
    unfolding filter_append by (simp_all add: filter_id_conv filter_empty_conv)
  then show "drop r xs = filter P xs" "take r xs = filter (\<lambda>x. \<not> P x) xs" by simp_all
qed

section \<open>hash/crc32 (Castagnoli) and hash/fnv\<close>

text \<open>
  One step per bit of the reflected polynomial; the library's table lookup is this step
  precomputed for all 256 bytes.
\<close>

definition crc32_step :: "uint32 \<Rightarrow> uint32" where
  "crc32_step c = (if bit c 0 then drop_bit 1 c XOR 0x82F63B78 else drop_bit 1 c)"

definition crc32_byte :: "uint32 \<Rightarrow> byte \<Rightarrow> uint32" where
  "crc32_byte c b =
     crc32_step (crc32_step (crc32_step (crc32_step
       (crc32_step (crc32_step (crc32_step (crc32_step (c XOR ucast b))))))))"

definition crc32_update :: "uint32 \<Rightarrow> bytes \<Rightarrow> uint32" where
  "crc32_update crc bs = foldl crc32_byte crc bs"

definition crc32_Checksum :: "bytes \<Rightarrow> uint32" where
  "crc32_Checksum bs = NOT (crc32_update 0xFFFFFFFF bs)"

lemmas crc32_eval = crc32_Checksum_def crc32_update_def crc32_byte_def crc32_step_def

lemma crc32_known_answer:
  "crc32_Checksum [0x31, 0x32, 0x33, 0x34, 0x35, 0x36, 0x37, 0x38, 0x39] = 0xE3069283"
  by (simp add: crc32_eval)

text \<open>The checksum changes when one byte of the data does: every step is injective.\<close>

lemma xor_cancel: "a XOR c = b XOR c \<Longrightarrow> a = b" for a b c :: "'a::len word"
  by (metis xor.assoc xor_self_eq xor.right_neutral)

lemma crc32_step_inj: "crc32_step a = crc32_step b \<Longrightarrow> a = b"
proof -
  assume eq: "crc32_step a = crc32_step b"
  have p: "bit (0x82F63B78 :: uint32) 31" by (simp add: bit_iff_odd_drop_bit)
  have s: "\<not> bit (drop_bit 1 c) 31" for c :: uint32
    using bit_imp_le_length [of c 32] by (auto simp: bit_drop_bit_eq)
  have top: "bit (crc32_step c) 31 \<longleftrightarrow> bit c 0" for c
    using p s [of c] by (auto simp: crc32_step_def bit_xor_iff)
  have b0: "bit a 0 = bit b 0" using eq top by metis
  then have "drop_bit 1 a = drop_bit 1 b"
    using eq by (auto simp: crc32_step_def split: if_splits dest: xor_cancel)
  then have "bit a (Suc n) = bit b (Suc n)" for n
    by (metis bit_drop_bit_eq comp_apply plus_1_eq_Suc)
  with b0 show "a = b" by (intro bit_eqI) (metis not0_implies_Suc)
qed

lemma crc32_byte_inj: "crc32_byte a x = crc32_byte b x \<Longrightarrow> a = b"
  unfolding crc32_byte_def by (drule crc32_step_inj)+ (erule xor_cancel)

lemma crc32_byte_differs: "x \<noteq> y \<Longrightarrow> crc32_byte a x \<noteq> crc32_byte a y"
proof
  assume "x \<noteq> y" "crc32_byte a x = crc32_byte a y"
  then have "a XOR ucast x = a XOR ucast y"
    unfolding crc32_byte_def by (auto dest!: crc32_step_inj)
  then have "(ucast x :: uint32) = ucast y"
    using xor_cancel by (metis xor.commute)
  moreover have "unat (ucast z :: uint32) = unat z" for z :: byte
    using unat_lt_pow [of z] by (simp add: unsigned_ucast_eq take_bit_nat_eq_self_iff)
  ultimately have "x = y" by (metis word_unat_eq_iff)
  with \<open>x \<noteq> y\<close> show False by simp
qed

lemma crc32_update_inj: "crc32_update a bs = crc32_update b bs \<Longrightarrow> a = b"
  by (induction bs arbitrary: a b) (auto simp: crc32_update_def dest: crc32_byte_inj)

lemma crc32_single_byte:
  assumes "x \<noteq> y"
  shows "crc32_Checksum (pre @ x # post) \<noteq> crc32_Checksum (pre @ y # post)"
proof
  assume "crc32_Checksum (pre @ x # post) = crc32_Checksum (pre @ y # post)"
  then have "crc32_update (crc32_byte (crc32_update 0xFFFFFFFF pre) x) post
      = crc32_update (crc32_byte (crc32_update 0xFFFFFFFF pre) y) post"
    by (simp add: crc32_Checksum_def crc32_update_def)
  then show False using crc32_update_inj crc32_byte_differs [OF assms] by blast
qed
definition fnv64a :: "bytes \<Rightarrow> uint64" where
  "fnv64a bs = foldl (\<lambda>h b. (h XOR ucast b) * 0x100000001B3) 0xCBF29CE484222325 bs"

lemma fnv64a_known_answer: "fnv64a [0x61] = 0xAF63DC4C8601EC8C"
  by (simp add: fnv64a_def)

section \<open>Slices\<close>

text \<open>
  Indexing and slicing with a Go \<open>int\<close>; \<open>None\<close> is the run-time panic. An upper bound beyond the
  length is a panic here; the code never relies on spare capacity.
\<close>

definition go_index :: "'a list \<Rightarrow> int \<Rightarrow> 'a option" where
  "go_index xs i = (if 0 \<le> i \<and> i < int (length xs) then Some (xs ! nat i) else None)"

definition go_slice :: "'a list \<Rightarrow> int \<Rightarrow> int \<Rightarrow> 'a list option" where
  "go_slice xs i j =
     (if 0 \<le> i \<and> i \<le> j \<and> j \<le> int (length xs) then Some (take (nat j - nat i) (drop (nat i) xs)) else None)"

definition go_last :: "'a list \<Rightarrow> 'a option" where
  "go_last xs = (if xs = [] then None else Some (last xs))"

definition go_first :: "'a list \<Rightarrow> 'a option" where
  "go_first xs = (case xs of [] \<Rightarrow> None | x # _ \<Rightarrow> Some x)"

lemma go_index_nat [simp]: "n < length xs \<Longrightarrow> go_index xs (int n) = Some (xs ! n)"
  by (simp add: go_index_def)

lemma go_slice_nat [simp]:
  "i \<le> j \<Longrightarrow> j \<le> length xs \<Longrightarrow> go_slice xs (int i) (int j) = Some (take (j - i) (drop i xs))"
  by (simp add: go_slice_def)

lemma go_last_Some [simp]: "xs \<noteq> [] \<Longrightarrow> go_last xs = Some (last xs)"
  by (simp add: go_last_def)

lemma go_first_Cons [simp]: "go_first (x # xs) = Some x"
  by (simp add: go_first_def)

lemma go_first_Some: "xs \<noteq> [] \<Longrightarrow> go_first xs = Some (hd xs)"
  by (cases xs) simp_all

end
