(* ===== verification/Wal_Record.thy ===== *)
theory Wal_Record
  imports Go_Std
begin

text \<open>
  The record framing of the write-ahead log (\<open>src/wal/record.go\<close>): a CRC, a payload length,
  and a payload of type, sequence number, key and value.
\<close>

section \<open>Records\<close>

datatype wal_error =
    ErrCorruptRecord
  | ErrOpen
  | ErrStat
  | ErrReadHeader nat
  | ErrTruncate
  | ErrClosed
  | ErrWrite
  | ErrFlush
  | ErrFsync
  | ErrClose

definition RecordPut :: byte where
  "RecordPut = 0"

definition RecordDelete :: byte where
  "RecordDelete = 1"

record Record =
  rec_SeqNum :: uint64
  rec_Type :: byte
  rec_Key :: bytes
  rec_Value :: bytes

definition headerSize :: nat where
  "headerSize = 4 + 4"

lemma headerSize_pos [simp]: "0 < headerSize" "headerSize \<noteq> 0"
  by (simp_all add: headerSize_def)

section \<open>Encoding\<close>

definition encode_payload :: "Record \<Rightarrow> bytes" where
  "encode_payload rec =
     [rec_Type rec]
     @ PutUint64 (rec_SeqNum rec)
     @ PutUint32 (word_of_nat (length (rec_Key rec)))
     @ rec_Key rec
     @ PutUint32 (word_of_nat (length (rec_Value rec)))
     @ rec_Value rec"

definition encode :: "Record \<Rightarrow> bytes" where
  "encode rec =
     (let payload = encode_payload rec
      in PutUint32 (crc32_Checksum payload)
         @ PutUint32 (word_of_nat (length payload))
         @ payload)"

definition decodePayload :: "bytes \<Rightarrow> wal_error + Record" where
  "decodePayload payload =
     (if length payload < 1 + 8 + 4 then Inl ErrCorruptRecord
      else
        let keyLen = Uint32 (drop 9 payload); off = 13
        in if (word_of_nat (length payload - off) :: uint32) < keyLen then Inl ErrCorruptRecord
           else
             let key = take (unat keyLen) (drop off payload); off = off + unat keyLen
             in if length payload - off < 4 then Inl ErrCorruptRecord
                else
                  let valLen = Uint32 (drop off payload); off = off + 4
                  in if (word_of_nat (length payload - off) :: uint32) < valLen
                     then Inl ErrCorruptRecord
                     else Inr \<lparr>rec_SeqNum = Uint64 (drop 1 payload),
                               rec_Type = payload ! 0,
                               rec_Key = key,
                               rec_Value = take (unat valLen) (drop off payload)\<rparr>)"

section \<open>Round trip\<close>

text \<open>
  The length fields hold 32 bits: a record is encodable when its payload length fits them.
\<close>

definition encodable :: "Record \<Rightarrow> bool" where
  "encodable rec \<longleftrightarrow> 17 + length (rec_Key rec) + length (rec_Value rec) < 2 ^ 32"

lemma length_encode_payload [simp, codec_simps]:
  "length (encode_payload rec) = 17 + length (rec_Key rec) + length (rec_Value rec)"
  by (simp add: encode_payload_def)

lemma length_encode [simp, codec_simps]:
  "length (encode rec) = headerSize + length (encode_payload rec)"
  by (simp add: encode_def Let_def headerSize_def)

lemma drop_encode_payload:
  "drop 1 (encode_payload rec) = PutUint64 (rec_SeqNum rec)
     @ PutUint32 (word_of_nat (length (rec_Key rec))) @ rec_Key rec
     @ PutUint32 (word_of_nat (length (rec_Value rec))) @ rec_Value rec"
  "drop 9 (encode_payload rec) = PutUint32 (word_of_nat (length (rec_Key rec))) @ rec_Key rec
     @ PutUint32 (word_of_nat (length (rec_Value rec))) @ rec_Value rec"
  "drop (13 + n) (encode_payload rec) = drop n (rec_Key rec
     @ PutUint32 (word_of_nat (length (rec_Value rec))) @ rec_Value rec)"
proof -
  have "drop 13 (encode_payload rec) = rec_Key rec
     @ PutUint32 (word_of_nat (length (rec_Value rec))) @ rec_Value rec"
    by (simp add: encode_payload_def)
  then show "drop (13 + n) (encode_payload rec) = drop n (rec_Key rec
     @ PutUint32 (word_of_nat (length (rec_Value rec))) @ rec_Value rec)"
    by (metis add.commute drop_drop)
qed (simp_all add: encode_payload_def)

lemma word32_of_nat_less:
  "n \<le> m \<Longrightarrow> m < 2 ^ 32 \<Longrightarrow> \<not> (word_of_nat m :: uint32) < word_of_nat n"
  by (simp add: word_less_nat_alt)

lemma decodePayload_encode_payload:
  assumes "encodable rec"
  shows "decodePayload (encode_payload rec) = Inr rec"
proof -
  from assms have b: "length (rec_Key rec) < 2 ^ 32" "length (rec_Value rec) < 2 ^ 32"
    "17 + length (rec_Key rec) + length (rec_Value rec) < 2 ^ 32"
    by (auto simp: encodable_def)
  have key: "\<not> (word_of_nat (4 + length (rec_Key rec) + length (rec_Value rec)) :: uint32)
      < word_of_nat (length (rec_Key rec))"
    using b by (intro word32_of_nat_less) auto
  have off: "drop (13 + length (rec_Key rec)) (encode_payload rec)
      = PutUint32 (word_of_nat (length (rec_Value rec))) @ rec_Value rec"
    "drop (13 + length (rec_Key rec) + 4) (encode_payload rec) = rec_Value rec"
    "drop 13 (encode_payload rec) = rec_Key rec
      @ PutUint32 (word_of_nat (length (rec_Value rec))) @ rec_Value rec"
    using drop_encode_payload(3) [of "length (rec_Key rec)" rec]
      drop_encode_payload(3) [of "length (rec_Key rec) + 4" rec]
      drop_encode_payload(3) [of 0 rec]
    by (simp_all add: add.assoc)
  have ty: "encode_payload rec ! 0 = rec_Type rec"
    by (simp add: encode_payload_def)
  have arith: "17 + k + v - 13 = 4 + k + v" "17 + k + v - (13 + k) = 4 + v"
    "17 + k + v - (13 + k + 4) = v" for k v :: nat
    by simp_all
  have u: "unat (word_of_nat (length (rec_Key rec)) :: uint32) = length (rec_Key rec)"
    "unat (word_of_nat (length (rec_Value rec)) :: uint32) = length (rec_Value rec)"
    using b by simp_all
  show ?thesis
    using key
    by (simp only: decodePayload_def Let_def length_encode_payload drop_encode_payload(1,2) off
        ty arith Uint32_PutUint32 Uint64_PutUint64 u) simp
qed

lemma decodePayload_error_short: "length payload < 13 \<Longrightarrow> decodePayload payload = Inl ErrCorruptRecord"
  by (simp add: decodePayload_def)

end
