(* ===== verification/Os_Files.thy ===== *)
theory Os_Files
  imports Prelude "HOL-Library.AList"
begin

text \<open>
  The parts of \<open>os\<close> and \<open>bufio\<close> the storage components use: one directory of append-only
  files, and a buffered writer over one of them. Every system call takes the next element of
  a sequence of outcomes, so an operation can fail at any call, a write after any number of
  its bytes. A crash is the special case in which, from some call on, every call fails
  without effect: what the files then hold is what a restarted process finds.
\<close>

section \<open>The directory\<close>

datatype outcome = Ok | Fail nat

record fdata =
  fd_data :: bytes
  fd_synced :: nat

record world =
  w_files :: "(string \<times> fdata) list"
  w_faults :: "nat \<Rightarrow> outcome"

definition next_outcome :: "world \<Rightarrow> outcome \<times> world" where
  "next_outcome w = (w_faults w 0, w\<lparr>w_faults := (\<lambda>n. w_faults w (Suc n))\<rparr>)"

definition file_data :: "world \<Rightarrow> string \<Rightarrow> bytes option" where
  "file_data w path = map_option fd_data (map_of (w_files w) path)"

definition file_synced :: "world \<Rightarrow> string \<Rightarrow> nat option" where
  "file_synced w path = map_option fd_synced (map_of (w_files w) path)"

definition set_file :: "string \<Rightarrow> fdata \<Rightarrow> world \<Rightarrow> world" where
  "set_file path d w = w\<lparr>w_files := AList.update path d (w_files w)\<rparr>"

definition append_file :: "string \<Rightarrow> bytes \<Rightarrow> world \<Rightarrow> world" where
  "append_file path bs w =
     (case map_of (w_files w) path of
        None \<Rightarrow> w
      | Some d \<Rightarrow> set_file path (d\<lparr>fd_data := fd_data d @ bs\<rparr>) w)"

section \<open>System calls\<close>

text \<open>\<open>os.OpenFile\<close> with \<open>O_CREATE|O_APPEND\<close>, and with \<open>O_CREATE|O_TRUNC\<close>.\<close>

definition os_OpenAppend :: "string \<Rightarrow> world \<Rightarrow> bool \<times> world" where
  "os_OpenAppend path w =
     (case next_outcome w of
        (Fail _, w') \<Rightarrow> (False, w')
      | (Ok, w') \<Rightarrow>
          (True, case map_of (w_files w') path of
                   None \<Rightarrow> set_file path \<lparr>fd_data = [], fd_synced = 0\<rparr> w'
                 | Some _ \<Rightarrow> w'))"

definition os_Create :: "string \<Rightarrow> world \<Rightarrow> bool \<times> world" where
  "os_Create path w =
     (case next_outcome w of
        (Fail _, w') \<Rightarrow> (False, w')
      | (Ok, w') \<Rightarrow> (True, set_file path \<lparr>fd_data = [], fd_synced = 0\<rparr> w'))"

text \<open>\<open>File.Write\<close>: the number of bytes written and whether the call succeeded.\<close>

definition os_Write :: "string \<Rightarrow> bytes \<Rightarrow> world \<Rightarrow> nat \<times> bool \<times> world" where
  "os_Write path bs w =
     (case next_outcome w of
        (Ok, w') \<Rightarrow> (length bs, True, append_file path bs w')
      | (Fail k, w') \<Rightarrow> (min k (length bs), False, append_file path (take k bs) w'))"

definition os_Sync :: "string \<Rightarrow> world \<Rightarrow> bool \<times> world" where
  "os_Sync path w =
     (case next_outcome w of
        (Fail _, w') \<Rightarrow> (False, w')
      | (Ok, w') \<Rightarrow>
          (True, case map_of (w_files w') path of
                   None \<Rightarrow> w'
                 | Some d \<Rightarrow> set_file path (d\<lparr>fd_synced := length (fd_data d)\<rparr>) w'))"

definition os_Close :: "string \<Rightarrow> world \<Rightarrow> bool \<times> world" where
  "os_Close path w = (case next_outcome w of (Fail _, w') \<Rightarrow> (False, w') | (Ok, w') \<Rightarrow> (True, w'))"

definition os_Truncate :: "string \<Rightarrow> nat \<Rightarrow> world \<Rightarrow> bool \<times> world" where
  "os_Truncate path n w =
     (case next_outcome w of
        (Fail _, w') \<Rightarrow> (False, w')
      | (Ok, w') \<Rightarrow>
          (True, case map_of (w_files w') path of
                   None \<Rightarrow> w'
                 | Some d \<Rightarrow> set_file path
                     (d\<lparr>fd_data := take n (fd_data d), fd_synced := min n (fd_synced d)\<rparr>) w'))"

definition os_Remove :: "string \<Rightarrow> world \<Rightarrow> bool \<times> world" where
  "os_Remove path w =
     (case next_outcome w of
        (Fail _, w') \<Rightarrow> (False, w')
      | (Ok, w') \<Rightarrow>
          (map_of (w_files w') path \<noteq> None, w'\<lparr>w_files := AList.delete path (w_files w')\<rparr>))"

definition os_Rename :: "string \<Rightarrow> string \<Rightarrow> world \<Rightarrow> bool \<times> world" where
  "os_Rename old new w =
     (case next_outcome w of
        (Fail _, w') \<Rightarrow> (False, w')
      | (Ok, w') \<Rightarrow>
          (case map_of (w_files w') old of
             None \<Rightarrow> (False, w')
           | Some d \<Rightarrow>
               (True, w'\<lparr>w_files := AList.update new d (AList.delete old (w_files w'))\<rparr>)))"

text \<open>
  Reading: \<open>os.Open\<close>, \<open>File.Stat\<close> (the size), \<open>File.ReadAt\<close> of \<open>n > 0\<close> bytes (an error at a negative
  offset and when fewer bytes are left), \<open>os.ReadFile\<close> and the file names of \<open>os.ReadDir\<close>.
\<close>

definition os_Open :: "string \<Rightarrow> world \<Rightarrow> bool \<times> world" where
  "os_Open path w =
     (case next_outcome w of (Fail _, w') \<Rightarrow> (False, w') | (Ok, w') \<Rightarrow> (map_of (w_files w') path \<noteq> None, w'))"

definition os_Stat :: "string \<Rightarrow> world \<Rightarrow> nat option \<times> world" where
  "os_Stat path w =
     (case next_outcome w of (Fail _, w') \<Rightarrow> (None, w') | (Ok, w') \<Rightarrow> (map_option length (file_data w' path), w'))"

definition os_ReadAt :: "string \<Rightarrow> nat \<Rightarrow> int \<Rightarrow> world \<Rightarrow> bytes option \<times> world" where
  "os_ReadAt path n off w =
     (case next_outcome w of
        (Fail _, w') \<Rightarrow> (None, w')
      | (Ok, w') \<Rightarrow>
          (case file_data w' path of
             None \<Rightarrow> (None, w')
           | Some d \<Rightarrow>
               (if 0 \<le> off \<and> nat off + n \<le> length d then Some (take n (drop (nat off) d)) else None, w')))"

datatype file_read = FileMissing | FileError | FileContents bytes

definition os_ReadFile :: "string \<Rightarrow> world \<Rightarrow> file_read \<times> world" where
  "os_ReadFile path w =
     (case next_outcome w of
        (Fail _, w') \<Rightarrow> (FileError, w')
      | (Ok, w') \<Rightarrow> (case file_data w' path of None \<Rightarrow> FileMissing | Some d \<Rightarrow> FileContents d, w'))"

definition os_ReadDir :: "world \<Rightarrow> string list option \<times> world" where
  "os_ReadDir w =
     (case next_outcome w of (Fail _, w') \<Rightarrow> (None, w') | (Ok, w') \<Rightarrow> (Some (remdups (map fst (w_files w'))), w'))"

section \<open>Sequencing\<close>

text \<open>
  Operations that take the world and return an error or a value, in sequence: the early return of
  \<open>if err != nil\<close>. \<open>triple\<close> is total correctness of such an operation, with a postcondition for the
  error case.
\<close>

type_synonym ('e, 'a) io = "world \<Rightarrow> ('e + 'a) \<times> world"

definition and_then :: "('e, 'a) io \<Rightarrow> ('a \<Rightarrow> ('e, 'b) io) \<Rightarrow> ('e, 'b) io" where
  "and_then m f w = (case m w of (Inl e, w') \<Rightarrow> (Inl e, w') | (Inr x, w') \<Rightarrow> f x w')"

definition triple :: "(world \<Rightarrow> bool) \<Rightarrow> ('e, 'a) io \<Rightarrow> ('a \<Rightarrow> world \<Rightarrow> bool) \<Rightarrow> (world \<Rightarrow> bool) \<Rightarrow> bool" where
  "triple P m Q E \<longleftrightarrow>
     (\<forall>w r w'. P w \<longrightarrow> m w = (r, w') \<longrightarrow> (case r of Inl _ \<Rightarrow> E w' | Inr x \<Rightarrow> Q x w'))"

lemma triple_and_then:
  assumes "triple P m Q E" "\<And>x. triple (Q x) (f x) R E"
  shows "triple P (and_then m f) R E"
  unfolding triple_def
proof (intro allI impI)
  fix w r w' assume P: "P w" and r: "and_then m f w = (r, w')"
  obtain r1 w1 where m: "m w = (r1, w1)" by fastforce
  with assms(1) P have 1: "case r1 of Inl _ \<Rightarrow> E w1 | Inr x \<Rightarrow> Q x w1" unfolding triple_def by blast
  show "case r of Inl _ \<Rightarrow> E w' | Inr x \<Rightarrow> R x w'"
  proof (cases r1)
    case (Inl e)
    with r m 1 show ?thesis by (auto simp: and_then_def)
  next
    case (Inr x)
    with r m have "f x w1 = (r, w')" by (simp add: and_then_def)
    with assms(2) [of x] 1 Inr show ?thesis unfolding triple_def by fastforce
  qed
qed

lemma tripleI:
  assumes "\<And>w w' e. P w \<Longrightarrow> m w = (Inl e, w') \<Longrightarrow> E w'" "\<And>w w' x. P w \<Longrightarrow> m w = (Inr x, w') \<Longrightarrow> Q x w'"
  shows "triple P m Q E"
  using assms unfolding triple_def by (auto split: sum.split)

lemma tripleD:
  assumes "triple P m Q E" "P w" "m w = (r, w')"
  shows "r = Inl e \<Longrightarrow> E w'" "r = Inr x \<Longrightarrow> Q x w'"
  using assms unfolding triple_def by fastforce+

section \<open>Loss of power\<close>

text \<open>
  After a loss of power every file keeps its synced bytes and an arbitrary part (\<open>keep\<close>) of the bytes
  written after them; what is kept is on the disk, and the restarted process meets a working disk.
\<close>

definition power_loss :: "(string \<Rightarrow> nat) \<Rightarrow> world \<Rightarrow> world" where
  "power_loss keep w =
     \<lparr>w_files = map (\<lambda>(p, d). let n = max (fd_synced d) (min (keep p) (length (fd_data d)))
                              in (p, \<lparr>fd_data = take n (fd_data d), fd_synced = min n (length (fd_data d))\<rparr>)) (w_files w),
      w_faults = (\<lambda>_. Ok)\<rparr>"

lemma map_of_map_kv:
  "map_of (map (\<lambda>(p, d). (p, f p d)) xs) q = map_option (f q) (map_of xs q)"
  by (induction xs) auto

lemma file_data_power_loss:
  "file_data w p = Some d \<Longrightarrow> file_synced w p = Some n \<Longrightarrow>
     \<exists>m. file_data (power_loss keep w) p = Some (take m d) \<and> n \<le> m"
  by (auto simp: file_data_def file_synced_def power_loss_def Let_def map_of_map_kv
      intro!: exI [of _ "max n (min (keep p) (length d))"])

lemma file_synced_power_loss:
  "file_synced (power_loss keep w) p = map_option length (file_data (power_loss keep w) p)"
  by (simp add: file_data_def file_synced_def power_loss_def Let_def map_of_map_kv option.map_comp comp_def min.commute)

lemma w_faults_power_loss [simp]: "w_faults (power_loss keep w) = (\<lambda>_. Ok)"
  by (simp add: power_loss_def)

section \<open>bufio.Writer\<close>

record bufio =
  bw_path :: string
  bw_buf :: bytes
  bw_err :: bool

definition bufio_size :: nat where
  "bufio_size = 4096"

definition bufio_NewWriter :: "string \<Rightarrow> bufio" where
  "bufio_NewWriter path = \<lparr>bw_path = path, bw_buf = [], bw_err = False\<rparr>"

definition bufio_Flush :: "bufio \<Rightarrow> world \<Rightarrow> bool \<times> bufio \<times> world" where
  "bufio_Flush b w =
     (if bw_err b then (False, b, w)
      else if bw_buf b = [] then (True, b, w)
      else case os_Write (bw_path b) (bw_buf b) w of
          (n, True, w') \<Rightarrow> (True, b\<lparr>bw_buf := []\<rparr>, w')
        | (n, False, w') \<Rightarrow> (False, b\<lparr>bw_buf := drop n (bw_buf b), bw_err := True\<rparr>, w'))"

lemma bufio_Flush_ok_empty: "bufio_Flush b w = (True, b', w') \<Longrightarrow> bw_buf b' = []"
  by (auto simp: bufio_Flush_def split: if_splits prod.splits bool.splits)

function bufio_Write :: "bytes \<Rightarrow> bufio \<Rightarrow> world \<Rightarrow> bool \<times> bufio \<times> world" where
  "bufio_Write p b w =
     (if bw_err b then (False, b, w)
      else if bufio_size - length (bw_buf b) < length p then
        (if bw_buf b = [] then
           (case os_Write (bw_path b) p w of
              (n, True, w') \<Rightarrow> (True, b, w')
            | (n, False, w') \<Rightarrow> (False, b\<lparr>bw_err := True\<rparr>, w'))
         else
           let n = bufio_size - length (bw_buf b)
           in case bufio_Flush (b\<lparr>bw_buf := bw_buf b @ take n p\<rparr>) w of
                (True, b', w') \<Rightarrow> bufio_Write (drop n p) b' w'
              | (False, b', w') \<Rightarrow> (False, b', w'))
      else (True, b\<lparr>bw_buf := bw_buf b @ p\<rparr>, w))"
  by pat_completeness auto
termination
  by (relation "measure (\<lambda>(p, b, w). length p + length (bw_buf b))")
    (auto dest!: bufio_Flush_ok_empty [OF sym] intro: le_less_trans [OF diff_le_self])

declare bufio_Write.simps [simp del]

section \<open>What a write leaves in the file\<close>

text \<open>
  \<open>extends path x w w'\<close>: the file at \<open>path\<close> grew by \<open>x\<close> and no other file changed.
\<close>

definition extends :: "string \<Rightarrow> bytes \<Rightarrow> world \<Rightarrow> world \<Rightarrow> bool" where
  "extends path x w w' \<longleftrightarrow>
     file_data w' path = map_option (\<lambda>d. d @ x) (file_data w path)
     \<and> file_synced w' path = file_synced w path
     \<and> (\<forall>q. q \<noteq> path \<longrightarrow> map_of (w_files w') q = map_of (w_files w) q)"

lemma extends_refl [simp]: "extends path [] w w"
  by (simp add: extends_def option.map_ident)

lemma extends_trans: "extends path x w w' \<Longrightarrow> extends path y w' w'' \<Longrightarrow> extends path (x @ y) w w''"
  by (auto simp: extends_def option.map_comp comp_def)

lemma next_outcome_files: "next_outcome w = (r, w') \<Longrightarrow> w_files w' = w_files w"
  by (auto simp: next_outcome_def)

lemma extends_append_file: "next_outcome w = (r, w') \<Longrightarrow> extends path x w (append_file path x w')"
  by (auto simp: next_outcome_files extends_def append_file_def file_data_def file_synced_def set_file_def
      update_conv' split: option.splits)

lemma os_Write_extends:
  assumes "os_Write path p w = (n, ok, w')"
  shows "extends path (take n p) w w' \<and> n \<le> length p \<and> (ok \<longrightarrow> n = length p)"
proof -
  obtain r w1 where o: "next_outcome w = (r, w1)" by fastforce
  then have "extends path x w (append_file path x w1)" for x
    by (rule extends_append_file)
  from this [of p] this [of "take n p"] assms o show ?thesis
    by (cases r) (auto simp: os_Write_def min_def split: if_splits)
qed

lemma bufio_Flush_extends:
  assumes "bufio_Flush b w = (ok, b', w')"
  shows "\<exists>x. extends (bw_path b) x w w' \<and> bw_path b' = bw_path b \<and>
    (ok \<longrightarrow> x = bw_buf b \<and> bw_buf b' = [] \<and> \<not> bw_err b') \<and> prefix x (bw_buf b)"
proof (cases "bw_err b \<or> bw_buf b = []")
  case True
  with assms show ?thesis
    by (auto simp: bufio_Flush_def split: if_splits intro!: exI [of _ "[]"])
next
  case False
  obtain n k w1 where wr: "os_Write (bw_path b) (bw_buf b) w = (n, k, w1)"
    by (metis prod_cases3)
  from os_Write_extends [OF wr] wr assms False show ?thesis
    by (intro exI [of _ "take n (bw_buf b)"])
      (auto simp: bufio_Flush_def take_is_prefix split: if_splits bool.splits)
qed

lemma bufio_Write_extends:
  assumes "bufio_Write p b w = (ok, b', w')"
  shows "\<exists>x. extends (bw_path b) x w w' \<and> bw_path b' = bw_path b \<and>
    (ok \<longrightarrow> x @ bw_buf b' = bw_buf b @ p \<and> \<not> bw_err b') \<and> prefix x (bw_buf b @ p)"
  using assms
proof (induction p b w rule: bufio_Write.induct)
  case (1 p b w)
  consider (err) "bw_err b"
    | (large) "\<not> bw_err b" "bufio_size < length p" "bw_buf b = []"
    | (fill) "\<not> bw_err b" "bufio_size - length (bw_buf b) < length p" "bw_buf b \<noteq> []"
    | (fits) "\<not> bw_err b" "\<not> bufio_size - length (bw_buf b) < length p"
    by fastforce
  then show ?case
  proof cases
    case err
    with "1.prems" show ?thesis
      by (auto simp: bufio_Write.simps [of p b w] intro!: exI [of _ "[]"])
  next
    case large
    obtain n k w1 where wr: "os_Write (bw_path b) p w = (n, k, w1)"
      by (metis prod_cases3)
    from os_Write_extends [OF wr] wr "1.prems" large show ?thesis
      by (intro exI [of _ "take n p"])
        (auto simp: bufio_Write.simps [of p b w] take_is_prefix split: if_splits bool.splits)
  next
    case fill
    define n where "n = bufio_size - length (bw_buf b)"
    obtain k b1 w1 where fl: "bufio_Flush (b\<lparr>bw_buf := bw_buf b @ take n p\<rparr>) w = (k, b1, w1)"
      by (metis prod_cases3)
    from bufio_Flush_extends [OF fl] obtain x where x: "extends (bw_path b) x w w1"
      "bw_path b1 = bw_path b" "prefix x (bw_buf b @ take n p)"
      "k \<Longrightarrow> x = bw_buf b @ take n p \<and> bw_buf b1 = [] \<and> \<not> bw_err b1" by auto
    show ?thesis
    proof (cases k)
      case True
      with "1.prems" fill fl have "bufio_Write (drop n p) b1 w1 = (ok, b', w')"
        by (simp add: bufio_Write.simps [of p b w] n_def [symmetric] Let_def)
      with "1.IH" [OF fill(1) fill(2) fill(3) n_def fl [symmetric]] True x(4) obtain y
        where y: "extends (bw_path b1) y w1 w'" "bw_path b' = bw_path b1"
          "ok \<Longrightarrow> y @ bw_buf b' = drop n p \<and> \<not> bw_err b'" "prefix y (drop n p)"
        by auto
      from True x y have "extends (bw_path b) (x @ y) w w'"
        by (metis extends_trans)
      moreover have "prefix (take n p @ y) p"
        using y(4) by (metis append_take_drop_id same_prefix_prefix)
      ultimately show ?thesis
        using True x y by (intro exI [of _ "x @ y"]) auto
    next
      case False
      with "1.prems" fill fl have "ok = False \<and> b' = b1 \<and> w' = w1"
        by (simp add: bufio_Write.simps [of p b w] n_def [symmetric] Let_def)
      moreover from x(3) have "prefix x (bw_buf b @ p)"
        by (metis append.assoc append_take_drop_id prefix_prefix)
      ultimately show ?thesis
        using x False by (intro exI [of _ x]) auto
    qed
  next
    case fits
    with "1.prems" show ?thesis
      by (auto simp: bufio_Write.simps [of p b w] intro!: exI [of _ "[]"])
  qed
qed

lemma os_Sync_files:
  assumes "os_Sync path w = (ok, w')"
  shows "file_data w' q = file_data w q"
    and "ok \<Longrightarrow> file_synced w' path = map_option length (file_data w path)"
    and "q \<noteq> path \<Longrightarrow> map_of (w_files w') q = map_of (w_files w) q"
    and "\<not> ok \<Longrightarrow> file_synced w' q = file_synced w q"
  using assms
  by (auto simp: next_outcome_files os_Sync_def file_data_def file_synced_def set_file_def update_conv'
      split: prod.splits outcome.splits option.splits)

lemma os_Close_files: "os_Close path w = (ok, w') \<Longrightarrow> w_files w' = w_files w"
  by (auto simp: next_outcome_files os_Close_def split: prod.splits outcome.splits)

lemma os_OpenAppend_files:
  assumes "os_OpenAppend path w = (ok, w')"
  shows "q \<noteq> path \<Longrightarrow> map_of (w_files w') q = map_of (w_files w) q"
    and "map_of (w_files w) path = Some d \<Longrightarrow> map_of (w_files w') path = Some d"
    and "ok \<Longrightarrow> map_of (w_files w) path = None \<Longrightarrow> map_of (w_files w') path = Some \<lparr>fd_data = [], fd_synced = 0\<rparr>"
  using assms
  by (auto simp: next_outcome_files os_OpenAppend_def set_file_def update_conv'
      split: prod.splits outcome.splits option.splits)

lemma os_Remove_files:
  assumes "os_Remove path w = (ok, w')"
  shows "q \<noteq> path \<Longrightarrow> map_of (w_files w') q = map_of (w_files w) q"
    and "w_faults w 0 = Ok \<or> map_of (w_files w) path = None \<Longrightarrow> map_of (w_files w') path = None"
  using assms
  by (auto simp: os_Remove_def next_outcome_def delete_conv'
      split: prod.splits outcome.splits)

lemma os_Rename_files:
  assumes "os_Rename old new w = (ok, w')" "old \<noteq> new"
  shows "ok \<Longrightarrow> map_of (w_files w') new = map_of (w_files w) old"
    and "\<not> ok \<Longrightarrow> map_of (w_files w') q = map_of (w_files w) q"
    and "q \<noteq> old \<Longrightarrow> q \<noteq> new \<Longrightarrow> map_of (w_files w') q = map_of (w_files w) q"
  using assms
  by (auto simp: next_outcome_def os_Rename_def update_conv' delete_conv'
      split: prod.splits outcome.splits option.splits)

lemma faultless_calls [simp]:
  assumes "w_faults w = (\<lambda>_. Ok)"
  shows "next_outcome w = (Ok, w)"
    and "os_Truncate p n w = (True, case map_of (w_files w) p of None \<Rightarrow> w
      | Some d \<Rightarrow> set_file p (d\<lparr>fd_data := take n (fd_data d), fd_synced := min n (fd_synced d)\<rparr>) w)"
proof -
  show *: "next_outcome w = (Ok, w)" using assms by (cases w) (simp add: next_outcome_def)
  show "os_Truncate p n w = (True, case map_of (w_files w) p of None \<Rightarrow> w
      | Some d \<Rightarrow> set_file p (d\<lparr>fd_data := take n (fd_data d), fd_synced := min n (fd_synced d)\<rparr>) w)"
    by (simp add: os_Truncate_def *)
qed

lemma os_read_files:
  "os_Open p w = (r1, w1) \<Longrightarrow> w_files w1 = w_files w"
  "os_Stat p w = (r2, w2) \<Longrightarrow> w_files w2 = w_files w"
  "os_ReadAt p n off w = (r3, w3) \<Longrightarrow> w_files w3 = w_files w"
  "os_ReadFile p w = (r4, w4) \<Longrightarrow> w_files w4 = w_files w"
  "os_ReadDir w = (r5, w5) \<Longrightarrow> w_files w5 = w_files w"
  by (auto simp: next_outcome_def os_Open_def os_Stat_def os_ReadAt_def os_ReadFile_def os_ReadDir_def
      split: outcome.splits option.splits)

lemma faultless_reads [simp]:
  assumes "w_faults w = (\<lambda>_. Ok)"
  shows "os_Open p w = (map_of (w_files w) p \<noteq> None, w)"
    and "os_Stat p w = (map_option length (file_data w p), w)"
    and "os_ReadAt p n off w = (case file_data w p of None \<Rightarrow> None
      | Some d \<Rightarrow> if 0 \<le> off \<and> nat off + n \<le> length d then Some (take n (drop (nat off) d)) else None, w)"
    and "os_ReadFile p w = (case file_data w p of None \<Rightarrow> FileMissing | Some d \<Rightarrow> FileContents d, w)"
    and "os_ReadDir w = (Some (remdups (map fst (w_files w))), w)"
    and "os_Close p w = (True, w)"
  using faultless_calls(1) [OF assms]
  by (simp_all add: os_Open_def os_Stat_def os_ReadAt_def os_ReadFile_def os_ReadDir_def os_Close_def split: option.split)

end
