(* ===== verification/Wal_Replay.thy ===== *)
theory Wal_Replay
  imports Wal_Record Os_Files
begin

text \<open>
  Recovery of a write-ahead log (\<open>src/wal/replay.go\<close>): read records until the clean end of
  the file or the first malformed one, and cut a malformed tail off the file.
\<close>

section \<open>The source of a replay\<close>

text \<open>
  \<open>replaySource\<close> is a reader with a \<open>Truncate\<close> method: the bytes not yet read, the point (if
  any) at which the device reports an error, and whether \<open>Truncate\<close> succeeds.
\<close>

record replaySource =
  rs_data :: bytes
  rs_fault :: "nat option"
  rs_trunc_ok :: bool

record RecoveryStats =
  RecordsRecovered :: nat
  TornWriteTruncated :: bool
  BytesTruncated :: int

datatype read_result = ReadOk bytes | ReadEOF | ReadUnexpectedEOF nat | ReadErr nat

text \<open>\<open>io.ReadFull\<close>: all \<open>k\<close> bytes, or the reason why there are fewer.\<close>

definition io_ReadFull :: "nat \<Rightarrow> replaySource \<Rightarrow> read_result \<times> replaySource" where
  "io_ReadFull k s =
     (case rs_fault s of
        Some p \<Rightarrow>
          if p < k \<and> p \<le> length (rs_data s)
          then (ReadErr p, s\<lparr>rs_data := drop p (rs_data s), rs_fault := Some 0\<rparr>)
          else if k \<le> length (rs_data s)
          then (ReadOk (take k (rs_data s)), s\<lparr>rs_data := drop k (rs_data s), rs_fault := Some (p - k)\<rparr>)
          else if rs_data s = [] then (ReadEOF, s)
          else (ReadUnexpectedEOF (length (rs_data s)), s\<lparr>rs_data := []\<rparr>)
      | None \<Rightarrow>
          if k \<le> length (rs_data s)
          then (ReadOk (take k (rs_data s)), s\<lparr>rs_data := drop k (rs_data s)\<rparr>)
          else if rs_data s = [] then (ReadEOF, s)
          else (ReadUnexpectedEOF (length (rs_data s)), s\<lparr>rs_data := []\<rparr>))"

lemma io_ReadFull_ok:
  "io_ReadFull k s = (ReadOk bs, s') \<Longrightarrow>
     k \<le> length (rs_data s) \<and> bs = take k (rs_data s) \<and> rs_data s' = drop k (rs_data s)
     \<and> rs_trunc_ok s' = rs_trunc_ok s"
  by (auto simp: io_ReadFull_def split: option.splits if_splits)

section \<open>The replay loop\<close>

text \<open>
  The result of a replay is an error, or the records and the statistics; the second component
  is the size the file was truncated to, if it was.
\<close>

type_synonym replay_out = "(wal_error + Record list \<times> RecoveryStats) \<times> nat option"

definition truncateAndReturn :: "replaySource \<Rightarrow> Record list \<Rightarrow> nat \<Rightarrow> int \<Rightarrow> replay_out" where
  "truncateAndReturn f records validOffset fileSize =
     (let truncated = fileSize - int validOffset
      in if \<not> rs_trunc_ok f then (Inl ErrTruncate, None)
         else (Inr (records, \<lparr>RecordsRecovered = length records,
                              TornWriteTruncated = 0 < truncated,
                              BytesTruncated = truncated\<rparr>),
               Some validOffset))"

function replay_loop :: "replaySource \<Rightarrow> int \<Rightarrow> nat \<Rightarrow> Record list \<Rightarrow> replay_out" where
  "replay_loop f fileSize offset records =
     (case io_ReadFull headerSize f of
        (ReadEOF, f1) \<Rightarrow>
          (Inr (records, \<lparr>RecordsRecovered = length records,
                          TornWriteTruncated = False, BytesTruncated = 0\<rparr>), None)
      | (ReadUnexpectedEOF n, f1) \<Rightarrow> truncateAndReturn f1 records offset fileSize
      | (ReadErr n, f1) \<Rightarrow>
          if 0 < n \<and> n < headerSize then truncateAndReturn f1 records offset fileSize
          else (Inl (ErrReadHeader offset), None)
      | (ReadOk header, f1) \<Rightarrow>
          let crc = Uint32 header; len = Uint32 (drop 4 header);
              remaining = fileSize - int offset - int headerSize
          in if remaining < int (unat len) then truncateAndReturn f1 records offset fileSize
             else
               (case io_ReadFull (unat len) f1 of
                 (ReadOk payload, f2) \<Rightarrow>
                   if crc32_Checksum payload \<noteq> crc
                   then truncateAndReturn f2 records offset fileSize
                   else (case decodePayload payload of
                           Inl _ \<Rightarrow> truncateAndReturn f2 records offset fileSize
                         | Inr rec \<Rightarrow>
                             replay_loop f2 fileSize (offset + headerSize + unat len)
                               (records @ [rec]))
               | (_, f2) \<Rightarrow> truncateAndReturn f2 records offset fileSize))"
  by pat_completeness auto
termination
  by (relation "measure (\<lambda>(f, fileSize, offset, records). length (rs_data f))")
    (auto simp: headerSize_def dest!: io_ReadFull_ok [OF sym])

declare replay_loop.simps [simp del]

definition replayFrom :: "replaySource \<Rightarrow> int \<Rightarrow> replay_out" where
  "replayFrom f fileSize = replay_loop f fileSize 0 []"

text \<open>
  \<open>Replay\<close> on a file of the directory: a missing file is an empty log; otherwise open, stat,
  read, and truncate where the loop asks for it.
\<close>

definition Replay :: "string \<Rightarrow> world \<Rightarrow> (wal_error + Record list \<times> RecoveryStats) \<times> world" where
  "Replay path w =
     (case next_outcome w of
        (Fail _, w1) \<Rightarrow> (Inl ErrOpen, w1)
      | (Ok, w1) \<Rightarrow>
          (case file_data w1 path of
            None \<Rightarrow> (Inr ([], \<lparr>RecordsRecovered = 0, TornWriteTruncated = False,
                              BytesTruncated = 0\<rparr>), w1)
          | Some content \<Rightarrow>
              (case next_outcome w1 of
                (Fail _, w2) \<Rightarrow> (Inl ErrStat, w2)
              | (Ok, w2) \<Rightarrow>
                  let (rd, w3) = next_outcome w2;
                      (trunc_ok, w4) = os_Truncate path (length content) w3;
                      src = \<lparr>rs_data = content,
                             rs_fault = (case rd of Ok \<Rightarrow> None | Fail k \<Rightarrow> Some k),
                             rs_trunc_ok = trunc_ok\<rparr>
                  in case replayFrom src (int (length content)) of
                       (res, None) \<Rightarrow> (res, w3)
                     | (res, Some n) \<Rightarrow> (res, snd (os_Truncate path n w3)))))"

section \<open>Recovery of well-formed logs\<close>

definition plain_source :: "bytes \<Rightarrow> replaySource" where
  "plain_source bs = \<lparr>rs_data = bs, rs_fault = None, rs_trunc_ok = True\<rparr>"

lemma ReadFull_plain:
  "io_ReadFull k (plain_source bs) =
     (if k \<le> length bs then (ReadOk (take k bs), plain_source (drop k bs))
      else if bs = [] then (ReadEOF, plain_source [])
      else (ReadUnexpectedEOF (length bs), plain_source []))"
  by (simp add: io_ReadFull_def plain_source_def)

lemma truncateAndReturn_plain:
  "truncateAndReturn (plain_source bs) records n sz =
     (Inr (records, \<lparr>RecordsRecovered = length records, TornWriteTruncated = 0 < sz - int n,
        BytesTruncated = sz - int n\<rparr>), Some n)"
  by (simp add: truncateAndReturn_def plain_source_def)

lemma Uint32_take_header: "Uint32 (take headerSize bs) = Uint32 bs"
  "Uint32 (drop 4 (take headerSize bs)) = Uint32 (drop 4 bs)"
  by (rule Uint32_cong_take, simp add: headerSize_def min_def)
    (rule Uint32_cong_take, simp add: headerSize_def min_def drop_take)

text \<open>One round of the loop over a source without device errors.\<close>

lemma replay_loop_plain:
  "replay_loop (plain_source bs) sz offset acc =
     (if bs = [] then
        (Inr (acc, \<lparr>RecordsRecovered = length acc, TornWriteTruncated = False,
           BytesTruncated = 0\<rparr>), None)
      else
        let len = unat (Uint32 (drop 4 bs)); payload = take len (drop headerSize bs);
            torn = (Inr (acc, \<lparr>RecordsRecovered = length acc,
              TornWriteTruncated = 0 < sz - int offset, BytesTruncated = sz - int offset\<rparr>),
              Some offset)
        in if length bs < headerSize \<or> sz - int offset - int headerSize < int len
              \<or> length bs < headerSize + len \<or> crc32_Checksum payload \<noteq> Uint32 bs
           then torn
           else (case decodePayload payload of
                   Inl _ \<Rightarrow> torn
                 | Inr rec \<Rightarrow> replay_loop (plain_source (drop len (drop headerSize bs))) sz
                     (offset + headerSize + len) (acc @ [rec])))"
proof -
  define len where "len = unat (Uint32 (drop 4 bs))"
  consider (eof) "bs = []" | (short) "bs \<noteq> []" "length bs < headerSize"
    | (header) "bs \<noteq> []" "headerSize \<le> length bs" by fastforce
  then show ?thesis
  proof cases
    case eof
    then show ?thesis by (subst replay_loop.simps) (simp add: ReadFull_plain headerSize_def)
  next
    case short
    then show ?thesis
      by (subst replay_loop.simps) (simp add: ReadFull_plain truncateAndReturn_plain)
  next
    case header
    have "length bs < headerSize + len \<longleftrightarrow> \<not> len \<le> length (drop headerSize bs)"
      using header by auto
    with header show ?thesis
      by (subst replay_loop.simps)
        (simp add: ReadFull_plain truncateAndReturn_plain Uint32_take_header
          len_def [symmetric] Let_def del: of_nat_unat split: sum.split)
  qed
qed

lemma encode_nonempty [simp]: "encode r \<noteq> []"
  by (simp flip: length_0_conv add: headerSize_def)

lemma encode_header:
  assumes "encodable r"
  shows "Uint32 (encode r @ bs) = crc32_Checksum (encode_payload r)"
    and "unat (Uint32 (drop 4 (encode r @ bs))) = length (encode_payload r)"
    and "drop headerSize (encode r @ bs) = encode_payload r @ bs"
proof -
  have "unat (word_of_nat (length (encode_payload r)) :: uint32) = length (encode_payload r)"
    using assms by (intro unat_of_nat_small) (simp add: encodable_def)
  then show "unat (Uint32 (drop 4 (encode r @ bs))) = length (encode_payload r)"
    by (simp add: encode_def Let_def del: length_encode_payload)
qed (simp_all add: encode_def Let_def headerSize_def)

lemma replay_loop_record:
  assumes "encodable r" and "sz = int (offset + length (encode r @ bs))"
  shows "replay_loop (plain_source (encode r @ bs)) sz offset acc =
    replay_loop (plain_source bs) sz (offset + length (encode r)) (acc @ [r])"
proof -
  have ne: "encode r @ bs \<noteq> []" by simp
  have len: "length (encode r @ bs) = headerSize + length (encode_payload r) + length bs"
    "length (encode r) = headerSize + length (encode_payload r)"
    by simp_all
  show ?thesis
    by (subst replay_loop_plain)
      (simp only: ne encode_header [OF assms(1)] Let_def len assms(2) take_append_exact
        drop_append_exact decodePayload_encode_payload [OF assms(1)], simp add: add.assoc)
qed

lemma replay_loop_records:
  assumes "\<forall>r \<in> set recs. encodable r"
    and "sz = int (offset + length (concat (map encode recs) @ tail))"
  shows "replay_loop (plain_source (concat (map encode recs) @ tail)) sz offset acc =
    replay_loop (plain_source tail) sz (offset + length (concat (map encode recs))) (acc @ recs)"
  using assms
proof (induction recs arbitrary: offset acc)
  case Nil
  then show ?case by simp
next
  case (Cons r recs)
  have "replay_loop (plain_source (encode r @ (concat (map encode recs) @ tail))) sz offset acc =
      replay_loop (plain_source (concat (map encode recs) @ tail)) sz
        (offset + length (encode r)) (acc @ [r])"
    using Cons.prems by (intro replay_loop_record) auto
  also have "\<dots> = replay_loop (plain_source tail) sz
      (offset + length (encode r) + length (concat (map encode recs))) ((acc @ [r]) @ recs)"
    using Cons.prems by (intro Cons.IH) (auto simp: add.assoc)
  finally show ?case by (simp add: add.assoc)
qed

text \<open>A proper prefix of one more record is always recognised as torn.\<close>

lemma replay_loop_torn:
  assumes "encodable r" and "k < length (encode r)" and "sz = int (offset + k)"
  shows "replay_loop (plain_source (take k (encode r))) sz offset acc =
    (Inr (acc, \<lparr>RecordsRecovered = length acc, TornWriteTruncated = 0 < k,
       BytesTruncated = int k\<rparr>), if k = 0 then None else Some offset)"
proof (cases "k < headerSize")
  case True
  with assms show ?thesis
    by (subst replay_loop_plain) (auto simp: Let_def)
next
  case False
  have "take 4 (drop 4 (take k (encode r))) = take 4 (drop 4 (encode r))"
    using False by (simp add: headerSize_def drop_take min_def)
  then have "Uint32 (drop 4 (take k (encode r))) = Uint32 (drop 4 (encode r @ []))"
    by (intro Uint32_cong_take) simp
  then have "unat (Uint32 (drop 4 (take k (encode r)))) = length (encode_payload r)"
    using encode_header(2) [OF assms(1), of "[]"] by simp
  with False assms show ?thesis
    by (subst replay_loop_plain) (auto simp: Let_def headerSize_def)
qed

lemma replayFrom_torn_tail:
  assumes "\<forall>r \<in> set recs. encodable r" "encodable r" "k < length (encode r)"
    and "bs = concat (map encode recs) @ take k (encode r)"
  shows "replayFrom (plain_source bs) (int (length bs)) =
    (Inr (recs, \<lparr>RecordsRecovered = length recs, TornWriteTruncated = 0 < k,
       BytesTruncated = int k\<rparr>),
     if k = 0 then None else Some (length (concat (map encode recs))))"
proof -
  have "replayFrom (plain_source bs) (int (length bs)) =
      replay_loop (plain_source (take k (encode r))) (int (length bs))
        (length (concat (map encode recs))) recs"
    using assms replay_loop_records [of recs "int (length bs)" 0 "take k (encode r)" "[]"]
    by (simp add: replayFrom_def)
  also have "\<dots> = (Inr (recs, \<lparr>RecordsRecovered = length recs, TornWriteTruncated = 0 < k,
       BytesTruncated = int k\<rparr>),
     if k = 0 then None else Some (length (concat (map encode recs))))"
    using assms by (intro replay_loop_torn) (auto simp del: length_encode)
  finally show ?thesis .
qed

lemma replayFrom_complete:
  assumes "\<forall>r \<in> set recs. encodable r" and "bs = concat (map encode recs)"
  shows "replayFrom (plain_source bs) (int (length bs)) =
    (Inr (recs, \<lparr>RecordsRecovered = length recs, TornWriteTruncated = False,
       BytesTruncated = 0\<rparr>), None)"
  using assms replay_loop_records [of recs "int (length bs)" 0 "[]" "[]"]
  by (simp add: replayFrom_def replay_loop_plain [of "[]"])

section \<open>Recovery of arbitrary files\<close>

definition clean_stats :: "Record list \<Rightarrow> RecoveryStats" where
  "clean_stats recs = \<lparr>RecordsRecovered = length recs, TornWriteTruncated = False,
     BytesTruncated = 0\<rparr>"

text \<open>
  Whatever the file holds, the loop keeps a prefix of it that a second run reads back
  unchanged: \<open>n\<close> is the length of that prefix.
\<close>

lemma replay_loop_prefix:
  "\<exists>recs n st t. n \<le> length bs \<and> RecordsRecovered st = length (acc @ recs)
     \<and> replay_loop (plain_source bs) (int (offset + length bs)) offset acc = (Inr (acc @ recs, st), t)
     \<and> t = (if n = length bs then None else Some (offset + n))
     \<and> (\<forall>acc' off'. replay_loop (plain_source (take n bs)) (int (off' + n)) off' acc'
          = (Inr (acc' @ recs, clean_stats (acc' @ recs)), None))"
proof (induction bs arbitrary: offset acc rule: length_induct)
  case (1 bs)
  define len where "len = unat (Uint32 (drop 4 bs))"
  define payload where "payload = take len (drop headerSize bs)"
  define torn where "torn \<longleftrightarrow> length bs < headerSize
    \<or> length bs < headerSize + len \<or> crc32_Checksum payload \<noteq> Uint32 bs"
  note step = replay_loop_plain [of bs "int (offset + length bs)" offset acc,
      folded len_def payload_def, unfolded Let_def, folded len_def payload_def]
  have empty: "replay_loop (plain_source []) sz off acc' =
      (Inr (acc', clean_stats acc'), None)" for sz off acc'
    by (simp add: replay_loop_plain [of "[]"] clean_stats_def)
  consider (eof) "bs = []" | (bad) "bs \<noteq> []" "torn \<or> (\<exists>e. decodePayload payload = Inl e)"
    | (good) rec where "bs \<noteq> []" "\<not> torn" "decodePayload payload = Inr rec"
    by (metis sum.exhaust)
  then show ?case
  proof cases
    case eof
    then show ?thesis
      by (intro exI [of _ "[]"] exI [of _ 0] exI [of _ "clean_stats acc"] exI [of _ None])
        (simp add: empty, simp add: clean_stats_def)
  next
    case bad
    let ?st = "\<lparr>RecordsRecovered = length acc, TornWriteTruncated = True,
      BytesTruncated = int (length bs)\<rparr>"
    have "replay_loop (plain_source bs) (int (offset + length bs)) offset acc =
        (Inr (acc, ?st), Some offset)"
      using bad by (subst step) (auto simp: torn_def)
    with bad show ?thesis
      by (intro exI [of _ "[]"] exI [of _ 0] exI [of _ ?st] exI [of _ "Some offset"])
        (simp add: empty)
  next
    case good
    let ?rest = "drop len (drop headerSize bs)"
    have nt: "headerSize \<le> length bs" "headerSize + len \<le> length bs"
      "crc32_Checksum payload = Uint32 bs" using good(2) by (auto simp: torn_def)
    then have lt: "length ?rest < length bs" by (simp add: headerSize_def)
    have eq: "offset + length bs = (offset + headerSize + len) + length ?rest"
      using nt by simp
    from 1 [rule_format, OF lt, of "acc @ [rec]" "offset + headerSize + len"] obtain recs n st t
      where IH: "n \<le> length ?rest" "RecordsRecovered st = length ((acc @ [rec]) @ recs)"
        "replay_loop (plain_source ?rest) (int (offset + length bs)) (offset + headerSize + len)
          (acc @ [rec]) = (Inr ((acc @ [rec]) @ recs, st), t)"
        "t = (if n = length ?rest then None else Some (offset + headerSize + len + n))"
        "\<forall>acc' off'. replay_loop (plain_source (take n ?rest)) (int (off' + n)) off' acc'
          = (Inr (acc' @ recs, clean_stats (acc' @ recs)), None)"
      unfolding eq by blast
    let ?n = "headerSize + len + n"
    have loop: "replay_loop (plain_source bs) (int (offset + length bs)) offset acc =
        (Inr ((acc @ [rec]) @ recs, st), t)"
      using good nt IH(3) by (subst step) simp
    have pre: "take ?n bs \<noteq> []" "length (take ?n bs) = ?n"
      "Uint32 (take ?n bs) = Uint32 bs" "Uint32 (drop 4 (take ?n bs)) = Uint32 (drop 4 bs)"
      "drop headerSize (take ?n bs) = payload @ take n ?rest" "length payload = len"
    proof -
      show "length (take ?n bs) = ?n" using nt IH(1) by simp
      then show "take ?n bs \<noteq> []" by (metis headerSize_def add_is_0 list.size(3) zero_neq_numeral)
      show "Uint32 (take ?n bs) = Uint32 bs" "Uint32 (drop 4 (take ?n bs)) = Uint32 (drop 4 bs)"
        by (rule Uint32_cong_take, simp add: headerSize_def drop_take min_def)+
      have "drop headerSize (take ?n bs) = take (len + n) (drop headerSize bs)"
        by (simp add: drop_take add.assoc)
      then show "drop headerSize (take ?n bs) = payload @ take n ?rest"
        by (simp only: take_add payload_def)
      show "length payload = len" using nt by (simp add: payload_def)
    qed
    have again: "replay_loop (plain_source (take ?n bs)) (int (off' + ?n)) off' acc' =
        (Inr (acc' @ rec # recs, clean_stats (acc' @ rec # recs)), None)" for off' acc'
    proof -
      have "replay_loop (plain_source (take ?n bs)) (int (off' + ?n)) off' acc' =
          replay_loop (plain_source (take n ?rest)) (int (off' + ?n)) (off' + headerSize + len)
            (acc' @ [rec])"
        using pre nt good(3) headerSize_pos
        by (subst replay_loop_plain) (simp add: len_def [symmetric] Let_def)
      also have "\<dots> = (Inr ((acc' @ [rec]) @ recs, clean_stats ((acc' @ [rec]) @ recs)), None)"
        using IH(5) [rule_format, of "off' + headerSize + len" "acc' @ [rec]"]
        by (simp only: add.assoc)
      finally show ?thesis by simp
    qed
    show ?thesis
      using loop again IH(1,2,4) nt
      by (intro exI [of _ "rec # recs"] exI [of _ ?n] exI [of _ st] exI [of _ t]) auto
  qed
qed

lemma replayFrom_prefix:
  obtains recs n st t where "n \<le> length bs" "RecordsRecovered st = length recs"
    "replayFrom (plain_source bs) (int (length bs)) = (Inr (recs, st), t)"
    "t = (if n = length bs then None else Some n)"
    "replayFrom (plain_source (take n bs)) (int n) = (Inr (recs, clean_stats recs), None)"
proof -
  obtain recs n st t where r: "n \<le> length bs" "RecordsRecovered st = length ([] @ recs)"
    "replay_loop (plain_source bs) (int (0 + length bs)) 0 [] = (Inr ([] @ recs, st), t)"
    "t = (if n = length bs then None else Some (0 + n))"
    and again: "\<forall>acc' off'. replay_loop (plain_source (take n bs)) (int (off' + n)) off' acc'
      = (Inr (acc' @ recs, clean_stats (acc' @ recs)), None)"
    using replay_loop_prefix [of bs "[]" 0] by blast
  from again [rule_format, of 0 "[]"] r show thesis
    by (intro that [of n st recs t]) (simp_all add: replayFrom_def)
qed

section \<open>Replay of a file on a working disk\<close>

lemma Replay_faultless:
  assumes "w_faults w = (\<lambda>_. Ok)" "file_data w path = Some bs"
    and "replayFrom (plain_source bs) (int (length bs)) = (res, t)"
  shows "Replay path w = (res, case t of None \<Rightarrow> w | Some n \<Rightarrow> snd (os_Truncate path n w))"
proof -
  obtain d where "map_of (w_files w) path = Some d" "fd_data d = bs"
    using assms(2) by (auto simp: file_data_def)
  then show ?thesis
    using assms(3) unfolding plain_source_def
    by (simp add: Replay_def assms(1,2) split: option.split)
qed

lemma Replay_working_disk:
  assumes "w_faults w = (\<lambda>_. Ok)" "file_data w path = Some bs"
    and "replayFrom (plain_source bs) (int (length bs)) = (res, t)"
  shows "fst (Replay path w) = res"
    and "file_data (snd (Replay path w)) path = Some (case t of None \<Rightarrow> bs | Some n \<Rightarrow> take n bs)"
    and "w_faults (snd (Replay path w)) = (\<lambda>_. Ok)"
    and "file_synced w path = Some (length bs) \<Longrightarrow>
      file_synced (snd (Replay path w)) path = map_option length (file_data (snd (Replay path w)) path)"
  using assms
  by (auto simp: Replay_faultless [OF assms] file_data_def file_synced_def set_file_def update_conv' min.commute
      split: option.split)

text \<open>
  C21. Replaying a log is idempotent, whatever the file holds: \<open>Replay\<close> returns records and
  statistics without an error, the file keeps the prefix that holds them, and a second \<open>Replay\<close>
  returns the same records, truncates nothing and leaves the file as it is.
\<close>

theorem replay_idempotent:
  assumes "w_faults w = (\<lambda>_. Ok)" and "file_data w path = Some bs"
  shows "\<exists>recs st w' n. Replay path w = (Inr (recs, st), w')
    \<and> RecordsRecovered st = length recs \<and> file_data w' path = Some (take n bs)
    \<and> (\<exists>w''. Replay path (w'\<lparr>w_faults := (\<lambda>_. Ok)\<rparr>) = (Inr (recs, clean_stats recs), w'')
         \<and> file_data w'' path = Some (take n bs))"
proof -
  obtain recs n st t where n: "n \<le> length bs" "RecordsRecovered st = length recs"
    "replayFrom (plain_source bs) (int (length bs)) = (Inr (recs, st), t)"
    "t = (if n = length bs then None else Some n)"
    "replayFrom (plain_source (take n bs)) (int n) = (Inr (recs, clean_stats recs), None)"
    by (rule replayFrom_prefix)
  obtain res w' where r: "Replay path w = (res, w')" by fastforce
  have w': "res = Inr (recs, st)" "file_data w' path = Some (take n bs)"
    using Replay_working_disk [OF assms n(3)] r n(4) by (auto split: option.splits)
  let ?w = "w'\<lparr>w_faults := (\<lambda>_. Ok)\<rparr>"
  have "file_data ?w path = Some (take n bs)" using w' by (simp add: file_data_def)
  from Replay_working_disk [OF _ this, of "Inr (recs, clean_stats recs)" None] n
  have "fst (Replay path ?w) = Inr (recs, clean_stats recs)"
    "file_data (snd (Replay path ?w)) path = Some (take n bs)"
    by (simp_all add: min_absorb2)
  with r w' n(2) show ?thesis by (metis prod.collapse)
qed

theorem replay_idempotent_witness:
  "\<exists>recs st w' n. Replay ''a'' \<lparr>w_files = [(''a'', \<lparr>fd_data = [7, 7, 7], fd_synced = 0\<rparr>)],
      w_faults = (\<lambda>_. Ok)\<rparr> = (Inr (recs, st), w')
    \<and> RecordsRecovered st = length recs \<and> file_data w' ''a'' = Some (take n [7, 7, 7])
    \<and> (\<exists>w''. Replay ''a'' (w'\<lparr>w_faults := (\<lambda>_. Ok)\<rparr>) = (Inr (recs, clean_stats recs), w'')
         \<and> file_data w'' ''a'' = Some (take n [7, 7, 7]))"
  by (rule replay_idempotent) (simp_all add: file_data_def)

end
