(* ===== verification/Wal_Log.thy ===== *)
theory Wal_Log
  imports Wal_Replay
begin

text \<open>
  The write-ahead log handle (\<open>src/wal/wal.go\<close>): a buffered writer over one file, flushed and
  synced once per batch.
\<close>

section \<open>The log and its operations\<close>

record WAL =
  wal_writer :: bufio
  wal_syncOnWrite :: bool
  wal_closed :: bool
  wal_lastSeq :: uint64

definition Path :: "WAL \<Rightarrow> string" where
  "Path l = bw_path (wal_writer l)"

definition Open_log :: "string \<Rightarrow> bool \<Rightarrow> world \<Rightarrow> (wal_error + WAL) \<times> world" where
  "Open_log path syncOnWrite w =
     (case os_OpenAppend path w of
        (False, w') \<Rightarrow> (Inl ErrOpen, w')
      | (True, w') \<Rightarrow>
          (Inr \<lparr>wal_writer = bufio_NewWriter path, wal_syncOnWrite = syncOnWrite,
                wal_closed = False, wal_lastSeq = 0\<rparr>, w'))"

fun append_records :: "Record list \<Rightarrow> WAL \<Rightarrow> world \<Rightarrow> bool \<times> WAL \<times> world" where
  "append_records [] l w = (True, l, w)"
| "append_records (rec # recs) l w =
     (case bufio_Write (encode rec) (wal_writer l) w of
        (False, b, w') \<Rightarrow> (False, l\<lparr>wal_writer := b\<rparr>, w')
      | (True, b, w') \<Rightarrow>
          append_records recs
            (l\<lparr>wal_writer := b,
               wal_lastSeq := (if wal_lastSeq l < rec_SeqNum rec then rec_SeqNum rec
                               else wal_lastSeq l)\<rparr>) w')"

definition AppendBatch :: "Record list \<Rightarrow> WAL \<Rightarrow> world \<Rightarrow> (wal_error + unit) \<times> WAL \<times> world" where
  "AppendBatch recs l w =
     (if recs = [] then (Inr (), l, w)
      else if wal_closed l then (Inl ErrClosed, l, w)
      else case append_records recs l w of
          (False, l1, w1) \<Rightarrow> (Inl ErrWrite, l1, w1)
        | (True, l1, w1) \<Rightarrow>
            (case bufio_Flush (wal_writer l1) w1 of
               (False, b, w2) \<Rightarrow> (Inl ErrFlush, l1\<lparr>wal_writer := b\<rparr>, w2)
             | (True, b, w2) \<Rightarrow>
                 if wal_syncOnWrite l1 then
                   (case os_Sync (bw_path b) w2 of
                      (False, w3) \<Rightarrow> (Inl ErrFsync, l1\<lparr>wal_writer := b\<rparr>, w3)
                    | (True, w3) \<Rightarrow> (Inr (), l1\<lparr>wal_writer := b\<rparr>, w3))
                 else (Inr (), l1\<lparr>wal_writer := b\<rparr>, w2)))"

definition Append :: "Record \<Rightarrow> WAL \<Rightarrow> world \<Rightarrow> (wal_error + unit) \<times> WAL \<times> world" where
  "Append rec l w = AppendBatch [rec] l w"

definition Sync :: "WAL \<Rightarrow> world \<Rightarrow> (wal_error + unit) \<times> WAL \<times> world" where
  "Sync l w =
     (if wal_closed l then (Inr (), l, w)
      else case bufio_Flush (wal_writer l) w of
          (False, b, w1) \<Rightarrow> (Inl ErrFlush, l\<lparr>wal_writer := b\<rparr>, w1)
        | (True, b, w1) \<Rightarrow>
            (case os_Sync (bw_path b) w1 of
               (False, w2) \<Rightarrow> (Inl ErrFsync, l\<lparr>wal_writer := b\<rparr>, w2)
             | (True, w2) \<Rightarrow> (Inr (), l\<lparr>wal_writer := b\<rparr>, w2)))"

definition LastSeq :: "WAL \<Rightarrow> uint64" where
  "LastSeq l = wal_lastSeq l"

definition Close_log :: "WAL \<Rightarrow> world \<Rightarrow> (wal_error + unit) \<times> WAL \<times> world" where
  "Close_log l w =
     (if wal_closed l then (Inr (), l, w)
      else
        let l0 = l\<lparr>wal_closed := True\<rparr>
        in case bufio_Flush (wal_writer l0) w of
             (False, b, w1) \<Rightarrow>
               (Inl ErrFlush, l0\<lparr>wal_writer := b\<rparr>, snd (os_Close (bw_path b) w1))
           | (True, b, w1) \<Rightarrow>
               (case os_Sync (bw_path b) w1 of
                  (False, w2) \<Rightarrow>
                    (Inl ErrFsync, l0\<lparr>wal_writer := b\<rparr>, snd (os_Close (bw_path b) w2))
                | (True, w2) \<Rightarrow>
                    (case os_Close (bw_path b) w2 of
                       (False, w3) \<Rightarrow> (Inl ErrClose, l0\<lparr>wal_writer := b\<rparr>, w3)
                     | (True, w3) \<Rightarrow> (Inr (), l0\<lparr>wal_writer := b\<rparr>, w3))))"

section \<open>What a batch leaves on disk\<close>

text \<open>Between calls that succeed nothing stays in the buffer.\<close>

definition clean_log :: "WAL \<Rightarrow> bool" where
  "clean_log l \<longleftrightarrow> bw_buf (wal_writer l) = [] \<and> \<not> bw_err (wal_writer l)"

lemma append_records_extends:
  assumes "append_records recs l w = (ok, l', w')"
  shows "\<exists>x. extends (Path l) x w w' \<and> Path l' = Path l
    \<and> wal_syncOnWrite l' = wal_syncOnWrite l \<and> wal_closed l' = wal_closed l
    \<and> prefix x (bw_buf (wal_writer l) @ concat (map encode recs))
    \<and> (ok \<longrightarrow> x @ bw_buf (wal_writer l') = bw_buf (wal_writer l) @ concat (map encode recs))"
  using assms
proof (induction recs l w rule: append_records.induct)
  case (1 l w)
  then show ?case by (auto intro!: exI [of _ "[]"])
next
  case (2 rec recs l w)
  obtain k b w1 where wr: "bufio_Write (encode rec) (wal_writer l) w = (k, b, w1)"
    by (metis prod_cases3)
  from bufio_Write_extends [OF wr] obtain x where x: "extends (Path l) x w w1"
    "bw_path b = Path l" "prefix x (bw_buf (wal_writer l) @ encode rec)"
    "k \<Longrightarrow> x @ bw_buf b = bw_buf (wal_writer l) @ encode rec"
    by (auto simp: Path_def)
  show ?case
  proof (cases k)
    case False
    with wr 2 x show ?thesis
      by (intro exI [of _ x]) (auto simp: Path_def prefix_prefix simp flip: append_assoc)
  next
    case True
    let ?l1 = "l\<lparr>wal_writer := b, wal_lastSeq := (if wal_lastSeq l < rec_SeqNum rec
      then rec_SeqNum rec else wal_lastSeq l)\<rparr>"
    from True wr "2.prems" have "append_records recs ?l1 w1 = (ok, l', w')" by simp
    from "2.IH" [OF wr [symmetric] _ _ this] True obtain y where y: "extends (Path ?l1) y w1 w'"
      "Path l' = Path ?l1" "wal_syncOnWrite l' = wal_syncOnWrite l" "wal_closed l' = wal_closed l"
      "prefix y (bw_buf b @ concat (map encode recs))"
      "ok \<Longrightarrow> y @ bw_buf (wal_writer l') = bw_buf b @ concat (map encode recs)"
      by auto
    have p: "Path ?l1 = Path l" using x(2) by (simp add: Path_def)
    have all: "bw_buf (wal_writer l) @ concat (map encode (rec # recs)) =
        x @ bw_buf b @ concat (map encode recs)"
      using x(4) [OF True] by (metis append_assoc concat.simps(2) list.simps(9))
    from x(1) y(1) p have "extends (Path l) (x @ y) w w'" by (simp add: extends_trans)
    with y p show ?thesis
      unfolding all by (intro exI [of _ "x @ y"]) auto
  qed
qed

lemma AppendBatch_extends:
  assumes "AppendBatch recs l w = (res, l', w')" and "clean_log l" and "\<not> wal_closed l"
  shows "\<exists>x. file_data w' (Path l) = map_option (\<lambda>d. d @ x) (file_data w (Path l))
    \<and> prefix x (concat (map encode recs)) \<and> Path l' = Path l
    \<and> (\<forall>q. q \<noteq> Path l \<longrightarrow> map_of (w_files w') q = map_of (w_files w) q)
    \<and> (file_synced w' (Path l) = file_synced w (Path l)
        \<or> file_synced w' (Path l) = map_option length (file_data w' (Path l)))
    \<and> (res = Inr () \<longrightarrow> x = concat (map encode recs) \<and> clean_log l')"
proof (cases "recs = []")
  case True
  with assms show ?thesis
    by (auto simp: AppendBatch_def option.map_ident intro!: exI [of _ "[]"])
next
  case False
  obtain k l1 w1 where ap: "append_records recs l w = (k, l1, w1)" by (metis prod_cases3)
  from append_records_extends [OF ap] assms(2) obtain x where x: "extends (Path l) x w w1"
    "Path l1 = Path l" "prefix x (concat (map encode recs))"
    "k \<Longrightarrow> x @ bw_buf (wal_writer l1) = concat (map encode recs)"
    by (auto simp: clean_log_def)
  show ?thesis
  proof (cases k)
    case False
    with x ap assms \<open>recs \<noteq> []\<close> show ?thesis
      by (intro exI [of _ x]) (auto simp: AppendBatch_def extends_def)
  next
    case True
    obtain k2 b w2 where fl: "bufio_Flush (wal_writer l1) w1 = (k2, b, w2)" by (metis prod_cases3)
    from bufio_Flush_extends [OF fl] obtain y where y: "extends (Path l) y w1 w2"
      "bw_path b = Path l" "prefix y (bw_buf (wal_writer l1))"
      "k2 \<Longrightarrow> y = bw_buf (wal_writer l1) \<and> bw_buf b = [] \<and> \<not> bw_err b"
      using x(2) by (auto simp: Path_def)
    have xy: "extends (Path l) (x @ y) w w2" using x(1) y(1) by (rule extends_trans)
    have pre: "prefix (x @ y) (concat (map encode recs))"
      using x(4) [OF True] y(3) by (metis same_prefix_prefix)
    obtain k3 w3 where sy: "os_Sync (bw_path b) w2 = (k3, w3)" by fastforce
    note s3 = os_Sync_files [OF sy]
    show ?thesis
      using assms \<open>recs \<noteq> []\<close> True ap fl sy xy pre x(4) [OF True] y s3
      by (intro exI [of _ "x @ y"])
        (auto simp: AppendBatch_def extends_def clean_log_def Path_def
          split: if_splits bool.splits)
  qed
qed

lemma AppendBatch_synced:
  assumes "AppendBatch recs l w = (Inr (), l', w')" and "wal_syncOnWrite l" and "recs \<noteq> []"
    and "clean_log l"
  shows "file_synced w' (Path l) = map_option length (file_data w' (Path l))"
proof -
  from assms(1,3) have "\<not> wal_closed l" by (auto simp: AppendBatch_def split: if_splits)
  obtain k l1 w1 where ap: "append_records recs l w = (k, l1, w1)" by (metis prod_cases3)
  from append_records_extends [OF ap] assms(2) have l1: "Path l1 = Path l" "wal_syncOnWrite l1"
    by auto
  obtain k2 b w2 where fl: "bufio_Flush (wal_writer l1) w1 = (k2, b, w2)" by (metis prod_cases3)
  from bufio_Flush_extends [OF fl] l1 have b: "bw_path b = Path l" by (auto simp: Path_def)
  obtain k3 w3 where sy: "os_Sync (Path l) w2 = (k3, w3)" by fastforce
  from assms(1,3) \<open>\<not> wal_closed l\<close> ap fl sy b l1 have "k3" "w' = w3"
    by (auto simp: AppendBatch_def split: if_splits bool.splits)
  with os_Sync_files(1,2) [OF sy] show ?thesis by simp
qed

section \<open>Crash safety of an append\<close>

lemma prefix_of_records:
  assumes "prefix x (concat (map encode recs))"
  obtains (whole) j where "j \<le> length recs" "x = concat (map encode (take j recs))"
    | (torn) j k where "j < length recs" "k < length (encode (recs ! j))"
        "x = concat (map encode (take j recs)) @ take k (encode (recs ! j))"
proof (cases "x = concat (map encode recs)")
  case True
  then show thesis using that(1) [of "length recs"] by simp
next
  case False
  with assms have "length x < length (concat (map encode recs))"
    by (metis prefix_length_less strict_prefix_def)
  then obtain j r where "j < length (map encode recs)" "r < length (map encode recs ! j)"
    "take (length x) (concat (map encode recs)) = concat (take j (map encode recs)) @ take r (map encode recs ! j)"
    by (rule take_concat_pieces)
  moreover have "take (length x) (concat (map encode recs)) = x"
    using assms by (auto elim: prefixE)
  ultimately show thesis using that(2) [of j r] by (simp add: take_map)
qed

lemma replay_after_partial_append:
  assumes "\<forall>r \<in> set (old @ recs). encodable r" and "prefix x (concat (map encode recs))"
    and "bs = concat (map encode old) @ x"
  shows "\<exists>j st t. j \<le> length recs
    \<and> replayFrom (plain_source bs) (int (length bs)) = (Inr (old @ take j recs, st), t)
    \<and> (case t of None \<Rightarrow> bs | Some n \<Rightarrow> take n bs) = concat (map encode (old @ take j recs))
    \<and> (x = concat (map encode recs) \<longrightarrow> j = length recs)"
proof (cases "x = concat (map encode recs)")
  case True
  with assms replayFrom_complete [of "old @ recs" bs] show ?thesis
    by (intro exI [of _ "length recs"]) auto
next
  case False
  from assms(2) show ?thesis
  proof (cases rule: prefix_of_records)
    case (whole j)
    have "\<forall>r \<in> set (old @ take j recs). encodable r"
      using assms(1) by (auto dest: in_set_takeD)
    from replayFrom_complete [OF this, of bs] assms whole False show ?thesis
      by (intro exI [of _ j]) auto
  next
    case (torn j k)
    have "\<forall>r \<in> set (old @ take j recs). encodable r" "encodable (recs ! j)"
      using assms(1) torn(1) by (auto dest: in_set_takeD)
    from replayFrom_torn_tail [OF this torn(2), of bs] assms torn False show ?thesis
      by (intro exI [of _ j]) auto
  qed
qed

lemma power_loss_prefix:
  assumes "file_data w path = Some (d @ x)"
    and "file_synced w path = Some n" "length d \<le> n" "n \<le> length (d @ x)"
  obtains y where "file_data (power_loss keep w) path = Some (d @ y)" "prefix y x"
    "n = length (d @ x) \<Longrightarrow> y = x"
proof -
  obtain m where m: "file_data (power_loss keep w) path = Some (take m (d @ x))" "n \<le> m"
    using file_data_power_loss [OF assms(1,2)] by blast
  with assms(3) have "take m (d @ x) = d @ take (m - length d) x" by simp
  with m assms(4) show thesis
    by (intro that [of "take (m - length d) x"]) (auto simp: take_is_prefix)
qed

text \<open>
  \<open>log_file\<close>: the file holds exactly the given records, all of them durable. \<open>recovers\<close>: a replay
  returns the records and leaves such a file.
\<close>

definition log_file :: "string \<Rightarrow> world \<Rightarrow> Record list \<Rightarrow> bool" where
  "log_file path w recs \<longleftrightarrow> file_data w path = Some (concat (map encode recs))
     \<and> file_synced w path = Some (length (concat (map encode recs))) \<and> (\<forall>r \<in> set recs. encodable r)"

definition recovers :: "string \<Rightarrow> world \<Rightarrow> Record list \<Rightarrow> bool" where
  "recovers path w recs \<longleftrightarrow>
     (\<exists>st w'. Replay path w = (Inr (recs, st), w') \<and> log_file path w' recs \<and> w_faults w' = (\<lambda>_. Ok))"

lemma power_loss_recovers:
  assumes data: "file_data w path = Some (concat (map encode old) @ x)" and x: "prefix x (concat (map encode recs))"
    and synced: "file_synced w path = Some n" "length (concat (map encode old)) \<le> n"
      "n \<le> length (concat (map encode old) @ x)"
    and enc: "\<forall>r \<in> set (old @ recs). encodable r"
  obtains j where "j \<le> length recs" "recovers path (power_loss keep w) (old @ take j recs)"
    "n = length (concat (map encode (old @ recs))) \<Longrightarrow> j = length recs"
proof -
  let ?d = "concat (map encode old)" and ?w = "power_loss keep w"
  obtain y where y: "file_data ?w path = Some (?d @ y)" "prefix y x" "n = length (?d @ x) \<Longrightarrow> y = x"
    using power_loss_prefix [OF data synced] by metis
  obtain j st t where j: "j \<le> length recs"
    "replayFrom (plain_source (?d @ y)) (int (length (?d @ y))) = (Inr (old @ take j recs, st), t)"
    "(case t of None \<Rightarrow> ?d @ y | Some n \<Rightarrow> take n (?d @ y)) = concat (map encode (old @ take j recs))"
    "y = concat (map encode recs) \<longrightarrow> j = length recs"
    using replay_after_partial_append [OF enc prefix_order.trans [OF y(2) x] refl] by blast
  note rp = Replay_working_disk [OF w_faults_power_loss y(1) j(2)]
  have "file_synced ?w path = Some (length (?d @ y))" using y(1) by (simp add: file_synced_power_loss)
  with rp j(3) enc have "recovers path ?w (old @ take j recs)"
    unfolding recovers_def log_file_def by (intro exI [of _ st] exI [of _ "snd (Replay path ?w)"])
      (auto simp: prod_eq_iff dest: in_set_takeD)
  moreover have "j = length recs" if "n = length (concat (map encode (old @ recs)))"
  proof -
    from that synced(3) have "length (concat (map encode recs)) \<le> length x" by simp
    with x have "x = concat (map encode recs)"
      by (metis prefix_length_le prefix_length_prefix prefix_order.antisym prefix_order.refl)
    with that y(3) j(4) show ?thesis by simp
  qed
  ultimately show thesis using j(1) that by blast
qed

lemma log_file_recovers:
  assumes "log_file path w recs"
  shows "recovers path (power_loss keep w) recs"
  using power_loss_recovers [of w path recs "[]" "[]" "length (concat (map encode recs))" keep] assms
  by (auto simp: log_file_def)

lemma AppendBatch_file:
  assumes "AppendBatch recs l w = (res, l', w')" "clean_log l" "\<not> wal_closed l"
    and "log_file (Path l) w old" "\<forall>r \<in> set recs. encodable r"
  shows "\<exists>x n. file_data w' (Path l) = Some (concat (map encode old) @ x) \<and> prefix x (concat (map encode recs))
    \<and> file_synced w' (Path l) = Some n \<and> length (concat (map encode old)) \<le> n
    \<and> n \<le> length (concat (map encode old) @ x)
    \<and> (res = Inr () \<and> wal_syncOnWrite l \<longrightarrow> n = length (concat (map encode (old @ recs)))
         \<and> x = concat (map encode recs))"
proof -
  let ?d = "concat (map encode old)"
  obtain x where x: "file_data w' (Path l) = Some (?d @ x)" "prefix x (concat (map encode recs))"
    "file_synced w' (Path l) = Some (length ?d) \<or> file_synced w' (Path l) = Some (length (?d @ x))"
    "res = Inr () \<Longrightarrow> x = concat (map encode recs)"
    using AppendBatch_extends [OF assms(1-3)] assms(4) by (auto simp: log_file_def)
  have sy: "file_synced w' (Path l) = Some (length (?d @ x))" if "res = Inr ()" "wal_syncOnWrite l"
  proof (cases "recs = []")
    case True
    then have "x = []" using x(2) by simp
    with x(3) show ?thesis by simp
  next
    case False
    with that x(1) AppendBatch_synced [of recs l w l' w'] assms show ?thesis by simp
  qed
  obtain n where n: "file_synced w' (Path l) = Some n" "length ?d \<le> n" "n \<le> length (?d @ x)"
    using x(3) by auto
  with x sy show ?thesis by (intro exI [of _ x] exI [of _ n]) auto
qed

lemma append_recovers:
  assumes "AppendBatch recs l w = (res, l', w')" "clean_log l" "\<not> wal_closed l"
    and "log_file (Path l) w old" "\<forall>r \<in> set recs. encodable r"
  shows "\<exists>j \<le> length recs. recovers (Path l) (power_loss keep w') (old @ take j recs)
    \<and> (res = Inr () \<and> wal_syncOnWrite l \<longrightarrow> j = length recs)"
proof -
  obtain x n where x: "file_data w' (Path l) = Some (concat (map encode old) @ x)"
    "prefix x (concat (map encode recs))" "file_synced w' (Path l) = Some n"
    "length (concat (map encode old)) \<le> n" "n \<le> length (concat (map encode old) @ x)"
    "res = Inr () \<and> wal_syncOnWrite l \<longrightarrow> n = length (concat (map encode (old @ recs)))"
    using AppendBatch_file [OF assms] by blast
  have "\<forall>r \<in> set (old @ recs). encodable r" using assms(4,5) by (auto simp: log_file_def)
  from power_loss_recovers [OF x(1-5) this, of keep] x(6) show ?thesis by metis
qed

lemma AppendBatch_settings:
  assumes "AppendBatch recs l w = (res, l', w')"
  shows "Path l' = Path l" "wal_syncOnWrite l' = wal_syncOnWrite l" "wal_closed l' = wal_closed l"
    "res = Inr () \<Longrightarrow> clean_log l \<Longrightarrow> clean_log l'"
    "q \<noteq> Path l \<Longrightarrow> clean_log l \<Longrightarrow> \<not> wal_closed l \<Longrightarrow> map_of (w_files w') q = map_of (w_files w) q"
proof -
  obtain k l1 w1 where ap: "append_records recs l w = (k, l1, w1)" by (metis prod_cases3)
  have 1: "bw_path (wal_writer l1) = Path l" "wal_syncOnWrite l1 = wal_syncOnWrite l" "wal_closed l1 = wal_closed l"
    using append_records_extends [OF ap] by (auto simp: Path_def)
  obtain k2 b w2 where fl: "bufio_Flush (wal_writer l1) w1 = (k2, b, w2)" by (metis prod_cases3)
  have 2: "bw_path b = Path l" using bufio_Flush_extends [OF fl] 1(1) by auto
  have "l' \<in> {l, l1, l1\<lparr>wal_writer := b\<rparr>}"
    using assms ap fl by (auto simp: AppendBatch_def split: if_splits bool.splits prod.splits)
  with 1 2 show "Path l' = Path l" "wal_syncOnWrite l' = wal_syncOnWrite l" "wal_closed l' = wal_closed l"
    by (auto simp: Path_def)
  show "clean_log l'" if "res = Inr ()" "clean_log l"
  proof (cases "wal_closed l")
    case True with assms that show ?thesis by (auto simp: AppendBatch_def split: if_splits)
  next
    case False with AppendBatch_extends [OF assms that(2)] that show ?thesis by blast
  qed
  show "map_of (w_files w') q = map_of (w_files w) q" if "q \<noteq> Path l" "clean_log l" "\<not> wal_closed l"
    using AppendBatch_extends [OF assms that(2,3)] that(1) by blast
qed

lemma Close_log_files:
  assumes "Close_log l w = (res, l', w')"
  shows "q \<noteq> Path l \<Longrightarrow> map_of (w_files w') q = map_of (w_files w) q"
    and "clean_log l \<Longrightarrow> log_file path w recs \<Longrightarrow> log_file path w' recs"
proof -
  obtain k b w1 where fl: "bufio_Flush (wal_writer (l\<lparr>wal_closed := True\<rparr>)) w = (k, b, w1)" by (metis prod_cases3)
  obtain x where x: "extends (Path l) x w w1" "bw_path b = Path l"
    "prefix x (bw_buf (wal_writer l))" using bufio_Flush_extends [OF fl] by (auto simp: Path_def)
  obtain k2 w2 where sy: "os_Sync (bw_path b) w1 = (k2, w2)" by fastforce
  note s2 = os_Sync_files [OF sy]
  have w': "w_files w' = w_files w \<or> w_files w' = w_files w1 \<or> w_files w' = w_files w2"
    using assms fl sy os_Close_files
    by (auto simp: Close_log_def Let_def split: if_splits bool.splits prod.splits)
      (metis eq_snd_iff os_Close_files)+
  show "map_of (w_files w') q = map_of (w_files w) q" if "q \<noteq> Path l"
    using w' x that s2(3) by (auto simp: extends_def)
  show "log_file path w' recs" if "clean_log l" "log_file path w recs"
  proof -
    have "x = []" using x(3) that(1) by (simp add: clean_log_def)
    with x(1) have 1: "file_data w1 path = file_data w path" "file_synced w1 path = file_synced w path"
      by (cases "path = Path l"; auto simp: extends_def file_data_def file_synced_def option.map_ident)+
    have 2: "file_data w2 path = file_data w path"
      "file_synced w2 path = file_synced w path \<or> file_synced w2 path = map_option length (file_data w path)"
      using s2 1 by (cases k2; cases "path = bw_path b"; auto simp: file_data_def file_synced_def)+
    from w' show ?thesis using that(2) 1 2 by (auto simp: log_file_def file_data_def file_synced_def)
  qed
qed

lemma Open_log_files:
  assumes "Open_log path sync w = (Inr l, w')"
  shows "q \<noteq> path \<Longrightarrow> map_of (w_files w') q = map_of (w_files w) q"
    and "log_file path w recs \<Longrightarrow> log_file path w' recs"
    and "map_of (w_files w) path = None \<Longrightarrow> log_file path w' []"
    and "clean_log l" "\<not> wal_closed l" "wal_syncOnWrite l = sync" "Path l = path"
proof -
  obtain ok w1 where o: "os_OpenAppend path w = (ok, w1)" by fastforce
  with assms have l: "ok" "w' = w1" "l = \<lparr>wal_writer = bufio_NewWriter path, wal_syncOnWrite = sync,
      wal_closed = False, wal_lastSeq = 0\<rparr>"
    by (auto simp: Open_log_def split: bool.splits)
  note f = os_OpenAppend_files [OF o]
  show "map_of (w_files w') q = map_of (w_files w) q" if "q \<noteq> path" using f(1) that l by simp
  show "log_file path w' recs" if "log_file path w recs"
    using that f(2) l by (auto simp: log_file_def file_data_def file_synced_def)
  show "log_file path w' []" if "map_of (w_files w) path = None"
    using that f(3) l by (auto simp: log_file_def file_data_def file_synced_def)
  show "clean_log l" "\<not> wal_closed l" "wal_syncOnWrite l = sync" "Path l = path"
    by (simp_all add: l clean_log_def bufio_NewWriter_def Path_def)
qed

lemma Open_log_failed_files:
  assumes "Open_log path sync w = (Inl e, w')"
  shows "map_of (w_files w') q = map_of (w_files w) q"
  using assms
  by (auto simp: Open_log_def os_OpenAppend_def next_outcome_files split: bool.splits prod.splits outcome.splits)

lemma log_file_cong:
  "map_of (w_files w') path = map_of (w_files w) path \<Longrightarrow> log_file path w' recs = log_file path w recs"
  by (simp add: log_file_def file_data_def file_synced_def)

lemma append_ok:
  assumes "AppendBatch recs l w = (Inr (), l', w')" "clean_log l" "\<not> wal_closed l"
    and "log_file (Path l) w old" "\<forall>r \<in> set recs. encodable r" "wal_syncOnWrite l"
  shows "log_file (Path l) w' (old @ recs)"
  using AppendBatch_file [OF assms(1-5)] assms(4-6) by (auto simp: log_file_def)

text \<open>
  C7. Acknowledged writes survive a loss of power, for every sequence of disk outcomes. Take a log
  whose file holds the synced records \<open>old\<close>, append a batch (the call may fail at any system call), and
  lose power at any time after it, keeping any part of what was not synced. Replay then returns \<open>old\<close>
  followed by a prefix of the batch, cuts the file to exactly these records, and that prefix is the whole
  batch when \<open>AppendBatch\<close> had returned nil on a log opened with \<open>SyncOnWrite\<close>.
\<close>

theorem append_crash_recovery:
  assumes "AppendBatch recs l w = (res, l', w')" and "clean_log l" and "\<not> wal_closed l"
    and "\<forall>r \<in> set (old @ recs). encodable r"
    and "file_data w (Path l) = Some (concat (map encode old))"
    and "file_synced w (Path l) = Some (length (concat (map encode old)))"
  shows "\<exists>j st w''. j \<le> length recs
    \<and> Replay (Path l) (power_loss keep w') = (Inr (old @ take j recs, st), w'')
    \<and> file_data w'' (Path l) = Some (concat (map encode (old @ take j recs)))
    \<and> (res = Inr () \<and> wal_syncOnWrite l \<longrightarrow> j = length recs)"
proof -
  have "log_file (Path l) w old" "\<forall>r \<in> set recs. encodable r" using assms(4-6) by (simp_all add: log_file_def)
  from append_recovers [OF assms(1-3) this, of keep] show ?thesis
    unfolding recovers_def log_file_def by blast
qed

definition ex_rec :: Record where
  "ex_rec = \<lparr>rec_SeqNum = 1, rec_Type = RecordPut, rec_Key = [1], rec_Value = [2]\<rparr>"

definition ex_log :: WAL where
  "ex_log = \<lparr>wal_writer = bufio_NewWriter ''a'', wal_syncOnWrite = True, wal_closed = False, wal_lastSeq = 0\<rparr>"

definition ex_torn_disk :: world where
  "ex_torn_disk = \<lparr>w_files = [(''a'', \<lparr>fd_data = [], fd_synced = 0\<rparr>)],
     w_faults = (\<lambda>n. if n = 0 then Fail 5 else Ok)\<rparr>"

theorem append_crash_recovery_witness:
  "\<exists>j st w''. j \<le> 1
    \<and> Replay ''a'' (power_loss (\<lambda>_. 3) (snd (snd (AppendBatch [ex_rec] ex_log ex_torn_disk)))) =
        (Inr (take j [ex_rec], st), w'')
    \<and> file_data w'' ''a'' = Some (concat (map encode (take j [ex_rec])))
    \<and> (fst (AppendBatch [ex_rec] ex_log ex_torn_disk) = Inr () \<longrightarrow> j = 1)"
proof -
  have ex: "clean_log ex_log" "\<not> wal_closed ex_log" "Path ex_log = ''a''" "wal_syncOnWrite ex_log"
    "\<forall>r \<in> set ([] @ [ex_rec]). encodable r"
    "file_data ex_torn_disk ''a'' = Some []" "file_synced ex_torn_disk ''a'' = Some 0"
    by (simp_all add: ex_log_def ex_rec_def ex_torn_disk_def clean_log_def bufio_NewWriter_def Path_def
        encodable_def file_data_def file_synced_def)
  obtain res l' w' where a: "AppendBatch [ex_rec] ex_log ex_torn_disk = (res, l', w')"
    by (metis prod_cases3)
  from append_crash_recovery [OF a ex(1,2,5), of "\<lambda>_. 3"] ex show ?thesis
    by (simp add: a)
qed

end
