(* ===== verification/Skiplist.thy ===== *)
theory Skiplist
  imports Go_Std
begin

text \<open>
  The skip list of the memtable (\<open>src/memtable/skiplist.go\<close>) on an explicit store: a node is an
  index into \<open>sl_nodes\<close>, the head is node 0, and a forward pointer is an optional index. The
  random level generator is the sequence of its coin flips, which the operations consume.
\<close>

section \<open>Nodes and lists\<close>

definition maxHeight :: nat where
  "maxHeight = 16"

definition nodeOverheadBytes :: int where
  "nodeOverheadBytes = 48"

record node =
  nd_key :: bytes
  nd_value :: bytes
  nd_deleted :: bool
  nd_seq :: uint64
  nd_forward :: "nat option list"

record skipList =
  sl_nodes :: "node list"
  sl_height :: nat
  sl_length :: nat
  sl_rnd :: "nat \<Rightarrow> bool"

definition entrySize :: "bytes \<Rightarrow> bytes \<Rightarrow> int" where
  "entrySize key value = int (length key + length value) + nodeOverheadBytes"

definition newSkipList :: "(nat \<Rightarrow> bool) \<Rightarrow> skipList" where
  "newSkipList rnd =
     \<lparr>sl_nodes = [\<lparr>nd_key = [], nd_value = [], nd_deleted = False, nd_seq = 0,
                   nd_forward = replicate maxHeight None\<rparr>],
      sl_height = 1, sl_length = 0, sl_rnd = rnd\<rparr>"

function randomLevel :: "nat \<Rightarrow> (nat \<Rightarrow> bool) \<Rightarrow> nat \<times> (nat \<Rightarrow> bool)" where
  "randomLevel level rnd =
     (if level < maxHeight then
        (if rnd 0 then randomLevel (level + 1) (\<lambda>n. rnd (Suc n))
         else (level, \<lambda>n. rnd (Suc n)))
      else (level, rnd))"
  by pat_completeness auto
termination
  by (relation "measure (\<lambda>(level, rnd). maxHeight - level)") auto

declare randomLevel.simps [simp del]

section \<open>Search\<close>

text \<open>
  Reading \<open>x.forward[i]\<close> panics on a nil node or beyond the node's levels; \<open>None\<close> is that
  panic, and also a walk along the level that does not end.
\<close>

definition forward_at :: "node list \<Rightarrow> nat \<Rightarrow> nat \<Rightarrow> nat option option" where
  "forward_at N x i =
     (if x < length N \<and> i < length (nd_forward (N ! x))
      then Some (nd_forward (N ! x) ! i) else None)"

partial_function (option) walk :: "node list \<Rightarrow> bytes \<Rightarrow> nat \<Rightarrow> nat \<Rightarrow> nat option" where
  "walk N key i x =
     (case forward_at N x i of
        None \<Rightarrow> None
      | Some None \<Rightarrow> Some x
      | Some (Some y) \<Rightarrow>
          if bytes_Compare (nd_key (N ! y)) key < 0 then walk N key i y else Some x)"

text \<open>The descent from level \<open>i - 1\<close> to level 0, recording the last node before \<open>key\<close> per level.\<close>

fun search :: "node list \<Rightarrow> bytes \<Rightarrow> nat \<Rightarrow> nat \<Rightarrow> nat option list \<Rightarrow> (nat \<times> nat option list) option" where
  "search N key 0 x update = Some (x, update)"
| "search N key (Suc i) x update =
     (case walk N key i x of
        None \<Rightarrow> None
      | Some x' \<Rightarrow> search N key i x' (update[i := Some x']))"

section \<open>Insertion and lookup\<close>

fun fill_head :: "nat list \<Rightarrow> nat option list \<Rightarrow> nat option list" where
  "fill_head [] update = update"
| "fill_head (i # is) update = fill_head is (update[i := Some 0])"

definition set_forward :: "nat \<Rightarrow> nat \<Rightarrow> nat option \<Rightarrow> node list \<Rightarrow> node list" where
  "set_forward x i p N = N[x := (N ! x)\<lparr>nd_forward := (nd_forward (N ! x))[i := p]\<rparr>]"

fun link :: "nat list \<Rightarrow> nat option list \<Rightarrow> nat \<Rightarrow> node list \<Rightarrow> node list option" where
  "link [] update n N = Some N"
| "link (i # is) update n N =
     (case update ! i of
        None \<Rightarrow> None
      | Some u \<Rightarrow>
          (case forward_at N u i of
             None \<Rightarrow> None
           | Some nxt \<Rightarrow> link is update n (set_forward u i (Some n) (set_forward n i nxt N))))"

text \<open>The second half of \<open>put\<close>: a new node for a key that is not in the list.\<close>

definition put_new ::
  "bytes \<Rightarrow> bytes \<Rightarrow> uint64 \<Rightarrow> bool \<Rightarrow> nat option list \<Rightarrow> skipList \<Rightarrow> (int \<times> skipList) option" where
  "put_new key value seq deleted update s =
     (let (level, rnd) = randomLevel 1 (sl_rnd s);
          update = (if sl_height s < level then fill_head [sl_height s..<level] update else update);
          height = (if sl_height s < level then level else sl_height s);
          n = length (sl_nodes s);
          N = sl_nodes s @ [\<lparr>nd_key = key, nd_value = value, nd_deleted = deleted, nd_seq = seq,
                             nd_forward = replicate level None\<rparr>]
      in case link [0..<level] update n N of
           None \<Rightarrow> None
         | Some N' \<Rightarrow>
             Some (entrySize key value,
                   \<lparr>sl_nodes = N', sl_height = height, sl_length = sl_length s + 1, sl_rnd = rnd\<rparr>))"

definition put :: "bytes \<Rightarrow> bytes \<Rightarrow> uint64 \<Rightarrow> bool \<Rightarrow> skipList \<Rightarrow> (int \<times> skipList) option" where
  "put key value seq deleted s =
     (let N = sl_nodes s
      in case search N key (sl_height s) 0 (replicate maxHeight None) of
           None \<Rightarrow> None
         | Some (x, update) \<Rightarrow>
             (case forward_at N x 0 of
                None \<Rightarrow> None
              | Some None \<Rightarrow> put_new key value seq deleted update s
              | Some (Some y) \<Rightarrow>
                  if nd_key (N ! y) = key then
                    let oldSize = entrySize (nd_key (N ! y)) (nd_value (N ! y));
                        nd = (N ! y)\<lparr>nd_value := value, nd_deleted := deleted, nd_seq := seq\<rparr>
                    in Some (entrySize (nd_key nd) (nd_value nd) - oldSize,
                             s\<lparr>sl_nodes := N[y := nd]\<rparr>)
                  else put_new key value seq deleted update s))"

definition get :: "bytes \<Rightarrow> skipList \<Rightarrow> node option option" where
  "get key s =
     (let N = sl_nodes s
      in case search N key (sl_height s) 0 (replicate maxHeight None) of
           None \<Rightarrow> None
         | Some (x, _) \<Rightarrow>
             (case forward_at N x 0 of
                None \<Rightarrow> None
              | Some None \<Rightarrow> Some None
              | Some (Some y) \<Rightarrow>
                  Some (if nd_key (N ! y) = key then Some (N ! y) else None)))"

section \<open>The order of the nodes\<close>

abbreviation ht :: "node list \<Rightarrow> nat \<Rightarrow> nat" where
  "ht N x \<equiv> length (nd_forward (N ! x))"

abbreviation ky :: "node list \<Rightarrow> nat \<Rightarrow> bytes" where
  "ky N x \<equiv> nd_key (N ! x)"

text \<open>
  \<open>chain N x suf\<close>: from node \<open>x\<close> on, the nodes follow each other in the order \<open>suf\<close>, and at every
  level a forward pointer leads to the next node that is high enough.
\<close>

fun chain :: "node list \<Rightarrow> nat \<Rightarrow> nat list \<Rightarrow> bool" where
  "chain N x suf \<longleftrightarrow>
     (\<forall>i < ht N x. nd_forward (N ! x) ! i = find (\<lambda>y. i < ht N y) suf)
     \<and> (case suf of [] \<Rightarrow> True | y # ys \<Rightarrow> chain N y ys)"

declare chain.simps [simp del]

lemma chain_Nil: "chain N x [] \<longleftrightarrow> (\<forall>i < ht N x. nd_forward (N ! x) ! i = None)"
  by (subst chain.simps) simp

lemma chain_Cons:
  "chain N x (y # ys) \<longleftrightarrow>
     (\<forall>i < ht N x. nd_forward (N ! x) ! i = find (\<lambda>y. i < ht N y) (y # ys)) \<and> chain N y ys"
  by (subst chain.simps) simp

definition keys_sorted :: "node list \<Rightarrow> nat list \<Rightarrow> bool" where
  "keys_sorted N ns \<longleftrightarrow> sorted_wrt (<) (map (ky N) ns)"

definition sl_inv :: "skipList \<Rightarrow> nat list \<Rightarrow> bool" where
  "sl_inv s ns \<longleftrightarrow>
     distinct ns \<and> set ns = {0<..<length (sl_nodes s)} \<and> sl_nodes s \<noteq> []
     \<and> ht (sl_nodes s) 0 = maxHeight \<and> 1 \<le> sl_height s \<and> sl_height s \<le> maxHeight
     \<and> (\<forall>x \<in> set ns. 1 \<le> ht (sl_nodes s) x \<and> ht (sl_nodes s) x \<le> sl_height s)
     \<and> keys_sorted (sl_nodes s) ns \<and> chain (sl_nodes s) 0 ns \<and> sl_length s = length ns"

text \<open>The abstract value: the entries in key order.\<close>

definition nd_entry :: "node \<Rightarrow> bytes \<times> bytes \<times> uint64 \<times> bool" where
  "nd_entry nd = (nd_key nd, nd_value nd, nd_seq nd, nd_deleted nd)"

definition sl_entries :: "node list \<Rightarrow> nat list \<Rightarrow> (bytes \<times> bytes \<times> uint64 \<times> bool) list" where
  "sl_entries N ns = map (\<lambda>x. nd_entry (N ! x)) ns"

lemma sl_entries_sorted: "keys_sorted N ns \<longleftrightarrow> sorted_keys (sl_entries N ns)"
  by (simp add: keys_sorted_def sorted_keys_def sl_entries_def nd_entry_def comp_def)

lemma sl_inv_newSkipList: "sl_inv (newSkipList rnd) []"
  by (auto simp: sl_inv_def newSkipList_def keys_sorted_def chain_Nil maxHeight_def)

lemma randomLevel_range:
  "1 \<le> level \<Longrightarrow> level \<le> maxHeight \<Longrightarrow> fst (randomLevel level rnd) \<in> {level..maxHeight}"
proof (induction level rnd rule: randomLevel.induct)
  case (1 level rnd)
  show ?case
  proof (cases "level < maxHeight \<and> rnd 0")
    case True
    with 1 have "fst (randomLevel (level + 1) (\<lambda>n. rnd (Suc n))) \<in> {level + 1..maxHeight}" by simp
    with True show ?thesis by (auto simp: randomLevel.simps [of level rnd])
  next
    case False
    with 1 show ?thesis by (auto simp: randomLevel.simps [of level rnd])
  qed
qed

section \<open>The search finds the predecessor at every level\<close>

lemma chain_append: "chain N x (ps @ y # ys) \<Longrightarrow> chain N y ys"
  by (induction ps arbitrary: x) (auto simp: chain_Cons)

lemma chain_forward:
  "chain N x suf \<Longrightarrow> x < length N \<Longrightarrow> i < ht N x \<Longrightarrow>
     forward_at N x i = Some (find (\<lambda>y. i < ht N y) suf)"
  by (cases suf) (auto simp: chain_Nil chain_Cons forward_at_def)

text \<open>
  The last node of \<open>x # L\<close> that reaches level \<open>i\<close>.
\<close>

definition pred_at :: "node list \<Rightarrow> nat \<Rightarrow> nat list \<Rightarrow> nat" where
  "pred_at N i xs = last (filter (\<lambda>x. i < ht N x) xs)"

lemma walk_pred:
  assumes "chain N x (L @ R)" "\<forall>y \<in> set (x # L @ R). y < length N" "i < ht N x"
    and "\<forall>y \<in> set L. ky N y < key" "\<forall>y \<in> set R. \<not> ky N y < key"
  shows "walk N key i x = Some (pred_at N i (x # L))"
  using assms
proof (induction "length L" arbitrary: x L rule: less_induct)
  case less
  show ?case
  proof (cases "find (\<lambda>y. i < ht N y) L")
    case None
    then have none: "\<forall>y \<in> set L. \<not> i < ht N y" by (simp add: find_None_iff)
    then have "find (\<lambda>y. i < ht N y) (L @ R) = find (\<lambda>y. i < ht N y) R"
      using None by (simp add: find_append)
    with less.prems have fw: "forward_at N x i = Some (find (\<lambda>y. i < ht N y) R)"
      by (simp add: chain_forward)
    have "walk N key i x = Some x"
    proof (cases "find (\<lambda>y. i < ht N y) R")
      case None
      with fw show ?thesis by (simp add: walk.simps)
    next
      case (Some y)
      then have "y \<in> set R" by (auto simp: find_Some_iff)
      with fw Some less.prems(5) show ?thesis by (simp add: walk.simps [of N key i x])
    qed
    with none less.prems(3) show ?thesis by (simp add: pred_at_def)
  next
    case (Some y)
    then obtain L1 L2 where L: "L = L1 @ y # L2" "i < ht N y" "\<forall>z \<in> set L1. \<not> i < ht N z"
      by (rule find_splitE)
    have "find (\<lambda>y. i < ht N y) (L @ R) = Some y"
      using Some by (simp add: find_append)
    with less.prems have fw: "forward_at N x i = Some (Some y)"
      by (simp add: chain_forward)
    have "walk N key i y = Some (pred_at N i (y # L2))"
      using less.prems L by (intro less.hyps) (auto dest: chain_append)
    moreover have "walk N key i x = walk N key i y"
      using fw less.prems(4) L by (simp add: walk.simps [of N key i x])
    moreover have "pred_at N i (x # L) = pred_at N i (y # L2)"
      using L less.prems(3) by (simp add: pred_at_def filter_empty_conv)
    ultimately show ?thesis by simp
  qed
qed

lemma pred_at_in: "\<exists>x \<in> set xs. i < ht N x \<Longrightarrow> pred_at N i xs \<in> set xs \<and> i < ht N (pred_at N i xs)"
proof -
  assume "\<exists>x \<in> set xs. i < ht N x"
  then have "filter (\<lambda>x. i < ht N x) xs \<noteq> []" by (auto simp: filter_empty_conv)
  then have "last (filter (\<lambda>x. i < ht N x) xs) \<in> set (filter (\<lambda>x. i < ht N x) xs)"
    by (rule last_in_set)
  then show ?thesis by (simp add: pred_at_def)
qed

lemma pred_at_append: "i < ht N x \<Longrightarrow> pred_at N i (pre @ x # xs) = pred_at N i (x # xs)"
  by (simp add: pred_at_def)

lemma split_tail_subset: "x # xs = pre @ z # ys \<Longrightarrow> set ys \<subseteq> set xs"
  by (cases pre) auto

lemma search_spec:
  assumes "chain N x (L' @ R)" "\<forall>y \<in> set (x # L' @ R). y < length N" "i \<le> ht N x"
    and "\<forall>y \<in> set L'. ky N y < key" "\<forall>y \<in> set R. \<not> ky N y < key"
    and "xs = pre @ x # L'"
  shows "\<exists>update'. search N key i x update = Some (if i = 0 then x else pred_at N 0 xs, update')
    \<and> length update' = length update
    \<and> (\<forall>j < length update. update' ! j = (if j < i then Some (pred_at N j xs) else update ! j))"
  using assms
proof (induction i arbitrary: x L' pre update)
  case 0
  then show ?case by simp
next
  case (Suc i)
  let ?x = "pred_at N i (x # L')"
  have w: "walk N key i x = Some ?x"
    using Suc.prems by (intro walk_pred) auto
  have "?x \<in> set (x # L') \<and> i < ht N ?x"
    using Suc.prems(3) by (intro pred_at_in) auto
  then obtain pre2 L2 where split: "x # L' = pre2 @ ?x # L2" and h: "i < ht N ?x"
    by (metis split_list)
  have ch: "chain N ?x (L2 @ R)"
  proof (cases pre2)
    case Nil
    with split Suc.prems(1) show ?thesis by (metis append_Nil list.inject)
  next
    case (Cons z zs)
    with split have "L' = zs @ ?x # L2" by (metis append_Cons list.inject)
    with Suc.prems(1) show ?thesis by (metis append.assoc append_Cons chain_append)
  qed
  have px: "pred_at N i xs = ?x"
    using Suc.prems(3,6) by (simp add: pred_at_append)
  have xs: "xs = (pre @ pre2) @ ?x # L2" using Suc.prems(6) split by simp
  have mem: "set (?x # L2) \<subseteq> set (x # L')"
    by (subst split) auto
  have sub: "set L2 \<subseteq> set L'"
    using split by (rule split_tail_subset)
  have prem: "\<forall>y \<in> set (?x # L2 @ R). y < length N" "\<forall>y \<in> set L2. ky N y < key"
    using mem sub Suc.prems(2,4) by auto
  obtain update' where IH: "search N key i ?x (update[i := Some ?x]) =
      Some (if i = 0 then ?x else pred_at N 0 xs, update')" "length update' = length update"
    "\<forall>j < length update. update' ! j =
      (if j < i then Some (pred_at N j xs) else update[i := Some ?x] ! j)"
    using Suc.IH [OF ch prem(1) _ prem(2) Suc.prems(5) xs, of "update[i := Some ?x]"] h
    by auto
  have first: "(if i = 0 then ?x else pred_at N 0 xs) = pred_at N 0 xs"
    using px by auto
  show ?case
    using w IH px first by (auto simp: nth_list_update less_Suc_eq)
qed

text \<open>Splitting the order of a well-formed list at a key.\<close>

definition below :: "node list \<Rightarrow> bytes \<Rightarrow> nat list \<Rightarrow> nat list" where
  "below N key ns = takeWhile (\<lambda>x. ky N x < key) ns"

definition above :: "node list \<Rightarrow> bytes \<Rightarrow> nat list \<Rightarrow> nat list" where
  "above N key ns = dropWhile (\<lambda>x. ky N x < key) ns"

lemma below_above: "below N key ns @ above N key ns = ns"
  by (simp add: below_def above_def)

lemma below_less: "\<forall>x \<in> set (below N key ns). ky N x < key"
  by (auto simp: below_def dest: set_takeWhileD)

lemma above_geq:
  assumes "keys_sorted N ns"
  shows "\<forall>x \<in> set (above N key ns). \<not> ky N x < key"
proof (cases "above N key ns")
  case (Cons y ys)
  have "\<not> ky N y < key"
    using Cons hd_dropWhile [of "\<lambda>x. ky N x < key" ns] by (auto simp: above_def)
  moreover have "keys_sorted N (y # ys)"
    using assms below_above [of N key ns] Cons
    by (metis keys_sorted_def map_append sorted_wrt_append)
  ultimately show ?thesis
    using Cons by (auto simp: keys_sorted_def dest: less_trans)
qed simp

lemma sl_inv_node:
  assumes "sl_inv s ns" "x \<in> set (0 # ns)"
  shows "x < length (sl_nodes s)" "0 < ht (sl_nodes s) x"
proof -
  note inv = assms(1) [unfolded sl_inv_def]
  show "x < length (sl_nodes s)" using inv assms(2) by auto
  show "0 < ht (sl_nodes s) x"
  proof (cases "x = 0")
    case True
    with inv show ?thesis by (simp add: maxHeight_def)
  next
    case False
    with inv assms(2) have "1 \<le> ht (sl_nodes s) x" by (metis set_ConsD)
    then show ?thesis by linarith
  qed
qed

lemma search_from_head:
  assumes "sl_inv s ns"
  shows "\<exists>update. search (sl_nodes s) key (sl_height s) 0 (replicate maxHeight None) =
      Some (last (0 # below (sl_nodes s) key ns), update)
    \<and> length update = maxHeight
    \<and> (\<forall>j < sl_height s. update ! j = Some (pred_at (sl_nodes s) j (0 # below (sl_nodes s) key ns)))"
proof -
  let ?N = "sl_nodes s" and ?L = "below (sl_nodes s) key ns" and ?R = "above (sl_nodes s) key ns"
  note inv = assms [unfolded sl_inv_def]
  have "\<forall>y \<in> set (0 # ?L @ ?R). y < length ?N"
    using inv by (auto simp: below_above)
  moreover have "chain ?N 0 (?L @ ?R)" using inv by (simp add: below_above)
  ultimately obtain update where u: "search ?N key (sl_height s) 0 (replicate maxHeight None) =
      Some (if sl_height s = 0 then 0 else pred_at ?N 0 (0 # ?L), update)" "length update = maxHeight"
    "\<forall>j < maxHeight. update ! j = (if j < sl_height s then Some (pred_at ?N j (0 # ?L))
      else replicate maxHeight None ! j)"
    using search_spec [of ?N 0 ?L ?R "sl_height s" key "0 # ?L" "[]" "replicate maxHeight None"]
      inv below_less [of ?N key ns] above_geq [of ?N ns key]
    by (auto simp: below_above)
  have "set (0 # ?L) \<subseteq> set (0 # ns)" by (auto simp: below_def dest: set_takeWhileD)
  then have "filter (\<lambda>x. 0 < ht ?N x) (0 # ?L) = 0 # ?L"
    unfolding filter_id_conv using sl_inv_node [OF assms] by blast
  then have "pred_at ?N 0 (0 # ?L) = last (0 # ?L)" by (simp only: pred_at_def)
  with u inv show ?thesis by auto
qed

lemma chain_last: "chain N x (L @ R) \<Longrightarrow> chain N (last (x # L)) R"
  by (induction L arbitrary: x) (auto simp: chain_Cons)

lemma forward_from_last:
  assumes "sl_inv s ns"
  shows "forward_at (sl_nodes s) (last (0 # below (sl_nodes s) key ns)) 0 =
    Some (case above (sl_nodes s) key ns of [] \<Rightarrow> None | y # _ \<Rightarrow> Some y)"
proof -
  let ?N = "sl_nodes s" and ?L = "below (sl_nodes s) key ns" and ?R = "above (sl_nodes s) key ns"
  note inv = assms [unfolded sl_inv_def]
  have "chain ?N (last (0 # ?L)) ?R"
    using inv by (intro chain_last) (simp add: below_above)
  moreover have "last (0 # ?L) \<in> set (0 # ns)"
    using last_in_set [of "0 # ?L"] by (auto simp: below_def dest: set_takeWhileD)
  then have "last (0 # ?L) < length ?N" "0 < ht ?N (last (0 # ?L))"
    using sl_inv_node [OF assms] by blast+
  ultimately have "forward_at ?N (last (0 # ?L)) 0 = Some (find (\<lambda>y. 0 < ht ?N y) ?R)"
    by (rule chain_forward)
  moreover have "0 < ht ?N y" if "?R = y # ys" for y ys
  proof -
    have "y \<in> set ns" using that below_above [of ?N key ns] by (metis in_set_conv_decomp)
    then show ?thesis using sl_inv_node(2) [OF assms, of y] by simp
  qed
  ultimately show ?thesis by (auto split: list.split)
qed

section \<open>Linking a new node\<close>

text \<open>The node store after \<open>link\<close>, written pointwise: \<open>p i\<close> is the predecessor at level \<open>i\<close>.\<close>

definition linked :: "(nat \<Rightarrow> nat) \<Rightarrow> nat list \<Rightarrow> nat \<Rightarrow> node list \<Rightarrow> node list" where
  "linked p is n N = map (\<lambda>x. (N ! x)\<lparr>nd_forward := map (\<lambda>i.
     if i \<in> set is \<and> x = n then nd_forward (N ! p i) ! i
     else if i \<in> set is \<and> x = p i then Some n
     else nd_forward (N ! x) ! i) [0..<ht N x]\<rparr>) [0..<length N]"

lemma linked_nth:
  "x < length N \<Longrightarrow> linked p is n N ! x = (N ! x)\<lparr>nd_forward := map (\<lambda>i.
     if i \<in> set is \<and> x = n then nd_forward (N ! p i) ! i
     else if i \<in> set is \<and> x = p i then Some n
     else nd_forward (N ! x) ! i) [0..<ht N x]\<rparr>"
  unfolding linked_def by (subst nth_map_upt) auto

lemma linked_props [simp]:
  "length (linked p is n N) = length N"
  "x < length N \<Longrightarrow> ht (linked p is n N) x = ht N x"
  "x < length N \<Longrightarrow> ky (linked p is n N) x = ky N x"
  "x < length N \<Longrightarrow> nd_entry (linked p is n N ! x) = nd_entry (N ! x)"
  by (simp_all add: linked_nth nd_entry_def) (simp add: linked_def)

lemma linked_forward [simp]:
  "x < length N \<Longrightarrow> i < ht N x \<Longrightarrow> nd_forward (linked p is n N ! x) ! i =
     (if i \<in> set is \<and> x = n then nd_forward (N ! p i) ! i
      else if i \<in> set is \<and> x = p i then Some n else nd_forward (N ! x) ! i)"
proof -
  assume x: "x < length N" and i: "i < ht N x"
  have "nd_forward (linked p is n N ! x) = map (\<lambda>i.
     if i \<in> set is \<and> x = n then nd_forward (N ! p i) ! i
     else if i \<in> set is \<and> x = p i then Some n
     else nd_forward (N ! x) ! i) [0..<ht N x]"
    using x by (simp add: linked_nth)
  then show ?thesis using i by (simp only: nth_map_upt minus_nat.diff_0 add_0)
qed

lemma set_forward_props [simp]:
  "length (set_forward x i q N) = length N"
  "ht (set_forward x i q N) y = ht N y"
  "y < length N \<Longrightarrow> set_forward x i q N ! y =
     (if y = x then (N ! x)\<lparr>nd_forward := (nd_forward (N ! x))[i := q]\<rparr> else N ! y)"
proof -
  show "length (set_forward x i q N) = length N" by (simp add: set_forward_def)
  show "ht (set_forward x i q N) y = ht N y"
    by (cases "x < length N") (auto simp: set_forward_def nth_list_update list_update_beyond)
  show "y < length N \<Longrightarrow> set_forward x i q N ! y =
     (if y = x then (N ! x)\<lparr>nd_forward := (nd_forward (N ! x))[i := q]\<rparr> else N ! y)"
    by (auto simp: set_forward_def nth_list_update)
qed

lemma linked_Nil: "linked p [] n N = N"
  by (rule nth_equalityI) (auto simp: linked_nth map_nth)

lemma linked_step:
  assumes "length M = length N"
    and node: "\<And>y. y < length N \<Longrightarrow> nd_entry (M ! y) = nd_entry (N ! y) \<and> ht M y = ht N y"
    and fw: "\<And>y j. y < length N \<Longrightarrow> j < ht N y \<Longrightarrow> nd_forward (M ! y) ! j =
      (if j = i \<and> y = n then nd_forward (N ! p i) ! i
       else if j = i \<and> y = p i then Some n else nd_forward (N ! y) ! j)"
    and "i \<notin> set is" "\<forall>j \<in> set is. p j < length N \<and> j < ht N (p j)"
  shows "linked p is n M = linked p (i # is) n N"
proof (rule nth_equalityI)
  fix x assume "x < length (linked p is n M)"
  with assms(1) have x: "x < length M" "x < length N" by simp_all
  have "nd_forward (linked p is n M ! x) ! j = nd_forward (linked p (i # is) n N ! x) ! j"
    if j: "j < ht N x" for j
    using x j assms(4,5) node [OF x(2)] fw [of x j] fw [of "p j" j] by auto
  then have "nd_forward (linked p is n M ! x) = nd_forward (linked p (i # is) n N ! x)"
    using x node [OF x(2)] by (intro nth_equalityI) auto
  moreover have "nd_entry (linked p is n M ! x) = nd_entry (linked p (i # is) n N ! x)"
    using x node [OF x(2)] by simp
  ultimately show "linked p is n M ! x = linked p (i # is) n N ! x"
    by (simp add: nd_entry_def node.equality)
qed (simp add: assms(1))

lemma link_linked:
  assumes "distinct is" "n < length N"
    and "\<forall>j \<in> set is. update ! j = Some (p j) \<and> p j < length N \<and> p j \<noteq> n \<and> j < ht N (p j)"
  shows "link is update n N = Some (linked p is n N)"
  using assms
proof (induction "is" arbitrary: N)
  case (Cons i "is")
  let ?N = "set_forward (p i) i (Some n) (set_forward n i (nd_forward (N ! p i) ! i) N)"
  have "link is update n ?N = Some (linked p is n ?N)"
    using Cons.prems by (intro Cons.IH) auto
  moreover have "linked p is n ?N = linked p (i # is) n N"
    using Cons.prems by (intro linked_step) (auto simp: nd_entry_def)
  ultimately show ?case using Cons.prems by (simp add: forward_at_def)
qed (simp add: linked_Nil)

lemma chain_iff:
  "chain N x suf \<longleftrightarrow> (\<forall>pre y post. x # suf = pre @ y # post \<longrightarrow>
     (\<forall>i < ht N y. nd_forward (N ! y) ! i = find (\<lambda>z. i < ht N z) post))"
proof (induction suf arbitrary: x)
  case Nil
  then show ?case by (auto simp: chain_Nil Cons_eq_append_conv)
next
  case (Cons a suf)
  show ?case unfolding chain_Cons Cons.IH
    by (subst (2) Cons_eq_append_conv) auto
qed

lemma pred_at_split:
  assumes "xs = pre @ y # post" "distinct xs" "i < ht N y"
  shows "pred_at N i xs = y \<longleftrightarrow> (\<forall>z \<in> set post. \<not> i < ht N z)"
proof (cases "filter (\<lambda>x. i < ht N x) post")
  case Nil
  with assms show ?thesis by (simp add: pred_at_def filter_empty_conv)
next
  case (Cons a as)
  then have "last (a # as) \<in> set post" by (metis filter_is_subset last_in_set list.discI subsetD)
  with assms Cons show ?thesis
    by (auto simp: pred_at_def filter_empty_conv dest: filter_eq_ConsD)
qed

lemma find_cong_ht: "\<forall>z \<in> set zs. ht M z = ht N z \<Longrightarrow> find (\<lambda>z. i < ht M z) zs = find (\<lambda>z. i < ht N z) zs"
  by (rule find_cong) auto

lemma split_around:
  "xs @ n # ys = pre @ y # post \<Longrightarrow>
     (\<exists>post'. xs = pre @ y # post' \<and> post = post' @ n # ys) \<or> (y = n \<and> post = ys)
     \<or> (\<exists>pre'. ys = pre' @ y # post \<and> xs @ n # pre' = pre)"
  by (auto simp: append_eq_append_conv2 Cons_eq_append_conv append_eq_Cons_conv)

lemma chain_linked:
  assumes ch: "chain N 0 (L @ R)" and d: "distinct (0 # L @ n # R)"
    and len: "\<forall>y \<in> set (0 # L @ n # R). y < length N"
    and lev: "level = ht N n" "level \<le> ht N 0"
  shows "chain (linked (\<lambda>i. pred_at N i (0 # L)) [0..<level] n N) 0 (L @ n # R)"
    (is "chain ?M _ _")
  unfolding chain_iff
proof (intro allI impI)
  fix pre y post i
  assume split: "0 # L @ n # R = pre @ y # post" and "i < ht ?M y"
  let ?p = "\<lambda>i. pred_at N i (0 # L)"
  have y: "y \<in> set (0 # L @ n # R)" "set post \<subseteq> set (0 # L @ n # R)"
    unfolding split by auto
  with len \<open>i < ht ?M y\<close> have i: "i < ht N y" and yl: "y < length N" by auto
  have find: "find (\<lambda>z. i < ht ?M z) post = find (\<lambda>z. i < ht N z) post"
    using y len by (intro find_cong_ht) auto
  have old: "nd_forward (N ! z) ! i = find (\<lambda>z. i < ht N z) post'"
    if "0 # L @ R = pre' @ z # post'" "i < ht N z" for pre' z post'
    using ch that unfolding chain_iff by blast
  have p_in: "?p i \<in> set (0 # L) \<and> i < ht N (?p i)" if "i < level"
    using that lev by (intro pred_at_in) auto
  consider (left) post' where "0 # L = pre @ y # post'" "post = post' @ n # R"
    | (new) "y = n" "post = R" | (right) pre' where "R = pre' @ y # post" "0 # L @ n # pre' = pre"
    using split_around [of "0 # L" n R pre y post] split by auto
  then show "nd_forward (?M ! y) ! i = find (\<lambda>z. i < ht ?M z) post"
  proof cases
    case left
    have "y \<in> set (0 # L)" unfolding left(1) by simp
    then have ny: "y \<noteq> n" using d by auto
    have "?p i = y \<longleftrightarrow> (\<forall>z \<in> set post'. \<not> i < ht N z)"
      by (rule pred_at_split [OF left(1) _ i]) (use d in simp)
    moreover have "nd_forward (N ! y) ! i = find (\<lambda>z. i < ht N z) (post' @ R)"
      using left i by (intro old) auto
    ultimately show ?thesis
      unfolding find using yl i ny lev left(2) find_None_iff [of "\<lambda>z. i < ht N z" post']
      by (auto simp: find_append split: option.split)
  next
    case new
    have p: "?p i \<in> set (0 # L)" "i < ht N (?p i)" using p_in i new lev by auto
    obtain pre' post' where sp: "0 # L = pre' @ ?p i # post'"
      using split_list [OF p(1)] by blast
    have "\<forall>z \<in> set post'. \<not> i < ht N z"
      using pred_at_split [OF sp _ p(2)] d by simp
    then have "find (\<lambda>z. i < ht N z) post' = None" by (simp add: find_None_iff)
    moreover have "0 # L @ R = pre' @ ?p i # (post' @ R)"
      using sp by (metis append_Cons append_assoc)
    then have "nd_forward (N ! ?p i) ! i = find (\<lambda>z. i < ht N z) (post' @ R)"
      using p(2) by (rule old)
    ultimately show ?thesis
      unfolding find using new yl i lev by (simp add: find_append)
  next
    case right
    have "y \<notin> set (0 # L)" "y \<noteq> n" using right(1) d by auto
    with p_in have "\<not> (i < level \<and> y = ?p i)" by auto
    moreover have "nd_forward (N ! y) ! i = find (\<lambda>z. i < ht N z) post"
      using right(1) i by (intro old [of "0 # L @ pre'"]) auto
    ultimately show ?thesis
      unfolding find using \<open>y \<noteq> n\<close> yl i by auto
  qed
qed

section \<open>Insertion and lookup on the abstract value\<close>

lemma fill_head_nth:
  "set is \<subseteq> {..<length update} \<Longrightarrow> j < length update \<Longrightarrow>
     fill_head is update ! j = (if j \<in> set is then Some 0 else update ! j)"
  by (induction "is" arbitrary: update) (auto simp: nth_list_update)

text \<open>The entries of a list whose order has been split at a key.\<close>

lemma sl_entries_append [simp]: "sl_entries N (xs @ ys) = sl_entries N xs @ sl_entries N ys"
  by (simp add: sl_entries_def)

lemma sl_entries_simps [simp]:
  "sl_entries N [] = []" "sl_entries N (x # xs) = nd_entry (N ! x) # sl_entries N xs"
  by (simp_all add: sl_entries_def)

lemma sl_entries_cong:
  "(\<And>x. x \<in> set ns \<Longrightarrow> nd_entry (M ! x) = nd_entry (N ! x)) \<Longrightarrow> sl_entries M ns = sl_entries N ns"
  by (simp add: sl_entries_def)

lemma below_entries: "\<forall>e \<in> set (sl_entries N (below N key ns)). fst e < key"
  using below_less [of N key ns] by (auto simp: sl_entries_def nd_entry_def)

lemma above_entries:
  assumes "keys_sorted N ns"
  shows "above N key ns = [] \<or> (\<exists>y ys. above N key ns = y # ys
    \<and> key \<le> ky N y \<and> (\<forall>e \<in> set (sl_entries N ys). key < fst e))"
proof (cases "above N key ns")
  case (Cons y ys)
  have "key \<le> ky N y" using above_geq [OF assms, of key] Cons by auto
  moreover have "keys_sorted N (y # ys)"
    using assms below_above [of N key ns] Cons
    by (metis keys_sorted_def map_append sorted_wrt_append)
  ultimately show ?thesis
    using Cons by (auto simp: keys_sorted_def sl_entries_def nd_entry_def)
qed simp

lemma keys_sorted_cong:
  "(\<And>x. x \<in> set ns \<Longrightarrow> ky M x = ky N x) \<Longrightarrow> keys_sorted M ns = keys_sorted N ns"
  by (simp add: keys_sorted_def cong: map_cong)

text \<open>Overwriting the value of a node.\<close>

lemma chain_overwrite:
  assumes "\<And>x. nd_forward (M ! x) = nd_forward (N ! x)"
  shows "chain M x suf = chain N x suf"
  by (simp add: chain_iff assms)

lemma put_overwrite:
  assumes inv: "sl_inv s ns" and y: "above (sl_nodes s) key ns = y # ys" "ky (sl_nodes s) y = key"
  shows "\<exists>s'. put key value seq deleted s =
      Some (entrySize key value - entrySize key (nd_value (sl_nodes s ! y)), s')
    \<and> sl_inv s' ns
    \<and> sl_entries (sl_nodes s') ns = upd_sorted key (value, seq, deleted) (sl_entries (sl_nodes s) ns)"
proof -
  let ?N = "sl_nodes s"
  let ?nd = "(?N ! y)\<lparr>nd_value := value, nd_deleted := deleted, nd_seq := seq\<rparr>"
  let ?s = "s\<lparr>sl_nodes := ?N[y := ?nd]\<rparr>"
  have ns: "ns = below ?N key ns @ y # ys" using below_above [of ?N key ns] y by simp
  then have yin: "y \<in> set ns" by (metis in_set_conv_decomp)
  then have yl: "y < length ?N" using inv by (auto simp: sl_inv_def)
  obtain update where "search ?N key (sl_height s) 0 (replicate maxHeight None) =
      Some (last (0 # below ?N key ns), update)"
    using search_from_head [OF inv, of key] by blast
  then have put: "put key value seq deleted s =
      Some (entrySize key value - entrySize key (nd_value (?N ! y)), ?s)"
    using y by (simp add: put_def forward_from_last [OF inv] Let_def del: last.simps)
  have fw: "nd_forward (?N[y := ?nd] ! x) = nd_forward (?N ! x)"
    and kk: "nd_key (?N[y := ?nd] ! x) = nd_key (?N ! x)" for x
    using yl by (auto simp: nth_list_update)
  have "sl_inv ?s ns"
    using inv fw kk by (simp add: sl_inv_def chain_overwrite [of "?N[y := ?nd]" ?N]
        keys_sorted_cong [of ns "?N[y := ?nd]" ?N])
  moreover have dist: "y \<notin> set (below ?N key ns)" "y \<notin> set ys"
    using inv ns by (auto simp: sl_inv_def) (metis disjoint_insert(1) distinct_append list.simps(15),
      metis distinct.simps(2) distinct_append)
  have "sl_entries (?N[y := ?nd]) xs = sl_entries ?N xs" if "y \<notin> set xs" for xs
    using that by (intro sl_entries_cong) (metis nth_list_update_neq)
  then have "sl_entries (?N[y := ?nd]) ns =
      sl_entries ?N (below ?N key ns) @ (key, value, seq, deleted) # sl_entries ?N ys"
    by (subst ns) (use dist yl y in \<open>simp add: nd_entry_def\<close>)
  moreover have "sl_entries ?N ns = sl_entries ?N (below ?N key ns) @ nd_entry (?N ! y) # sl_entries ?N ys"
    by (subst ns) simp
  ultimately show ?thesis
    using put below_entries [of ?N key ns] y above_entries [of ?N ns key] inv
    by (auto simp: upd_sorted_split nd_entry_def sl_inv_def)
qed

text \<open>Inserting a new node.\<close>

lemma above_absent:
  assumes "keys_sorted N ns" "above N key ns = [] \<or> ky N (hd (above N key ns)) \<noteq> key"
  shows "\<forall>y \<in> set (above N key ns). key < ky N y"
  using above_entries [OF assms(1), of key] assms(2)
  by (auto simp: sl_entries_def nd_entry_def)

lemma pred_at_cong:
  "(\<And>x. x \<in> set xs \<Longrightarrow> ht M x = ht N x) \<Longrightarrow> pred_at M i xs = pred_at N i xs"
  by (simp add: pred_at_def cong: filter_cong)

lemma chain_cong:
  assumes "\<And>x. x \<in> set (y # suf) \<Longrightarrow> M ! x = N ! x"
  shows "chain M y suf = chain N y suf"
  using assms
proof (induction suf arbitrary: y)
  case Nil
  then show ?case by (simp add: chain_Nil)
next
  case (Cons a suf)
  then have "find (\<lambda>z. i < ht M z) (a # suf) = find (\<lambda>z. i < ht N z) (a # suf)" for i
    by (intro find_cong_ht) auto
  with Cons show ?case by (simp add: chain_Cons del: find.simps)
qed

lemma insert_inv:
  assumes inv: "sl_inv s ns" and lev: "1 \<le> level" "level \<le> maxHeight"
    and absent: "\<forall>y \<in> set (above (sl_nodes s) key ns). key < ky (sl_nodes s) y"
    and nd: "nd_key nd = key" "nd_forward nd = replicate level None"
  defines "n \<equiv> length (sl_nodes s)" and "N \<equiv> sl_nodes s @ [nd]"
  defines "M \<equiv> linked (\<lambda>i. pred_at N i (0 # below (sl_nodes s) key ns)) [0..<level] n N"
  defines "ns' \<equiv> below (sl_nodes s) key ns @ n # above (sl_nodes s) key ns"
  shows "sl_inv \<lparr>sl_nodes = M, sl_height = max (sl_height s) level, sl_length = sl_length s + 1,
      sl_rnd = rnd\<rparr> ns'"
    and "sl_entries M ns' = sl_entries (sl_nodes s) (below (sl_nodes s) key ns) @ nd_entry nd #
      sl_entries (sl_nodes s) (above (sl_nodes s) key ns)"
proof -
  let ?L = "below (sl_nodes s) key ns" and ?R = "above (sl_nodes s) key ns"
  note i = inv [unfolded sl_inv_def]
  have LR: "set ?L \<union> set ?R = set ns" "distinct (?L @ ?R)" "length ?L + length ?R = length ns"
    using i below_above [of "sl_nodes s" key ns]
    by (metis set_append, metis, metis length_append)
  have old: "N ! x = sl_nodes s ! x" if "x \<in> set (0 # ?L @ ?R)" for x
    using that LR(1) i by (auto simp: N_def nth_append)
  have new: "N ! n = nd" by (simp add: N_def n_def)
  have in': "x < length N" if "x \<in> set (0 # ns')" for x
    using that LR(1) i by (auto simp: N_def ns'_def n_def)
  have d: "distinct (0 # ?L @ n # ?R)"
    using LR i by (auto simp: n_def)
  have "chain N 0 (?L @ ?R)"
    using i old by (subst chain_cong [of 0 _ _ "sl_nodes s"]) (auto simp: below_above)
  then have "chain M 0 ns'"
    unfolding M_def ns'_def using d in' nd lev new old i
    by (intro chain_linked) (auto simp: ns'_def)
  moreover have "keys_sorted M ns'"
  proof -
    have "keys_sorted M ns' = keys_sorted N ns'"
      using in' by (intro keys_sorted_cong) (auto simp: M_def)
    moreover have "keys_sorted (sl_nodes s) (?L @ ?R)" using i by (simp add: below_above)
    then have "keys_sorted N (?L @ ?R)"
      using old by (subst keys_sorted_cong [of _ _ "sl_nodes s"]) auto
    then have "keys_sorted N ns'"
      using old new nd absent below_less [of "sl_nodes s" key ns]
      by (auto simp: keys_sorted_def ns'_def sorted_wrt_append)
    ultimately show ?thesis by simp
  qed
  moreover have lenM: "length M = Suc n" by (simp add: M_def N_def n_def)
  moreover have "set ns' = {0<..<Suc n}"
  proof -
    have "set ns' = insert n (set ns)" using LR(1) by (auto simp: ns'_def)
    also have "\<dots> = insert n {0<..<n}" using i by (simp add: n_def)
    finally show ?thesis using i by (auto simp: n_def)
  qed
  moreover have "distinct ns'" using d by (simp add: ns'_def)
  moreover have "sl_length s + 1 = length ns'" using LR(3) i by (simp add: ns'_def)
  moreover have "ht M 0 = maxHeight" using in' [of 0] old [of 0] i by (simp add: M_def)
  moreover have "1 \<le> ht M x \<and> ht M x \<le> max (sl_height s) level" if x: "x \<in> set ns'" for x
  proof -
    have "ht M x = (if x = n then level else ht (sl_nodes s) x)"
      using x in' [of x] old [of x] new nd by (auto simp: M_def ns'_def)
    moreover have "x \<noteq> n \<Longrightarrow> x \<in> set ns" using x LR(1) by (auto simp: ns'_def)
    then have "x \<noteq> n \<Longrightarrow> 1 \<le> ht (sl_nodes s) x \<and> ht (sl_nodes s) x \<le> sl_height s"
      using i by blast
    ultimately show ?thesis using lev by (auto simp del: One_nat_def)
  qed
  moreover have "M \<noteq> []" using lenM by auto
  ultimately show "sl_inv \<lparr>sl_nodes = M, sl_height = max (sl_height s) level,
      sl_length = sl_length s + 1, sl_rnd = rnd\<rparr> ns'"
    using i lev by (simp add: sl_inv_def)
  have "nd_entry (M ! x) = nd_entry (N ! x)" if "x \<in> set (0 # ns')" for x
    using in' [OF that] by (simp add: M_def)
  moreover have "sl_entries N xs = sl_entries (sl_nodes s) xs" if "set xs \<subseteq> set (?L @ ?R)" for xs
    using that old by (intro sl_entries_cong) auto
  ultimately show "sl_entries M ns' = sl_entries (sl_nodes s) ?L @ nd_entry nd # sl_entries (sl_nodes s) ?R"
    using new by (subst sl_entries_cong [of _ _ N]) (auto simp: ns'_def)
qed

lemma put_new_inserts:
  assumes inv: "sl_inv s ns"
    and absent: "\<forall>y \<in> set (above (sl_nodes s) key ns). key < ky (sl_nodes s) y"
    and update: "length update = maxHeight"
      "\<forall>j < sl_height s. update ! j = Some (pred_at (sl_nodes s) j (0 # below (sl_nodes s) key ns))"
  shows "\<exists>s' ns'. put_new key value seq deleted update s = Some (entrySize key value, s')
    \<and> sl_inv s' ns'
    \<and> sl_entries (sl_nodes s') ns' = upd_sorted key (value, seq, deleted) (sl_entries (sl_nodes s) ns)"
proof -
  let ?L = "below (sl_nodes s) key ns" and ?R = "above (sl_nodes s) key ns"
  obtain level rnd where r: "randomLevel 1 (sl_rnd s) = (level, rnd)" by fastforce
  have lev: "1 \<le> level" "level \<le> maxHeight"
    using randomLevel_range [of 1 "sl_rnd s"] r by (auto simp: maxHeight_def)
  define nd where "nd = \<lparr>nd_key = key, nd_value = value, nd_deleted = deleted, nd_seq = seq,
    nd_forward = replicate level (None :: nat option)\<rparr>"
  define N where "N = sl_nodes s @ [nd]"
  define up where "up = (if sl_height s < level then fill_head [sl_height s..<level] update else update)"
  let ?n = "length (sl_nodes s)" and ?p = "\<lambda>i. pred_at N i (0 # ?L)"
  note i = inv [unfolded sl_inv_def]
  have L: "set (0 # ?L) \<subseteq> set (0 # ns)" by (auto simp: below_def dest: set_takeWhileD)
  have old: "N ! x = sl_nodes s ! x \<and> x < ?n" if "x \<in> set (0 # ns)" for x
    using that i by (auto simp: N_def nth_append)
  have p: "?p j = pred_at (sl_nodes s) j (0 # ?L)" for j
    using L old by (intro pred_at_cong) (metis subsetD)
  have pin: "?p j \<in> set (0 # ?L) \<and> j < ht N (?p j)" if "j < level" for j
  proof (intro pred_at_in bexI)
    show "j < ht N 0" using that lev(2) i old [of 0] by simp
  qed simp
  have high: "?p j = 0" if "sl_height s \<le> j" "j < level" for j
  proof -
    have "\<not> j < ht (sl_nodes s) x" if "x \<in> set ?L" for x
    proof -
      have "x \<in> set ns" using that by (auto simp: below_def dest: set_takeWhileD)
      with i have "ht (sl_nodes s) x \<le> sl_height s" by blast
      with \<open>sl_height s \<le> j\<close> show ?thesis by simp
    qed
    then have "filter (\<lambda>x. j < ht (sl_nodes s) x) ?L = []" by (simp add: filter_empty_conv)
    moreover have "j < ht (sl_nodes s) 0" using that(2) lev(2) i by simp
    ultimately show ?thesis unfolding p by (simp add: pred_at_def)
  qed
  have sub: "set [sl_height s..<level] \<subseteq> {..<length update}"
    using lev(2) update(1) by auto
  have up: "up ! j = Some (?p j)" if "j < level" for j
    using that update lev(2) high [of j] p [of j] fill_head_nth [OF sub, of j]
    by (cases "sl_height s \<le> j") (auto simp: up_def)
  have "link [0..<level] up ?n N = Some (linked ?p [0..<level] ?n N)"
  proof (intro link_linked ballI)
    fix j assume "j \<in> set [0..<level]"
    then have j: "j < level" by simp
    with pin L have "?p j \<in> set (0 # ns)" by blast
    then have "?p j < ?n" using old by blast
    then show "up ! j = Some (?p j) \<and> ?p j < length N \<and> ?p j \<noteq> ?n \<and> j < ht N (?p j)"
      using up [OF j] pin [OF j] by (simp add: N_def)
  qed (simp_all add: N_def)
  then have "put_new key value seq deleted update s = Some (entrySize key value,
      \<lparr>sl_nodes = linked ?p [0..<level] ?n N, sl_height = max (sl_height s) level,
       sl_length = sl_length s + 1, sl_rnd = rnd\<rparr>)"
    unfolding put_new_def Let_def r prod.case
      nd_def [symmetric] N_def [symmetric] up_def [symmetric]
    by (simp add: max_def)
  moreover have "nd_key nd = key" "nd_forward nd = replicate level None" by (simp_all add: nd_def)
  note ins = insert_inv(1) [OF inv lev absent this, of rnd, folded N_def]
    insert_inv(2) [OF inv lev absent this, folded N_def]
  moreover have "upd_sorted key (value, seq, deleted) (sl_entries (sl_nodes s) ns) =
      sl_entries (sl_nodes s) ?L @ nd_entry nd # sl_entries (sl_nodes s) ?R"
    using upd_sorted_split(1) [OF below_entries [of "sl_nodes s" key ns],
        of "sl_entries (sl_nodes s) ?R" "(value, seq, deleted)"] absent
    by (simp add: nd_def nd_entry_def sl_entries_def below_above flip: map_append)
  ultimately show ?thesis using ins by (intro exI conjI) auto
qed

text \<open>
  \<open>put\<close> always returns, keeps the invariant and updates the sorted association list; the
  size delta is the size of the new entry minus that of the entry it replaces.
\<close>

definition entry_delta :: "bytes \<Rightarrow> bytes \<Rightarrow> (bytes \<times> bytes \<times> uint64 \<times> bool) list \<Rightarrow> int" where
  "entry_delta key value es = entrySize key value -
     (case map_of es key of None \<Rightarrow> 0 | Some (v, _) \<Rightarrow> entrySize key v)"

lemma map_of_entries:
  assumes "keys_sorted N ns"
  shows "map_of (sl_entries N ns) key = (case above N key ns of
      [] \<Rightarrow> None | y # ys \<Rightarrow> if ky N y = key then Some (snd (nd_entry (N ! y))) else None)"
proof -
  have ns: "sl_entries N ns = sl_entries N (below N key ns) @ sl_entries N (above N key ns)"
    by (simp add: below_above flip: sl_entries_append)
  then have "map_of (sl_entries N ns) key = map_of (sl_entries N (above N key ns)) key"
    using assms below_entries [of N key ns]
    by (metis map_of_sorted_append sl_entries_sorted)
  moreover have "map_of (sl_entries N ys) key = None" if "above N key ns = y # ys" for y ys
    using above_entries [OF assms, of key] that by (fastforce simp: map_of_eq_None_iff)
  ultimately show ?thesis by (auto simp: nd_entry_def split: list.split)
qed

lemma put_refines:
  assumes inv: "sl_inv s ns"
  shows "\<exists>s' ns'. put key value seq deleted s =
      Some (entry_delta key value (sl_entries (sl_nodes s) ns), s')
    \<and> sl_inv s' ns'
    \<and> sl_entries (sl_nodes s') ns' = upd_sorted key (value, seq, deleted) (sl_entries (sl_nodes s) ns)"
proof -
  have ks: "keys_sorted (sl_nodes s) ns" using inv by (simp add: sl_inv_def)
  show ?thesis
  proof (cases "above (sl_nodes s) key ns = [] \<or> ky (sl_nodes s) (hd (above (sl_nodes s) key ns)) \<noteq> key")
    case True
    obtain update where u: "search (sl_nodes s) key (sl_height s) 0 (replicate maxHeight None) =
        Some (last (0 # below (sl_nodes s) key ns), update)" "length update = maxHeight"
      "\<forall>j < sl_height s. update ! j = Some (pred_at (sl_nodes s) j (0 # below (sl_nodes s) key ns))"
      using search_from_head [OF inv, of key] by blast
    have "put key value seq deleted s = put_new key value seq deleted update s"
      using u(1) True
      by (auto simp: put_def forward_from_last [OF inv] Let_def simp del: last.simps split: list.split)
    moreover have "entry_delta key value (sl_entries (sl_nodes s) ns) = entrySize key value"
      using True by (auto simp: entry_delta_def map_of_entries [OF ks] split: list.split)
    ultimately show ?thesis
      using put_new_inserts [OF inv above_absent [OF ks True] u(2,3)] by simp
  next
    case False
    then obtain y ys where y: "above (sl_nodes s) key ns = y # ys" "ky (sl_nodes s) y = key"
      by (cases "above (sl_nodes s) key ns") auto
    then have "entry_delta key value (sl_entries (sl_nodes s) ns) =
        entrySize key value - entrySize key (nd_value (sl_nodes s ! y))"
      by (simp add: entry_delta_def map_of_entries [OF ks] nd_entry_def)
    with put_overwrite [OF inv y, of "value" seq deleted] show ?thesis by auto
  qed
qed

lemma get_refines:
  assumes inv: "sl_inv s ns"
  shows "\<exists>r. Skiplist.get key s = Some r
    \<and> map_option (\<lambda>nd. snd (nd_entry nd)) r = map_of (sl_entries (sl_nodes s) ns) key"
proof -
  have ks: "keys_sorted (sl_nodes s) ns" using inv by (simp add: sl_inv_def)
  obtain update where "search (sl_nodes s) key (sl_height s) 0 (replicate maxHeight None) =
      Some (last (0 # below (sl_nodes s) key ns), update)"
    using search_from_head [OF inv, of key] by blast
  then show ?thesis
    by (auto simp: get_def forward_from_last [OF inv] map_of_entries [OF ks] simp del: last.simps
        split: list.split)
qed

end
