(* ===== verification/Memtable.thy ===== *)
theory Memtable
  imports Skiplist
begin

text \<open>
  The memtable (\<open>src/memtable/memtable.go\<close>) and its iterator (\<open>src/memtable/iterator.go\<close>) over the
  skip list. An operation returns \<open>None\<close> when the code would panic or not return. The contract the
  storage engine relies on is the locale \<open>ordered_store\<close>, interpreted at the end on these
  definitions.
\<close>

section \<open>The memtable\<close>

record Memtable =
  mt_list :: skipList
  mt_approxSize :: int

definition Memtable_New :: "(nat \<Rightarrow> bool) \<Rightarrow> Memtable" where
  "Memtable_New rnd = \<lparr>mt_list = newSkipList rnd, mt_approxSize = 0\<rparr>"

definition Memtable_Put :: "bytes \<Rightarrow> bytes \<Rightarrow> uint64 \<Rightarrow> Memtable \<Rightarrow> Memtable option" where
  "Memtable_Put key value seq m =
     (case put key value seq False (mt_list m) of
        None \<Rightarrow> None
      | Some (delta, l) \<Rightarrow> Some \<lparr>mt_list = l, mt_approxSize = mt_approxSize m + delta\<rparr>)"

definition Memtable_Delete :: "bytes \<Rightarrow> uint64 \<Rightarrow> Memtable \<Rightarrow> Memtable option" where
  "Memtable_Delete key seq m =
     (case put key [] seq True (mt_list m) of
        None \<Rightarrow> None
      | Some (delta, l) \<Rightarrow> Some \<lparr>mt_list = l, mt_approxSize = mt_approxSize m + delta\<rparr>)"

text \<open>The four results of \<open>Get\<close>; not found is the inner \<open>None\<close>.\<close>

definition Memtable_Get :: "bytes \<Rightarrow> Memtable \<Rightarrow> (bytes \<times> uint64 \<times> bool) option option" where
  "Memtable_Get key m =
     (case Skiplist.get key (mt_list m) of
        None \<Rightarrow> None
      | Some None \<Rightarrow> Some None
      | Some (Some n) \<Rightarrow> Some (Some (nd_value n, nd_seq n, nd_deleted n)))"

definition Memtable_ApproxSize :: "Memtable \<Rightarrow> int" where
  "Memtable_ApproxSize m = mt_approxSize m"

definition Memtable_Len :: "Memtable \<Rightarrow> nat" where
  "Memtable_Len m = sl_length (mt_list m)"

section \<open>The iterator\<close>

record entrySnapshot =
  es_key :: bytes
  es_value :: bytes
  es_deleted :: bool
  es_seq :: uint64

record Iterator =
  it_entries :: "entrySnapshot list"
  it_idx :: int

definition snapshot_of :: "node \<Rightarrow> entrySnapshot" where
  "snapshot_of n = \<lparr>es_key = nd_key n, es_value = nd_value n, es_deleted = nd_deleted n, es_seq = nd_seq n\<rparr>"

partial_function (option) collect :: "node list \<Rightarrow> nat \<Rightarrow> entrySnapshot list option" where
  "collect N x =
     (case forward_at N x 0 of
        None \<Rightarrow> None
      | Some None \<Rightarrow> Some []
      | Some (Some y) \<Rightarrow>
          Option.bind (collect N y) (\<lambda>es. Some (snapshot_of (N ! y) # es)))"

definition NewIterator :: "Memtable \<Rightarrow> Iterator option" where
  "NewIterator m =
     (case collect (sl_nodes (mt_list m)) 0 of
        None \<Rightarrow> None
      | Some es \<Rightarrow> Some \<lparr>it_entries = es, it_idx = - 1\<rparr>)"

definition Iterator_SeekToFirst :: "Iterator \<Rightarrow> Iterator" where
  "Iterator_SeekToFirst it = it\<lparr>it_idx := 0\<rparr>"

definition Iterator_Seek :: "bytes \<Rightarrow> Iterator \<Rightarrow> Iterator" where
  "Iterator_Seek target it =
     it\<lparr>it_idx := int (sort_Search (length (it_entries it))
       (\<lambda>i. 0 \<le> bytes_Compare (es_key (it_entries it ! i)) target))\<rparr>"

definition Iterator_Valid :: "Iterator \<Rightarrow> bool" where
  "Iterator_Valid it \<longleftrightarrow> 0 \<le> it_idx it \<and> it_idx it < int (length (it_entries it))"

definition Iterator_Next :: "Iterator \<Rightarrow> Iterator" where
  "Iterator_Next it =
     (if it_idx it < int (length (it_entries it)) then it\<lparr>it_idx := it_idx it + 1\<rparr> else it)"

text \<open>The accessors index the slice, which panics out of range.\<close>

definition Iterator_current :: "Iterator \<Rightarrow> entrySnapshot option" where
  "Iterator_current it =
     (if Iterator_Valid it then Some (it_entries it ! nat (it_idx it)) else None)"

definition Iterator_Key :: "Iterator \<Rightarrow> bytes option" where
  "Iterator_Key it = map_option es_key (Iterator_current it)"

definition Iterator_Value :: "Iterator \<Rightarrow> bytes option" where
  "Iterator_Value it = map_option es_value (Iterator_current it)"

definition Iterator_Deleted :: "Iterator \<Rightarrow> bool option" where
  "Iterator_Deleted it = map_option es_deleted (Iterator_current it)"

definition Iterator_SeqNum :: "Iterator \<Rightarrow> uint64 option" where
  "Iterator_SeqNum it = map_option es_seq (Iterator_current it)"

text \<open>
  The loop every consumer writes: \<open>for it.SeekToFirst(); it.Valid(); it.Next()\<close>, here with the list of
  the entries it visits.
\<close>

function iterate :: "Iterator \<Rightarrow> entrySnapshot list" where
  "iterate it =
     (case Iterator_current it of
        None \<Rightarrow> []
      | Some e \<Rightarrow> e # iterate (Iterator_Next it))"
  by pat_completeness auto
termination
  by (relation "measure (\<lambda>it. nat (int (length (it_entries it)) - it_idx it))")
    (auto simp: Iterator_current_def Iterator_Valid_def Iterator_Next_def split: if_splits)

declare iterate.simps [simp del]

section \<open>The abstract value\<close>

definition es_entry :: "entrySnapshot \<Rightarrow> bytes \<times> bytes \<times> uint64 \<times> bool" where
  "es_entry e = (es_key e, es_value e, es_seq e, es_deleted e)"

definition mt_entries :: "Memtable \<Rightarrow> (bytes \<times> bytes \<times> uint64 \<times> bool) list" where
  "mt_entries m = (case NewIterator m of None \<Rightarrow> [] | Some it \<Rightarrow> map es_entry (it_entries it))"

definition entries_size :: "(bytes \<times> bytes \<times> uint64 \<times> bool) list \<Rightarrow> int" where
  "entries_size es = sum_list (map (\<lambda>(k, v, _, _). entrySize k v) es)"

definition mt_wf :: "Memtable \<Rightarrow> bool" where
  "mt_wf m \<longleftrightarrow> (\<exists>ns. sl_inv (mt_list m) ns)
     \<and> mt_approxSize m = entries_size (mt_entries m)"

lemma es_entry_snapshot [simp]: "es_entry (snapshot_of nd) = nd_entry nd"
  by (simp add: es_entry_def snapshot_of_def nd_entry_def)

lemma collect_chain:
  "chain N x ns \<Longrightarrow> \<forall>y \<in> set (x # ns). y < length N \<and> 0 < ht N y \<Longrightarrow>
     collect N x = Some (map (\<lambda>y. snapshot_of (N ! y)) ns)"
proof (induction ns arbitrary: x)
  case Nil
  then show ?case by (subst collect.simps) (simp add: chain_forward)
next
  case (Cons y ns)
  then have "collect N y = Some (map (\<lambda>y. snapshot_of (N ! y)) ns)"
    by (simp add: chain_Cons)
  moreover have "forward_at N x 0 = Some (Some y)"
    using Cons.prems by (subst chain_forward) auto
  ultimately show ?case by (subst collect.simps) simp
qed

lemma NewIterator_inv:
  assumes "sl_inv (mt_list m) ns"
  shows "NewIterator m =
      Some \<lparr>it_entries = map (\<lambda>y. snapshot_of (sl_nodes (mt_list m) ! y)) ns, it_idx = - 1\<rparr>"
    and "mt_entries m = sl_entries (sl_nodes (mt_list m)) ns"
proof -
  have "chain (sl_nodes (mt_list m)) 0 ns" using assms by (simp add: sl_inv_def)
  then have "collect (sl_nodes (mt_list m)) 0 =
      Some (map (\<lambda>y. snapshot_of (sl_nodes (mt_list m) ! y)) ns)"
    using sl_inv_node [OF assms] by (intro collect_chain) auto
  then show *: "NewIterator m =
      Some \<lparr>it_entries = map (\<lambda>y. snapshot_of (sl_nodes (mt_list m) ! y)) ns, it_idx = - 1\<rparr>"
    by (simp add: NewIterator_def)
  show "mt_entries m = sl_entries (sl_nodes (mt_list m)) ns"
    by (simp add: mt_entries_def * sl_entries_def comp_def)
qed

lemma entries_size_upd:
  "sorted_keys es \<Longrightarrow>
     entries_size (upd_sorted k (v, q, d) es) = entries_size es + entry_delta k v es"
proof (induction es)
  case Nil
  then show ?case by (simp add: entries_size_def entry_delta_def)
next
  case (Cons e es)
  obtain k' v' q' d' where e: "e = (k', v', q', d')" by (cases e)
  have "k < k' \<Longrightarrow> map_of es k = None"
    using Cons.prems e by (fastforce simp: map_of_eq_None_iff dest: less_trans)
  with Cons e show ?case
    by (auto simp: entries_size_def entry_delta_def split: option.splits)
qed

lemma mt_wf_New: "mt_wf (Memtable_New rnd)" "mt_entries (Memtable_New rnd) = []"
  using sl_inv_newSkipList [of rnd] NewIterator_inv(2) [of "Memtable_New rnd" "[]"]
  by (auto simp: mt_wf_def Memtable_New_def entries_size_def)

lemma mt_entries_sorted: "mt_wf m \<Longrightarrow> sorted_keys (mt_entries m)"
  using NewIterator_inv(2) by (metis mt_wf_def sl_entries_sorted sl_inv_def)

lemma put_on_memtable:
  assumes "mt_wf m"
  shows "\<exists>delta l. put key value seq deleted (mt_list m) = Some (delta, l)
    \<and> mt_wf \<lparr>mt_list = l, mt_approxSize = mt_approxSize m + delta\<rparr>
    \<and> mt_entries \<lparr>mt_list = l, mt_approxSize = mt_approxSize m + delta\<rparr> =
        upd_sorted key (value, seq, deleted) (mt_entries m)"
proof -
  obtain ns where ns: "sl_inv (mt_list m) ns" and sz: "mt_approxSize m = entries_size (mt_entries m)"
    using assms by (auto simp: mt_wf_def)
  note es = NewIterator_inv(2) [OF ns]
  obtain l ns' where l: "put key value seq deleted (mt_list m) = Some (entry_delta key value (mt_entries m), l)"
    "sl_inv l ns'" "sl_entries (sl_nodes l) ns' = upd_sorted key (value, seq, deleted) (mt_entries m)"
    using put_refines [OF ns, of key "value" seq deleted] es by auto
  let ?m = "\<lparr>mt_list = l, mt_approxSize = mt_approxSize m + entry_delta key value (mt_entries m)\<rparr>"
  have e': "mt_entries ?m = upd_sorted key (value, seq, deleted) (mt_entries m)"
    using NewIterator_inv(2) [of ?m ns'] l by simp
  then have "mt_wf ?m"
    using l(2) sz mt_entries_sorted [OF assms] by (auto simp: mt_wf_def entries_size_upd)
  with l(1) e' show ?thesis by blast
qed

lemma Memtable_Put_wf:
  assumes "mt_wf m"
  shows "\<exists>m'. Memtable_Put key value seq m = Some m' \<and> mt_wf m'
    \<and> mt_entries m' = upd_sorted key (value, seq, False) (mt_entries m)"
  using put_on_memtable [OF assms, of key "value" seq False] by (auto simp: Memtable_Put_def)

lemma Memtable_Delete_wf:
  assumes "mt_wf m"
  shows "\<exists>m'. Memtable_Delete key seq m = Some m' \<and> mt_wf m'
    \<and> mt_entries m' = upd_sorted key ([], seq, True) (mt_entries m)"
  using put_on_memtable [OF assms, of key "[]" seq True] by (auto simp: Memtable_Delete_def)

lemma Memtable_Get_wf:
  assumes "mt_wf m"
  shows "Memtable_Get key m = Some (map_of (mt_entries m) key)"
proof -
  obtain ns where ns: "sl_inv (mt_list m) ns" using assms by (auto simp: mt_wf_def)
  obtain r where "Skiplist.get key (mt_list m) = Some r"
    "map_option (\<lambda>nd. snd (nd_entry nd)) r = map_of (mt_entries m) key"
    using get_refines [OF ns, of key] NewIterator_inv(2) [OF ns] by auto
  then show ?thesis by (cases r) (auto simp: Memtable_Get_def nd_entry_def)
qed

lemma Memtable_Len_wf: "mt_wf m \<Longrightarrow> Memtable_Len m = length (mt_entries m)"
  using NewIterator_inv(2) unfolding Memtable_Len_def
  by (metis length_map mt_wf_def sl_entries_def sl_inv_def)

section \<open>Iteration\<close>

lemma iterate_drop:
  "0 \<le> it_idx it \<Longrightarrow> iterate it = drop (nat (it_idx it)) (it_entries it)"
proof (induction it rule: iterate.induct)
  case (1 it)
  show ?case
  proof (cases "Iterator_Valid it")
    case True
    then have lt: "nat (it_idx it) < length (it_entries it)" by (auto simp: Iterator_Valid_def)
    have "iterate (Iterator_Next it) = drop (nat (it_idx it + 1)) (it_entries it)"
      using 1 True by (auto simp: Iterator_current_def Iterator_Next_def Iterator_Valid_def)
    with True lt 1(2) show ?thesis
      by (simp add: iterate.simps [of it] Iterator_current_def Cons_nth_drop_Suc nat_add_distrib)
  next
    case False
    with 1(2) show ?thesis
      by (auto simp: iterate.simps [of it] Iterator_current_def Iterator_Valid_def)
  qed
qed

lemma iterate_SeekToFirst: "iterate (Iterator_SeekToFirst it) = it_entries it"
  by (simp add: iterate_drop Iterator_SeekToFirst_def)

lemma iterate_Seek:
  assumes "sorted_wrt (<) (map es_key (it_entries it))"
  shows "iterate (Iterator_Seek target it) =
    filter (\<lambda>e. target \<le> es_key e) (it_entries it)"
proof -
  have "sorted_wrt (\<lambda>x y. target \<le> es_key x \<longrightarrow> target \<le> es_key y) (it_entries it)"
    using assms unfolding sorted_wrt_map by (rule sorted_wrt_mono_rel [rotated]) auto
  from sort_Search_partition(2) [OF this] show ?thesis
    by (simp add: iterate_drop Iterator_Seek_def)
qed

section \<open>The contract with the storage engine\<close>

text \<open>
  An ordered store keeps one value, sequence number and tombstone flag per key. The laws say what
  each operation does to the sorted list of entries; the clients' lemmas about sequences of writes
  follow from the laws alone.
\<close>

type_synonym stored = "bytes \<times> uint64 \<times> bool"

datatype mutation = WPut bytes bytes uint64 | WDelete bytes uint64

primrec write_key :: "mutation \<Rightarrow> bytes" where
  "write_key (WPut k v q) = k"
| "write_key (WDelete k q) = k"

primrec write_stored :: "mutation \<Rightarrow> stored" where
  "write_stored (WPut k v q) = (v, q, False)"
| "write_stored (WDelete k q) = ([], q, True)"

fun apply_writes ::
  "(bytes \<Rightarrow> bytes \<Rightarrow> uint64 \<Rightarrow> 's \<Rightarrow> 's option) \<Rightarrow> (bytes \<Rightarrow> uint64 \<Rightarrow> 's \<Rightarrow> 's option) \<Rightarrow>
   mutation list \<Rightarrow> 's \<Rightarrow> 's option" where
  "apply_writes pt dl [] s = Some s"
| "apply_writes pt dl (w # ws) s =
     Option.bind (case w of WPut k v q \<Rightarrow> pt k v q s | WDelete k q \<Rightarrow> dl k q s) (apply_writes pt dl ws)"

definition upd_writes :: "mutation list \<Rightarrow> (bytes \<times> stored) list \<Rightarrow> (bytes \<times> stored) list" where
  "upd_writes ws es = fold (\<lambda>w. upd_sorted (write_key w) (write_stored w)) ws es"

lemma map_of_upd_writes:
  "map_of (upd_writes ws es) = map_of es ++ map_of (rev (map (\<lambda>w. (write_key w, write_stored w)) ws))"
  unfolding upd_writes_def
proof (induction ws arbitrary: es)
  case (Cons w ws)
  show ?case
    unfolding fold_Cons comp_def Cons.IH by (rule ext) (simp add: map_add_def split: option.split)
qed simp

locale ordered_store =
  fixes wf :: "'s \<Rightarrow> bool"
    and entries :: "'s \<Rightarrow> (bytes \<times> stored) list"
    and pt :: "bytes \<Rightarrow> bytes \<Rightarrow> uint64 \<Rightarrow> 's \<Rightarrow> 's option"
    and dl :: "bytes \<Rightarrow> uint64 \<Rightarrow> 's \<Rightarrow> 's option"
    and gt :: "bytes \<Rightarrow> 's \<Rightarrow> stored option option"
  assumes sorted_entries: "wf s \<Longrightarrow> sorted_keys (entries s)"
    and pt_law: "wf s \<Longrightarrow> \<exists>s'. pt k v q s = Some s' \<and> wf s' \<and> entries s' = upd_sorted k (v, q, False) (entries s)"
    and dl_law: "wf s \<Longrightarrow> \<exists>s'. dl k q s = Some s' \<and> wf s' \<and> entries s' = upd_sorted k ([], q, True) (entries s)"
    and gt_law: "wf s \<Longrightarrow> gt k s = Some (map_of (entries s) k)"
begin

lemma write_law:
  "wf s \<Longrightarrow> \<exists>s'. (case w of WPut k v q \<Rightarrow> pt k v q s | WDelete k q \<Rightarrow> dl k q s) = Some s' \<and> wf s'
     \<and> entries s' = upd_sorted (write_key w) (write_stored w) (entries s)"
  using pt_law dl_law by (cases w) auto

lemma writes_return:
  "wf s \<Longrightarrow> \<exists>s'. apply_writes pt dl ws s = Some s' \<and> wf s' \<and> entries s' = upd_writes ws (entries s)"
proof (induction ws arbitrary: s)
  case (Cons w ws)
  then obtain s1 where "(case w of WPut k v q \<Rightarrow> pt k v q s | WDelete k q \<Rightarrow> dl k q s) = Some s1" "wf s1"
    "entries s1 = upd_sorted (write_key w) (write_stored w) (entries s)"
    using write_law by blast
  with Cons.IH [of s1] show ?case by (auto simp: upd_writes_def)
qed (simp add: upd_writes_def)

lemma read_after_writes:
  assumes "wf s"
  shows "\<exists>s'. apply_writes pt dl ws s = Some s' \<and> gt k s' =
    Some (case map_of (rev (map (\<lambda>w. (write_key w, write_stored w)) ws)) k of
            None \<Rightarrow> map_of (entries s) k | Some e \<Rightarrow> Some e)"
  using writes_return [OF assms, of ws] gt_law by (auto simp: map_of_upd_writes map_add_def)

end

interpretation mt: ordered_store mt_wf mt_entries Memtable_Put Memtable_Delete Memtable_Get
  by unfold_locales
    (simp_all add: mt_entries_sorted Memtable_Put_wf Memtable_Delete_wf Memtable_Get_wf)

section \<open>Properties\<close>

text \<open>
  C8. After any sequence of \<open>Put\<close> and \<open>Delete\<close> calls on a new memtable, whatever levels the coin flips
  give, every call has returned and \<open>Get\<close> returns for every key the value, sequence number and tombstone
  flag of the last call for that key, and not found where there was none.
\<close>

theorem memtable_last_write_wins:
  "\<exists>m. apply_writes Memtable_Put Memtable_Delete ws (Memtable_New rnd) = Some m
     \<and> (\<forall>k. Memtable_Get k m = Some (map_of (rev (map (\<lambda>w. (write_key w, write_stored w)) ws)) k))"
  using mt.writes_return [OF mt_wf_New(1) [of rnd], of ws] Memtable_Get_wf
  by (auto simp: mt_wf_New map_of_upd_writes)

text \<open>
  C9. The iterator of a memtable built by any sequence of calls: \<open>SeekToFirst\<close> and \<open>Next\<close> visit exactly
  the live entries, in strictly increasing key order; \<open>Seek\<close> starts at the first key not below the target;
  \<open>Len\<close> is their number and \<open>ApproxSize\<close> the sum of their sizes.
\<close>

theorem memtable_iterates_in_order:
  "\<exists>m it. apply_writes Memtable_Put Memtable_Delete ws (Memtable_New rnd) = Some m
     \<and> NewIterator m = Some it
     \<and> map es_entry (iterate (Iterator_SeekToFirst it)) = upd_writes ws []
     \<and> sorted_keys (map es_entry (iterate (Iterator_SeekToFirst it)))
     \<and> iterate (Iterator_Seek target it) =
         filter (\<lambda>e. target \<le> es_key e) (iterate (Iterator_SeekToFirst it))
     \<and> Memtable_Len m = length (upd_writes ws [])
     \<and> Memtable_ApproxSize m = entries_size (upd_writes ws [])"
proof -
  obtain m where m: "apply_writes Memtable_Put Memtable_Delete ws (Memtable_New rnd) = Some m"
    "mt_wf m" "mt_entries m = upd_writes ws []"
    using mt.writes_return [OF mt_wf_New(1) [of rnd], of ws] by (auto simp: mt_wf_New)
  then obtain ns where "sl_inv (mt_list m) ns" by (auto simp: mt_wf_def)
  from NewIterator_inv(1) [OF this] obtain it where it: "NewIterator m = Some it" by blast
  with m(3) have es: "map es_entry (it_entries it) = upd_writes ws []" by (simp add: mt_entries_def)
  have sk: "sorted_keys (upd_writes ws [])" using mt_entries_sorted [OF m(2)] m(3) by simp
  then have "sorted_wrt (<) (map es_key (it_entries it))"
    by (simp add: sorted_keys_def es_entry_def comp_def flip: es)
  from iterate_Seek [OF this] m it es sk show ?thesis
    using Memtable_Len_wf [OF m(2)]
    by (auto simp: iterate_SeekToFirst Memtable_ApproxSize_def mt_wf_def)
qed

end
