(* ===== verification/Sst_Block.thy ===== *)
theory Sst_Block
  imports Go_Std
begin

text \<open>
  The entries of a data block and the index block of a sorted table (\<open>src/sstable/block.go\<close>). Lengths of
  slices are Go \<open>int\<close>s, natural numbers here; \<open>go_len\<close> says that a slice has less than \<open>2^63\<close> bytes.
\<close>

section \<open>Entries\<close>

text \<open>The errors the package returns; \<open>SstNoReturn\<close> stands for a call that panics or does not end.\<close>

datatype sst_error =
    ErrCorruptEntry
  | ErrCorruptIndex
  | ErrCorruptBloom
  | ErrSstCreate
  | ErrAddAfterFinish
  | ErrDuplicateKey
  | ErrOutOfOrder
  | ErrSstWrite
  | ErrFinishTwice
  | ErrSstFlush
  | ErrSstFsync
  | ErrSstClose
  | ErrSstOpen
  | ErrSstStat
  | ErrTooSmall
  | ErrReadFooter
  | ErrBadMagic
  | ErrBlockTooSmall
  | ErrReadAt
  | ErrChecksum
  | SstNoReturn

definition entryPut :: byte where
  "entryPut = 0"

definition entryDelete :: byte where
  "entryDelete = 1"

record decodedEntry =
  de_key :: bytes
  de_value :: bytes
  de_seq :: uint64
  de_deleted :: bool

definition encodeEntry :: "bytes \<Rightarrow> bytes \<Rightarrow> uint64 \<Rightarrow> bool \<Rightarrow> bytes" where
  "encodeEntry key val seq deleted =
     PutUvarint (length key) @ key @ [if deleted then entryDelete else entryPut]
     @ PutUvarint (unat seq) @ PutUvarint (length val) @ val"

definition decodeEntry :: "bytes \<Rightarrow> sst_error + decodedEntry \<times> nat" where
  "decodeEntry data =
     (let (keyLen, n) = Uvarint data
      in if n \<le> 0 then Inl ErrCorruptEntry
         else
           let off = nat n
           in if length data - off < unat keyLen then Inl ErrCorruptEntry
              else
                let key = take (unat keyLen) (drop off data); off = off + unat keyLen
                in if length data \<le> off then Inl ErrCorruptEntry
                   else
                     let deleted = (data ! off = entryDelete); off = off + 1;
                         (seq, n2) = Uvarint (drop off data)
                     in if n2 \<le> 0 then Inl ErrCorruptEntry
                        else
                          let off = off + nat n2; (valLen, n3) = Uvarint (drop off data)
                          in if n3 \<le> 0 then Inl ErrCorruptEntry
                             else
                               let off = off + nat n3
                               in if length data - off < unat valLen then Inl ErrCorruptEntry
                                  else Inr (\<lparr>de_key = key, de_value = take (unat valLen) (drop off data),
                                             de_seq = seq, de_deleted = deleted\<rparr>, off + unat valLen))"

section \<open>The index\<close>

record indexEntry =
  ie_lastKey :: bytes
  ie_offset :: uint64
  ie_length :: uint64

definition encode_index_entry :: "indexEntry \<Rightarrow> bytes" where
  "encode_index_entry e = PutUvarint (length (ie_lastKey e)) @ ie_lastKey e @ PutUint64 (ie_offset e) @ PutUint64 (ie_length e)"

definition encodeIndex :: "indexEntry list \<Rightarrow> bytes" where
  "encodeIndex entries = concat (map encode_index_entry entries)"

text \<open>One round of the loop of \<open>decodeIndex\<close>: an entry and the bytes after it.\<close>

definition decode_index_entry :: "bytes \<Rightarrow> sst_error + indexEntry \<times> bytes" where
  "decode_index_entry data =
     (let (keyLen, n) = Uvarint data
      in if n \<le> 0 then Inl ErrCorruptIndex
         else
           let rest = drop (nat n) data
           in if length rest < unat keyLen then Inl ErrCorruptIndex
              else
                let key = take (unat keyLen) rest; rest = drop (unat keyLen) rest
                in if length rest < 16 then Inl ErrCorruptIndex
                   else Inr (\<lparr>ie_lastKey = key, ie_offset = Uint64 rest, ie_length = Uint64 (drop 8 rest)\<rparr>, drop 16 rest))"

lemma decode_index_entry_shorter: "decode_index_entry data = Inr (e, rest) \<Longrightarrow> length rest < length data"
  by (auto simp: decode_index_entry_def Let_def split: prod.splits if_splits)

function decodeIndex :: "bytes \<Rightarrow> sst_error + indexEntry list" where
  "decodeIndex data =
     (if data = [] then Inr []
      else sum_bind (decode_index_entry data) (\<lambda>(e, rest). sum_bind (decodeIndex rest) (\<lambda>es. Inr (e # es))))"
  by pat_completeness auto
termination
  by (relation "measure length") (auto dest: decode_index_entry_shorter)

declare decodeIndex.simps [simp del]

section \<open>Round trips\<close>

definition go_len :: "bytes \<Rightarrow> bool" where
  "go_len bs \<longleftrightarrow> length bs < 2 ^ 63"

lemma Uvarint_nat [simp]:
  assumes "n < 2 ^ 64"
  shows "Uvarint (PutUvarint n @ bs) = (word_of_nat n, int (length (PutUvarint n)))"
proof -
  have "unat (word_of_nat n :: uint64) = n" using assms by (intro unat_of_nat_small) simp
  then show ?thesis using Uvarint_PutUvarint [of "word_of_nat n" bs] by simp
qed

lemma Uvarint_length [simp]:
  assumes "go_len xs"
  shows "Uvarint (PutUvarint (length xs) @ bs) = (word_of_nat (length xs), int (length (PutUvarint (length xs))))"
    and "unat (word_of_nat (length xs) :: uint64) = length xs"
proof -
  have "length xs < 2 ^ 64" using assms by (simp add: go_len_def)
  then show "Uvarint (PutUvarint (length xs) @ bs) = (word_of_nat (length xs), int (length (PutUvarint (length xs))))"
    "unat (word_of_nat (length xs) :: uint64) = length xs" by simp_all
qed

lemma length_PutUvarint_pos [simp]: "0 < length (PutUvarint v)" "length (PutUvarint v) \<noteq> 0"
  by simp_all

lemma drop_add_append [simp]: "drop (length xs + n) (xs @ ys) = drop n ys"
  by simp

lemma decodeEntry_encodeEntry [codec_simps]:
  assumes "go_len key" "go_len val"
  shows "decodeEntry (encodeEntry key val seq deleted @ rest)
    = Inr (\<lparr>de_key = key, de_value = val, de_seq = seq, de_deleted = deleted\<rparr>, length (encodeEntry key val seq deleted))"
proof -
  let ?k = "PutUvarint (length key)" and ?t = "if deleted then entryDelete else entryPut"
  let ?s = "PutUvarint (unat seq)" and ?v = "PutUvarint (length val)"
  let ?data = "?k @ key @ ?t # ?s @ ?v @ val @ rest"
  have d: "encodeEntry key val seq deleted @ rest = ?data" by (simp add: encodeEntry_def)
  have drops: "drop (length ?k) ?data = key @ ?t # ?s @ ?v @ val @ rest"
    "drop (length ?k + length key + 1) ?data = ?s @ ?v @ val @ rest"
    "drop (length ?k + length key + 1 + length ?s) ?data = ?v @ val @ rest"
    "drop (length ?k + length key + 1 + length ?s + length ?v) ?data = val @ rest"
    by (simp_all add: add.assoc)
  have nth: "?data ! (length ?k + length key) = ?t" by (simp add: nth_append)
  have t: "(?t = entryDelete) = deleted" by (simp add: entryDelete_def entryPut_def)
  have u: "Uvarint ?data = (word_of_nat (length key), int (length ?k))" using assms(1) by simp
  have n: "\<not> int (length (PutUvarint v)) \<le> 0" for v by simp
  have len: "\<not> length ?data - length ?k < length key" "\<not> length ?data \<le> length ?k + length key"
    "\<not> length ?data - (length ?k + length key + 1 + length ?s + length ?v) < length val" by simp_all
  show ?thesis
    unfolding d decodeEntry_def
    by (simp only: u Let_def case_prod_conv n if_False nat_int Uvarint_length(2) [OF assms(1)] len drops nth t
        Uvarint_PutUvarint Uvarint_length [OF assms(2)] take_append_exact [OF refl])
      (simp add: encodeEntry_def)
qed

lemma decodeEntry_shorter:
  assumes "decodeEntry data = Inr (e, n)"
  shows "0 < n" "n \<le> length data"
proof -
  obtain keyLen k where 1: "Uvarint data = (keyLen, k)" "0 < k" "unat keyLen \<le> length data - nat k"
    using assms by (auto simp: decodeEntry_def Let_def split: prod.splits if_splits)
  let ?off = "nat k + unat keyLen + 1"
  obtain seq n2 where 2: "Uvarint (drop ?off data) = (seq, n2)" "0 < n2"
    using assms 1 by (auto simp: decodeEntry_def Let_def split: prod.splits if_splits)
  obtain valLen n3 where 3: "Uvarint (drop (?off + nat n2) data) = (valLen, n3)" "0 < n3"
    "unat valLen \<le> length data - (?off + nat n2 + nat n3)" "n = ?off + nat n2 + nat n3 + unat valLen"
    using assms 1 2 by (auto simp: decodeEntry_def Let_def split: prod.splits if_splits)
  show "0 < n" using 3(4) by simp
  have "nat n3 \<le> length data - (?off + nat n2)" using Uvarint_bound [OF 3(1,2)] by simp
  moreover have "nat n2 \<le> length data - ?off" using Uvarint_bound [OF 2] by simp
  ultimately have "?off + nat n2 + nat n3 \<le> length data" using 2(2) 3(2) by linarith
  then show "n \<le> length data" using 3(3,4) by linarith
qed

lemma decodeIndex_encodeIndex [codec_simps]:
  assumes "\<forall>e \<in> set es. go_len (ie_lastKey e)"
  shows "decodeIndex (encodeIndex es) = Inr es"
  using assms
proof (induction es)
  case Nil
  then show ?case by (simp add: encodeIndex_def decodeIndex.simps)
next
  case (Cons e es)
  let ?k = "PutUvarint (length (ie_lastKey e))" and ?rest = "encodeIndex es"
  have d: "encodeIndex (e # es) = ?k @ ie_lastKey e @ PutUint64 (ie_offset e) @ PutUint64 (ie_length e) @ ?rest"
    by (simp add: encodeIndex_def encode_index_entry_def)
  have "decode_index_entry (encodeIndex (e # es)) = Inr (e, ?rest)"
    using Cons.prems unfolding d decode_index_entry_def by (simp add: Let_def)
  moreover have "encodeIndex (e # es) \<noteq> []" by (simp add: d)
  ultimately show ?case
    using Cons by (subst decodeIndex.simps) simp
qed

section \<open>Blocks of entries\<close>

text \<open>The loop over a block, as the iterator runs it.\<close>

function decode_block :: "bytes \<Rightarrow> sst_error + decodedEntry list" where
  "decode_block data =
     (if data = [] then Inr []
      else sum_bind (decodeEntry data) (\<lambda>(e, n). sum_bind (decode_block (drop n data)) (\<lambda>es. Inr (e # es))))"
  by pat_completeness auto
termination
  by (relation "measure length") (auto dest: decodeEntry_shorter)

declare decode_block.simps [simp del]

definition enc :: "decodedEntry \<Rightarrow> bytes" where
  "enc e = encodeEntry (de_key e) (de_value e) (de_seq e) (de_deleted e)"

definition entry_ok :: "decodedEntry \<Rightarrow> bool" where
  "entry_ok e \<longleftrightarrow> go_len (de_key e) \<and> go_len (de_value e)"

lemma decodeEntry_enc: "entry_ok e \<Longrightarrow> decodeEntry (enc e @ rest) = Inr (e, length (enc e))"
  by (simp add: entry_ok_def enc_def decodeEntry_encodeEntry)

lemma enc_nonempty [simp]: "enc e \<noteq> []"
  by (simp add: enc_def encodeEntry_def)

lemma decode_block_encs:
  assumes "\<forall>e \<in> set es. entry_ok e"
  shows "decode_block (concat (map enc es)) = Inr es"
  using assms
proof (induction es)
  case Nil
  then show ?case by (simp add: decode_block.simps)
next
  case (Cons e es)
  then show ?case by (subst decode_block.simps) (simp add: decodeEntry_enc)
qed

end
