(* ===== verification/Sst_Bloom.thy ===== *)
theory Sst_Bloom
  imports Sst_Block
begin

text \<open>
  The Bloom filter of a sorted table (\<open>src/sstable/bloom.go\<close>). Its size and number of hash functions come
  from floating-point formulas; their results are the parameter \<open>floats\<close>, and everything is shown for all
  results. A panic on an index outside the bit array is \<open>None\<close>.
\<close>

section \<open>The filter\<close>

unbundle bit_operations_syntax

text \<open>\<open>uint64(math.Ceil(...))\<close> for \<open>n\<close> keys, and \<open>int(math.Round(...))\<close> for \<open>n\<close> keys and \<open>m\<close> bits.\<close>

record floats =
  fl_m :: "nat \<Rightarrow> uint64"
  fl_k :: "nat \<Rightarrow> uint64 \<Rightarrow> int"

record bloomFilter =
  bf_m :: uint64
  bf_k :: int
  bf_bits :: bytes

definition bloomParams :: "floats \<Rightarrow> nat \<Rightarrow> uint64 \<times> int" where
  "bloomParams fl n =
     (if n = 0 then (0, 0)
      else
        let m = (if fl_m fl n < 8 then 8 else fl_m fl n); k = fl_k fl n m;
            k = (if k < 1 then 1 else k); k = (if 30 < k then 30 else k)
        in (m, k))"

definition newBloomFilter :: "floats \<Rightarrow> nat \<Rightarrow> bloomFilter" where
  "newBloomFilter fl n =
     (let (m, k) = bloomParams fl n in \<lparr>bf_m = m, bf_k = k, bf_bits = replicate (unat ((m + 7) div 8)) 0\<rparr>)"

definition splitmix64 :: "uint64 \<Rightarrow> uint64" where
  "splitmix64 x =
     (let x = x + 0x9E3779B97F4A7C15;
          x = (x XOR drop_bit 30 x) * 0xBF58476D1CE4E5B9;
          x = (x XOR drop_bit 27 x) * 0x94D049BB133111EB
      in x XOR drop_bit 31 x)"

definition bloomHashes :: "bytes \<Rightarrow> uint64 \<times> uint64" where
  "bloomHashes key = (let h1 = fnv64a key in (h1, splitmix64 h1))"

text \<open>The bit that probe \<open>i\<close> of a key touches, and the loops over the probes.\<close>

definition probe :: "bloomFilter \<Rightarrow> bytes \<Rightarrow> nat \<Rightarrow> uint64" where
  "probe b key i = (let (h1, h2) = bloomHashes key in (h1 + word_of_nat i * h2) mod bf_m b)"

definition set_bit_at :: "uint64 \<Rightarrow> bytes \<Rightarrow> bytes option" where
  "set_bit_at idx bits =
     (let n = unat (idx div 8)
      in if n < length bits then Some (bits[n := bits ! n OR push_bit (unat (idx mod 8)) 1]) else None)"

definition test_bit_at :: "uint64 \<Rightarrow> bytes \<Rightarrow> bool option" where
  "test_bit_at idx bits =
     (let n = unat (idx div 8)
      in if n < length bits then Some (bits ! n AND push_bit (unat (idx mod 8)) 1 \<noteq> 0) else None)"

definition bloom_add :: "bytes \<Rightarrow> bloomFilter \<Rightarrow> bloomFilter option" where
  "bloom_add key b =
     (if bf_m b = 0 then Some b
      else map_option (\<lambda>bits. b\<lparr>bf_bits := bits\<rparr>)
             (fold_option (\<lambda>i. set_bit_at (probe b key i)) [0..<nat (bf_k b)] (bf_bits b)))"

fun probe_all :: "nat list \<Rightarrow> bytes \<Rightarrow> bloomFilter \<Rightarrow> bool option" where
  "probe_all [] key b = Some True"
| "probe_all (i # is) key b =
     (case test_bit_at (probe b key i) (bf_bits b) of
        None \<Rightarrow> None
      | Some False \<Rightarrow> Some False
      | Some True \<Rightarrow> probe_all is key b)"

definition mayContain :: "bytes \<Rightarrow> bloomFilter \<Rightarrow> bool option" where
  "mayContain key b = (if bf_m b = 0 then Some True else probe_all [0..<nat (bf_k b)] key b)"

definition bloom_encode :: "bloomFilter \<Rightarrow> bytes" where
  "bloom_encode b = PutUint32 (word_of_int (bf_k b)) @ PutUint64 (bf_m b) @ bf_bits b"

definition decodeBloomFilter :: "bytes \<Rightarrow> sst_error + bloomFilter" where
  "decodeBloomFilter data =
     (if length data < 12 then Inl ErrCorruptBloom
      else
        let k = Uint32 data; m = Uint64 (drop 4 data); bits = drop 12 data
        in if length bits \<noteq> unat ((m + 7) div 8) then Inl ErrCorruptBloom
           else Inr \<lparr>bf_m = m, bf_k = uint k, bf_bits = bits\<rparr>)"

section \<open>No false negatives\<close>

definition bloom_inv :: "bloomFilter \<Rightarrow> bool" where
  "bloom_inv b \<longleftrightarrow> unat (bf_m b) + 7 < 2 ^ 64 \<and> length (bf_bits b) = unat ((bf_m b + 7) div 8)
     \<and> 0 \<le> bf_k b \<and> bf_k b \<le> 30"

lemma probe_in_range:
  assumes "bloom_inv b" "bf_m b \<noteq> 0"
  shows "unat (probe b key i div 8) < length (bf_bits b)"
proof -
  have "unat (bf_m b) \<noteq> 0" using assms(2) by (simp add: unat_eq_0)
  then have lt: "unat (probe b key i) < unat (bf_m b)"
    by (simp add: probe_def bloomHashes_def Let_def unat_mod)
  have "unat (bf_m b + 7) = unat (bf_m b) + 7"
    using assms(1) by (simp add: bloom_inv_def unat_word_ariths)
  then have "length (bf_bits b) = (unat (bf_m b) + 7) div 8"
    using assms(1) by (simp add: bloom_inv_def unat_div)
  then show ?thesis using lt by (simp add: unat_div)
qed

lemma test_bit_at_bit:
  "test_bit_at idx bits =
     (if unat (idx div 8) < length bits then Some (bit (bits ! unat (idx div 8)) (unat (idx mod 8))) else None)"
  by (simp add: test_bit_at_def Let_def bit_iff_and_push_bit_not_eq_0)

lemma set_bit_at_spec:
  assumes "unat (idx div 8) < length bits"
  shows "\<exists>bits'. set_bit_at idx bits = Some bits' \<and> length bits' = length bits \<and> test_bit_at idx bits' = Some True
    \<and> (\<forall>j. test_bit_at j bits = Some True \<longrightarrow> test_bit_at j bits' = Some True)"
proof -
  let ?n = "unat (idx div 8)"
  let ?bits' = "bits[?n := bits ! ?n OR push_bit (unat (idx mod 8)) 1]"
  have "unat (idx mod 8) < 8" by (simp add: unat_mod)
  then have own: "bit (push_bit (unat (idx mod 8)) 1 :: byte) (unat (idx mod 8))"
    by (simp add: bit_exp_iff)
  have "test_bit_at j ?bits' = Some True" if "test_bit_at j bits = Some True" for j
    using that assms by (auto simp: test_bit_at_bit nth_list_update bit_or_iff split: if_splits)
  moreover have "test_bit_at idx ?bits' = Some True"
    using assms own by (simp add: test_bit_at_bit bit_or_iff)
  ultimately show ?thesis using assms by (simp add: set_bit_at_def Let_def)
qed

text \<open>The loop of \<open>add\<close> sets the bits of its probes and clears none.\<close>

lemma set_bits:
  assumes "\<forall>i \<in> set is. unat (p i div 8) < length bits"
  shows "\<exists>bits'. fold_option (\<lambda>i. set_bit_at (p i)) is bits = Some bits' \<and> length bits' = length bits
    \<and> (\<forall>i \<in> set is. test_bit_at (p i) bits' = Some True)
    \<and> (\<forall>j. test_bit_at j bits = Some True \<longrightarrow> test_bit_at j bits' = Some True)"
  using assms
proof (induction "is" arbitrary: bits)
  case Nil
  then show ?case by simp
next
  case (Cons i "is")
  obtain b1 where b1: "set_bit_at (p i) bits = Some b1" "length b1 = length bits" "test_bit_at (p i) b1 = Some True"
    "\<forall>j. test_bit_at j bits = Some True \<longrightarrow> test_bit_at j b1 = Some True"
    using set_bit_at_spec [of "p i" bits] Cons.prems by auto
  obtain b2 where "fold_option (\<lambda>i. set_bit_at (p i)) is b1 = Some b2" "length b2 = length b1"
    "\<forall>i \<in> set is. test_bit_at (p i) b2 = Some True" "\<forall>j. test_bit_at j b1 = Some True \<longrightarrow> test_bit_at j b2 = Some True"
    using Cons.IH [of b1] Cons.prems b1(2) by auto
  with b1 show ?case by auto
qed

lemma probe_all_total:
  assumes "bloom_inv b" "bf_m b \<noteq> 0"
  shows "\<exists>r. probe_all is key b = Some r"
    and "probe_all is key b = Some True \<longleftrightarrow> (\<forall>i \<in> set is. test_bit_at (probe b key i) (bf_bits b) = Some True)"
proof -
  have "test_bit_at (probe b key i) (bf_bits b) \<noteq> None" for i
    using probe_in_range [OF assms] by (simp add: test_bit_at_def Let_def)
  then show "\<exists>r. probe_all is key b = Some r"
    "probe_all is key b = Some True \<longleftrightarrow> (\<forall>i \<in> set is. test_bit_at (probe b key i) (bf_bits b) = Some True)"
    by (induction "is") (auto split: option.splits bool.splits)
qed

lemma probe_bits [simp]: "probe (b\<lparr>bf_bits := x\<rparr>) = probe b"
  by (intro ext) (simp add: probe_def)

lemma mayContain_total: "bloom_inv b \<Longrightarrow> \<exists>r. mayContain key b = Some r"
  using probe_all_total(1) [of b] by (cases "bf_m b = 0") (auto simp: mayContain_def)

lemma bloom_add_spec:
  assumes "bloom_inv b"
  shows "\<exists>b'. bloom_add key b = Some b' \<and> bloom_inv b' \<and> bf_m b' = bf_m b \<and> bf_k b' = bf_k b
    \<and> mayContain key b' = Some True \<and> (\<forall>k. mayContain k b = Some True \<longrightarrow> mayContain k b' = Some True)"
proof (cases "bf_m b = 0")
  case True
  with assms show ?thesis by (simp add: bloom_add_def mayContain_def)
next
  case False
  obtain bits where bits: "fold_option (\<lambda>i. set_bit_at (probe b key i)) [0..<nat (bf_k b)] (bf_bits b) = Some bits"
    "length bits = length (bf_bits b)" "\<forall>i \<in> set [0..<nat (bf_k b)]. test_bit_at (probe b key i) bits = Some True"
    "\<forall>j. test_bit_at j (bf_bits b) = Some True \<longrightarrow> test_bit_at j bits = Some True"
    using set_bits [of "[0..<nat (bf_k b)]" "probe b key" "bf_bits b"] probe_in_range [OF assms False] by blast
  let ?b = "b\<lparr>bf_bits := bits\<rparr>"
  have inv: "bloom_inv ?b" using assms bits(2) by (simp add: bloom_inv_def)
  have "mayContain k ?b = Some True \<longleftrightarrow>
      (\<forall>i \<in> set [0..<nat (bf_k b)]. test_bit_at (probe b k i) bits = Some True)" for k
    using probe_all_total(2) [OF inv] False by (simp add: mayContain_def)
  moreover have "mayContain k b = Some True \<longleftrightarrow>
      (\<forall>i \<in> set [0..<nat (bf_k b)]. test_bit_at (probe b k i) (bf_bits b) = Some True)" for k
    using probe_all_total(2) [OF assms False] False by (simp add: mayContain_def)
  ultimately show ?thesis using bits(1,3,4) False inv by (auto simp: bloom_add_def)
qed

lemma bloom_add_all:
  assumes "bloom_inv b"
  shows "\<exists>b'. fold_option bloom_add ks b = Some b' \<and> bloom_inv b' \<and> bf_m b' = bf_m b
    \<and> (\<forall>k \<in> set ks. mayContain k b' = Some True) \<and> (\<forall>k. mayContain k b = Some True \<longrightarrow> mayContain k b' = Some True)"
  using assms
proof (induction ks arbitrary: b)
  case Nil
  then show ?case by simp
next
  case (Cons k ks)
  obtain b1 where b1: "bloom_add k b = Some b1" "bloom_inv b1" "bf_m b1 = bf_m b" "mayContain k b1 = Some True"
    "\<forall>k. mayContain k b = Some True \<longrightarrow> mayContain k b1 = Some True"
    using bloom_add_spec [OF Cons.prems] by blast
  obtain b2 where "fold_option bloom_add ks b1 = Some b2" "bloom_inv b2" "bf_m b2 = bf_m b1" "\<forall>k \<in> set ks. mayContain k b2 = Some True"
    "\<forall>k. mayContain k b1 = Some True \<longrightarrow> mayContain k b2 = Some True"
    using Cons.IH [OF b1(2)] by blast
  with b1 show ?case by auto
qed

lemma newBloomFilter_inv:
  assumes "unat (fl_m fl n) + 7 < 2 ^ 64"
  shows "bloom_inv (newBloomFilter fl n)"
  using assms by (auto simp: bloom_inv_def newBloomFilter_def bloomParams_def Let_def)

lemma decode_bloom_encode:
  assumes "bloom_inv b"
  shows "decodeBloomFilter (bloom_encode b) = Inr b"
proof -
  have "uint (word_of_int (bf_k b) :: uint32) = bf_k b"
    using assms by (simp add: bloom_inv_def uint_word_of_int_eq take_bit_int_eq_self)
  with assms show ?thesis
    by (simp add: decodeBloomFilter_def bloom_encode_def Let_def bloom_inv_def)
qed

text \<open>
  C13. A Bloom filter built for a set of keys answers maybe for every one of them, also after it has been
  written and read back, and asking it about any key never reads outside its bit array; whatever size and
  number of probes the floating-point formulas give.
\<close>

theorem bloom_no_false_negatives:
  assumes "unat (fl_m fl (length ks)) + 7 < 2 ^ 64"
  shows "\<exists>b. fold_option bloom_add ks (newBloomFilter fl (length ks)) = Some b
    \<and> decodeBloomFilter (bloom_encode b) = Inr b
    \<and> (\<forall>k \<in> set ks. mayContain k b = Some True) \<and> (\<forall>k. \<exists>r. mayContain k b = Some r)"
  using bloom_add_all [OF newBloomFilter_inv [OF assms], of ks] decode_bloom_encode mayContain_total by metis

theorem bloom_no_false_negatives_witness:
  "\<exists>b. fold_option bloom_add [[1, 2], [3]]
      (newBloomFilter \<lparr>fl_m = (\<lambda>_. 20), fl_k = (\<lambda>_ _. 7)\<rparr> (length [[1, 2], [3 :: byte]])) = Some b
    \<and> mayContain [1, 2] b = Some True \<and> mayContain [3] b = Some True"
  using bloom_no_false_negatives [of "\<lparr>fl_m = (\<lambda>_. 20), fl_k = (\<lambda>_ _. 7)\<rparr>" "[[1, 2], [3]]"] by fastforce

end
