(* ===== verification/Sst_Writer.thy ===== *)
theory Sst_Writer
  imports Sst_Bloom Os_Files Complex_Main
begin

text \<open>
  Writing a sorted table (\<open>src/sstable/writer.go\<close>): a writer over a buffered file, its operations, and what
  the file holds after a successful \<open>Finish\<close>. A nil slice and an empty one are both \<open>[]\<close>. The results of
  the floating-point formulas of the Bloom filter depend on the configured rate, hence \<open>real \<Rightarrow> floats\<close>.
\<close>

section \<open>The writer\<close>

definition defaultBlockSize :: int where
  "defaultBlockSize = 4096"

definition defaultBloomFPR :: real where
  "defaultBloomFPR = 1 / 100"

definition footerSize :: nat where
  "footerSize = 56"

definition magicNumber :: uint64 where
  "magicNumber = 0x4B56535331"

record Options =
  op_BlockSize :: int
  op_BloomFPRate :: real

definition withDefaults :: "Options \<Rightarrow> Options" where
  "withDefaults opts =
     (let opts = (if op_BlockSize opts \<le> 0 then opts\<lparr>op_BlockSize := defaultBlockSize\<rparr> else opts)
      in if op_BloomFPRate opts \<le> 0 then opts\<lparr>op_BloomFPRate := defaultBloomFPR\<rparr> else opts)"

record Meta =
  me_Path :: string
  me_NumEntries :: nat
  me_MinKey :: bytes
  me_MaxKey :: bytes
  me_MaxSeq :: uint64
  me_FileSize :: uint64

record Writer =
  wr_w :: bufio
  wr_opts :: Options
  wr_offset :: uint64
  wr_curBlock :: bytes
  wr_index :: "indexEntry list"
  wr_keys :: "bytes list"
  wr_lastKey :: bytes
  wr_haveLastKey :: bool
  wr_minKey :: bytes
  wr_maxKey :: bytes
  wr_numEntries :: nat
  wr_maxSeq :: uint64
  wr_closed :: bool

definition NewWriter :: "string \<Rightarrow> Options \<Rightarrow> (sst_error, Writer) io" where
  "NewWriter path opts w =
     (case os_Create path w of
        (False, w) \<Rightarrow> (Inl ErrSstCreate, w)
      | (True, w) \<Rightarrow>
          (Inr \<lparr>wr_w = bufio_NewWriter path, wr_opts = withDefaults opts, wr_offset = 0, wr_curBlock = [],
                wr_index = [], wr_keys = [], wr_lastKey = [], wr_haveLastKey = False, wr_minKey = [],
                wr_maxKey = [], wr_numEntries = 0, wr_maxSeq = 0, wr_closed = False\<rparr>, w))"

text \<open>A block and its checksum.\<close>

definition checksummed :: "bytes \<Rightarrow> bytes" where
  "checksummed data = data @ PutUint32 (crc32_Checksum data)"

definition writeChecksummed :: "bytes \<Rightarrow> Writer \<Rightarrow> world \<Rightarrow> (sst_error + uint64) \<times> Writer \<times> world" where
  "writeChecksummed data wr w =
     (let buf = checksummed data
      in case bufio_Write buf (wr_w wr) w of
           (False, b, w) \<Rightarrow> (Inl ErrSstWrite, wr\<lparr>wr_w := b\<rparr>, w)
         | (True, b, w) \<Rightarrow>
             let len = word_of_nat (length buf)
             in (Inr len, wr\<lparr>wr_w := b, wr_offset := wr_offset wr + len\<rparr>, w))"

definition flushBlock :: "Writer \<Rightarrow> world \<Rightarrow> sst_error option \<times> Writer \<times> world" where
  "flushBlock wr w =
     (if wr_curBlock wr = [] then (None, wr, w)
      else
        let blockStart = wr_offset wr
        in case writeChecksummed (wr_curBlock wr) wr w of
             (Inl e, wr, w) \<Rightarrow> (Some e, wr, w)
           | (Inr len, wr, w) \<Rightarrow>
               (None, wr\<lparr>wr_index := wr_index wr @ [\<lparr>ie_lastKey = wr_lastKey wr, ie_offset = blockStart, ie_length = len\<rparr>],
                          wr_curBlock := []\<rparr>, w))"

text \<open>The entry is appended to the pending block.\<close>

definition pend :: "bytes \<Rightarrow> bytes \<Rightarrow> uint64 \<Rightarrow> bool \<Rightarrow> Writer \<Rightarrow> Writer" where
  "pend key val seq deleted wr =
     wr\<lparr>wr_curBlock := wr_curBlock wr @ encodeEntry key val seq deleted,
        wr_keys := wr_keys wr @ [key], wr_lastKey := key, wr_haveLastKey := True,
        wr_minKey := (if wr_minKey wr = [] then key else wr_minKey wr), wr_maxKey := key,
        wr_numEntries := wr_numEntries wr + 1,
        wr_maxSeq := (if wr_maxSeq wr < seq then seq else wr_maxSeq wr)\<rparr>"

definition Writer_Add :: "bytes \<Rightarrow> bytes \<Rightarrow> uint64 \<Rightarrow> bool \<Rightarrow> Writer \<Rightarrow> world \<Rightarrow> sst_error option \<times> Writer \<times> world" where
  "Writer_Add key val seq deleted wr w =
     (if wr_closed wr then (Some ErrAddAfterFinish, wr, w)
      else if wr_haveLastKey wr \<and> bytes_Compare key (wr_lastKey wr) = 0 then (Some ErrDuplicateKey, wr, w)
      else if wr_haveLastKey wr \<and> bytes_Compare key (wr_lastKey wr) = -1 then (Some ErrOutOfOrder, wr, w)
      else
        let wr = pend key val seq deleted wr
        in if op_BlockSize (wr_opts wr) \<le> int (length (wr_curBlock wr)) then flushBlock wr w else (None, wr, w))"

definition footer_bytes :: "uint64 \<Rightarrow> uint64 \<Rightarrow> uint64 \<Rightarrow> uint64 \<Rightarrow> uint64 \<Rightarrow> uint64 \<Rightarrow> bytes" where
  "footer_bytes indexOffset indexLength bloomOffset bloomLength numEntries maxSeq =
     PutUint64 indexOffset @ PutUint64 indexLength @ PutUint64 bloomOffset @ PutUint64 bloomLength
     @ PutUint64 numEntries @ PutUint64 maxSeq @ PutUint64 magicNumber"

definition flush_sync_close :: "Writer \<Rightarrow> world \<Rightarrow> (sst_error + Meta) \<times> Writer \<times> world" where
  "flush_sync_close wr w =
     (let path = bw_path (wr_w wr)
      in case bufio_Flush (wr_w wr) w of
           (False, b, w) \<Rightarrow> (Inl ErrSstFlush, wr\<lparr>wr_w := b\<rparr>, snd (os_Close path w))
         | (True, b, w) \<Rightarrow>
             (case os_Sync path w of
                (False, w) \<Rightarrow> (Inl ErrSstFsync, wr\<lparr>wr_w := b\<rparr>, snd (os_Close path w))
              | (True, w) \<Rightarrow>
                  (case os_Close path w of
                     (False, w) \<Rightarrow> (Inl ErrSstClose, wr\<lparr>wr_w := b\<rparr>, w)
                   | (True, w) \<Rightarrow>
                       (Inr \<lparr>me_Path = path, me_NumEntries = wr_numEntries wr, me_MinKey = wr_minKey wr,
                             me_MaxKey = wr_maxKey wr, me_MaxSeq = wr_maxSeq wr, me_FileSize = wr_offset wr\<rparr>,
                        wr\<lparr>wr_w := b\<rparr>, w))))"

text \<open>The outer \<open>None\<close> of \<open>Finish\<close> is a panic in the Bloom filter.\<close>

definition Finish :: "(real \<Rightarrow> floats) \<Rightarrow> Writer \<Rightarrow> world \<Rightarrow> ((sst_error + Meta) \<times> Writer \<times> world) option" where
  "Finish fl wr w =
     (if wr_closed wr then Some (Inl ErrFinishTwice, wr, w)
      else
        case flushBlock (wr\<lparr>wr_closed := True\<rparr>) w of
          (Some e, wr, w) \<Rightarrow> Some (Inl e, wr, w)
        | (None, wr, w) \<Rightarrow>
            (case fold_option bloom_add (wr_keys wr)
                    (newBloomFilter (fl (op_BloomFPRate (wr_opts wr))) (length (wr_keys wr))) of
               None \<Rightarrow> None
             | Some bf \<Rightarrow>
                 let bloomOffset = wr_offset wr
                 in case writeChecksummed (bloom_encode bf) wr w of
                      (Inl e, wr, w) \<Rightarrow> Some (Inl e, wr, w)
                    | (Inr bloomLength, wr, w) \<Rightarrow>
                        let indexOffset = wr_offset wr
                        in case writeChecksummed (encodeIndex (wr_index wr)) wr w of
                             (Inl e, wr, w) \<Rightarrow> Some (Inl e, wr, w)
                           | (Inr indexLength, wr, w) \<Rightarrow>
                               let footer = footer_bytes indexOffset indexLength bloomOffset bloomLength
                                              (word_of_nat (wr_numEntries wr)) (wr_maxSeq wr)
                               in case bufio_Write footer (wr_w wr) w of
                                    (False, b, w) \<Rightarrow> Some (Inl ErrSstWrite, wr\<lparr>wr_w := b\<rparr>, w)
                                  | (True, b, w) \<Rightarrow>
                                      Some (flush_sync_close
                                        (wr\<lparr>wr_w := b, wr_offset := wr_offset wr + word_of_nat (length footer)\<rparr>) w)))"

section \<open>What a table file holds\<close>

text \<open>A data block and its index entry, from the entries of the blocks.\<close>

definition block_bytes :: "decodedEntry list \<Rightarrow> bytes" where
  "block_bytes es = checksummed (concat (map enc es))"

definition blocks_bytes :: "decodedEntry list list \<Rightarrow> bytes" where
  "blocks_bytes bs = concat (map block_bytes bs)"

fun index_of :: "nat \<Rightarrow> decodedEntry list list \<Rightarrow> indexEntry list" where
  "index_of off [] = []"
| "index_of off (es # bs) =
     \<lparr>ie_lastKey = de_key (last es), ie_offset = word_of_nat off, ie_length = word_of_nat (length (block_bytes es))\<rparr>
     # index_of (off + length (block_bytes es)) bs"

definition max_seq :: "decodedEntry list \<Rightarrow> uint64" where
  "max_seq es = foldl (\<lambda>m e. if m < de_seq e then de_seq e else m) 0 es"

definition table_bytes :: "bloomFilter \<Rightarrow> decodedEntry list list \<Rightarrow> bytes" where
  "table_bytes bf bs =
     (let data = blocks_bytes bs; bloom = checksummed (bloom_encode bf); index = checksummed (encodeIndex (index_of 0 bs))
      in data @ bloom @ index
         @ footer_bytes (word_of_nat (length data + length bloom)) (word_of_nat (length index))
             (word_of_nat (length data)) (word_of_nat (length bloom))
             (word_of_nat (length (concat bs))) (max_seq (concat bs)))"

definition keys_sorted :: "decodedEntry list \<Rightarrow> bool" where
  "keys_sorted es \<longleftrightarrow> sorted_wrt (<) (map de_key es)"

text \<open>What holds of the blocks of a table, and \<open>d\<close> is a table with the entries \<open>es\<close>.\<close>

definition valid_table :: "bloomFilter \<Rightarrow> decodedEntry list list \<Rightarrow> bool" where
  "valid_table bf bs \<longleftrightarrow> [] \<notin> set bs \<and> keys_sorted (concat bs) \<and> (\<forall>e \<in> set (concat bs). entry_ok e)
     \<and> bloom_inv bf \<and> (\<forall>e \<in> set (concat bs). mayContain (de_key e) bf = Some True) \<and> go_len (table_bytes bf bs)"

definition is_table :: "bytes \<Rightarrow> decodedEntry list \<Rightarrow> bool" where
  "is_table d es \<longleftrightarrow> (\<exists>bf bs. valid_table bf bs \<and> d = table_bytes bf bs \<and> concat bs = es)"

section \<open>Buffered writes\<close>

text \<open>\<open>holds path b w x\<close>: the file has \<open>x\<close> once the buffer is flushed; \<open>only_touches\<close>: no other file changed.\<close>

definition holds :: "string \<Rightarrow> bufio \<Rightarrow> world \<Rightarrow> bytes \<Rightarrow> bool" where
  "holds path b w x \<longleftrightarrow> bw_path b = path \<and> (\<exists>d. file_data w path = Some d \<and> d @ bw_buf b = x)"

definition only_touches :: "string \<Rightarrow> world \<Rightarrow> world \<Rightarrow> bool" where
  "only_touches path w w' \<longleftrightarrow> (\<forall>q. q \<noteq> path \<longrightarrow> map_of (w_files w') q = map_of (w_files w) q)"

lemma only_touches_refl [simp]: "only_touches path w w"
  by (simp add: only_touches_def)

lemma only_touches_trans [trans]: "only_touches path w w' \<Longrightarrow> only_touches path w' w'' \<Longrightarrow> only_touches path w w''"
  by (simp add: only_touches_def)

lemma bufio_Write_holds:
  assumes "bufio_Write p b w = (ok, b', w')"
  shows "bw_path b' = bw_path b" "only_touches (bw_path b) w w'"
    and "ok \<Longrightarrow> holds path b w x \<Longrightarrow> holds path b' w' (x @ p)"
  using bufio_Write_extends [OF assms] by (auto simp: extends_def only_touches_def holds_def)

lemma bufio_Flush_holds:
  assumes "bufio_Flush b w = (ok, b', w')"
  shows "bw_path b' = bw_path b" "only_touches (bw_path b) w w'"
    and "ok \<Longrightarrow> holds path b w x \<Longrightarrow> file_data w' path = Some x"
  using bufio_Flush_extends [OF assms] by (auto simp: extends_def only_touches_def holds_def)

lemma os_Create_files:
  assumes "os_Create path w = (ok, w')"
  shows "only_touches path w w'" "ok \<Longrightarrow> file_data w' path = Some []"
  using assms by (auto simp: os_Create_def next_outcome_def only_touches_def file_data_def set_file_def update_conv'
      split: outcome.splits)

lemma os_Close_touches: "only_touches path w (snd (os_Close path w))"
  using os_Close_files [of path w] by (cases "os_Close path w") (simp add: only_touches_def)

lemma writeChecksummed_spec:
  assumes "writeChecksummed data wr w = (r, wr', w')"
  shows "bw_path (wr_w wr') = bw_path (wr_w wr)" "only_touches (bw_path (wr_w wr)) w w'"
    and "r = Inr len \<Longrightarrow> len = word_of_nat (length (checksummed data))
      \<and> wr' = wr\<lparr>wr_w := wr_w wr', wr_offset := wr_offset wr + len\<rparr>
      \<and> (holds path (wr_w wr) w x \<longrightarrow> holds path (wr_w wr') w' (x @ checksummed data))"
proof -
  obtain ok b w1 where b: "bufio_Write (checksummed data) (wr_w wr) w = (ok, b, w1)" by (metis prod_cases3)
  note B = bufio_Write_holds [OF b]
  show "bw_path (wr_w wr') = bw_path (wr_w wr)" "only_touches (bw_path (wr_w wr)) w w'"
    using assms b B(1,2) by (auto simp: writeChecksummed_def Let_def split: bool.splits)
  show "len = word_of_nat (length (checksummed data)) \<and> wr' = wr\<lparr>wr_w := wr_w wr', wr_offset := wr_offset wr + len\<rparr>
      \<and> (holds path (wr_w wr) w x \<longrightarrow> holds path (wr_w wr') w' (x @ checksummed data))" if "r = Inr len"
    using assms b B(3) [of path x] that by (auto simp: writeChecksummed_def Let_def split: bool.splits)
qed

lemma writeChecksummed_keeps:
  assumes "writeChecksummed data wr w = (r, wr', w')"
  shows "wr_index wr' = wr_index wr" "wr_keys wr' = wr_keys wr" "wr_lastKey wr' = wr_lastKey wr"
    "wr_haveLastKey wr' = wr_haveLastKey wr" "wr_numEntries wr' = wr_numEntries wr" "wr_maxSeq wr' = wr_maxSeq wr"
    "wr_minKey wr' = wr_minKey wr" "wr_maxKey wr' = wr_maxKey wr" "wr_closed wr' = wr_closed wr" "wr_opts wr' = wr_opts wr"
    "r = Inr len \<Longrightarrow> wr_offset wr' = wr_offset wr + len"
  using assms by (auto simp: writeChecksummed_def Let_def split: prod.splits bool.splits)

section \<open>The writer's invariant\<close>

text \<open>The first non-empty key: an empty key is a nil slice, which \<open>Add\<close> takes for no key yet.\<close>

definition min_key :: "decodedEntry list \<Rightarrow> bytes" where
  "min_key es = (case filter (\<lambda>k. k \<noteq> []) (map de_key es) of [] \<Rightarrow> [] | k # _ \<Rightarrow> k)"

definition writer_inv :: "string \<Rightarrow> decodedEntry list \<Rightarrow> Writer \<Rightarrow> world \<Rightarrow> bool" where
  "writer_inv path es wr w \<longleftrightarrow>
     (\<exists>bs cur. es = concat bs @ cur \<and> [] \<notin> set bs \<and> wr_curBlock wr = concat (map enc cur)
          \<and> holds path (wr_w wr) w (blocks_bytes bs)
          \<and> wr_offset wr = word_of_nat (length (blocks_bytes bs)) \<and> wr_index wr = index_of 0 bs)
     \<and> keys_sorted es \<and> wr_keys wr = map de_key es \<and> wr_haveLastKey wr = (es \<noteq> [])
     \<and> (es \<noteq> [] \<longrightarrow> wr_lastKey wr = de_key (last es))
     \<and> wr_numEntries wr = length es \<and> wr_maxSeq wr = max_seq es
     \<and> wr_minKey wr = min_key es \<and> wr_maxKey wr = (if es = [] then [] else de_key (last es))"

lemma blocks_bytes_snoc [simp]: "blocks_bytes (bs @ [es]) = blocks_bytes bs @ block_bytes es"
  by (simp add: blocks_bytes_def)

lemma blocks_bytes_Cons [simp]: "blocks_bytes (es # bs) = block_bytes es @ blocks_bytes bs" "blocks_bytes [] = []"
  by (simp_all add: blocks_bytes_def)

lemma index_of_snoc:
  "index_of off (bs @ [es]) = index_of off bs
     @ [\<lparr>ie_lastKey = de_key (last es), ie_offset = word_of_nat (off + length (blocks_bytes bs)),
         ie_length = word_of_nat (length (block_bytes es))\<rparr>]"
  by (induction bs arbitrary: off) (simp_all add: add.assoc)

lemma keys_sorted_snoc: "keys_sorted (es @ [e]) \<longleftrightarrow> keys_sorted es \<and> (es = [] \<or> de_key (last es) < de_key e)"
  by (induction es rule: rev_induct) (auto simp: keys_sorted_def sorted_wrt_append intro: less_trans)

lemma max_seq_snoc [simp]: "max_seq (es @ [e]) = (if max_seq es < de_seq e then de_seq e else max_seq es)" "max_seq [] = 0"
  by (simp_all add: max_seq_def)

lemma min_key_snoc [simp]: "min_key (es @ [e]) = (if min_key es = [] then de_key e else min_key es)" "min_key [] = []"
  by (auto simp: min_key_def split: list.splits dest!: filter_eq_ConsD)

lemma NewWriter_spec:
  assumes "NewWriter path opts w = (r, w')"
  shows "only_touches path w w'" "r = Inr wr \<Longrightarrow> writer_inv path [] wr w' \<and> \<not> wr_closed wr \<and> wr_opts wr = withDefaults opts"
proof -
  obtain ok w1 where c: "os_Create path w = (ok, w1)" by fastforce
  with assms have w': "w' = w1" by (auto simp: NewWriter_def split: bool.splits)
  with os_Create_files [OF c] show "only_touches path w w'" by simp
  show "writer_inv path [] wr w' \<and> \<not> wr_closed wr \<and> wr_opts wr = withDefaults opts" if "r = Inr wr"
  proof -
    from assms c that os_Create_files(2) [OF c] have f: "file_data w1 path = Some []"
      by (auto simp: NewWriter_def split: bool.splits)
    have "wr = \<lparr>wr_w = bufio_NewWriter path, wr_opts = withDefaults opts, wr_offset = 0, wr_curBlock = [],
        wr_index = [], wr_keys = [], wr_lastKey = [], wr_haveLastKey = False, wr_minKey = [],
        wr_maxKey = [], wr_numEntries = 0, wr_maxSeq = 0, wr_closed = False\<rparr>"
      using assms c that by (auto simp: NewWriter_def split: bool.splits)
    moreover have "holds path (bufio_NewWriter path) w1 (blocks_bytes [])" using f by (simp add: holds_def bufio_NewWriter_def)
    ultimately show ?thesis by (auto simp: writer_inv_def keys_sorted_def w' intro: exI [of _ "[]"])
  qed
qed

text \<open>The state after the pending block has been written.\<close>

definition flushed_inv :: "string \<Rightarrow> decodedEntry list \<Rightarrow> Writer \<Rightarrow> world \<Rightarrow> bool" where
  "flushed_inv path es wr w \<longleftrightarrow> writer_inv path es wr w \<and> wr_curBlock wr = []"

lemma flushBlock_touches:
  assumes "flushBlock wr w = (r, wr', w')"
  shows "bw_path (wr_w wr') = bw_path (wr_w wr)" "only_touches (bw_path (wr_w wr)) w w'"
    "wr_closed wr' = wr_closed wr" "wr_opts wr' = wr_opts wr"
proof -
  obtain c wr1 w1 where c: "writeChecksummed (wr_curBlock wr) wr w = (c, wr1, w1)" by (metis prod_cases3)
  from assms writeChecksummed_spec(1,2) [OF c] writeChecksummed_keeps(9,10) [OF c] c
  show "bw_path (wr_w wr') = bw_path (wr_w wr)" "only_touches (bw_path (wr_w wr)) w w'"
    "wr_closed wr' = wr_closed wr" "wr_opts wr' = wr_opts wr"
    by (auto simp: flushBlock_def Let_def split: if_splits sum.splits)
qed

lemma flushBlock_inv:
  assumes "writer_inv path es wr w" "flushBlock wr w = (None, wr', w')"
  shows "flushed_inv path es wr' w'"
proof (cases "wr_curBlock wr = []")
  case True
  with assms show ?thesis by (simp add: flushBlock_def flushed_inv_def)
next
  case False
  obtain bs cur where bs: "es = concat bs @ cur" "[] \<notin> set bs" "wr_curBlock wr = concat (map enc cur)"
    "holds path (wr_w wr) w (blocks_bytes bs)" "wr_offset wr = word_of_nat (length (blocks_bytes bs))"
    "wr_index wr = index_of 0 bs" using assms(1) unfolding writer_inv_def by blast
  then have cur: "cur \<noteq> []" using False by auto
  obtain c wr1 w1 where c: "writeChecksummed (wr_curBlock wr) wr w = (c, wr1, w1)" by (metis prod_cases3)
  obtain len where len: "c = Inr len" "w' = w1" and wr': "wr' = wr1\<lparr>wr_index := wr_index wr1
      @ [\<lparr>ie_lastKey = wr_lastKey wr1, ie_offset = wr_offset wr, ie_length = len\<rparr>], wr_curBlock := []\<rparr>"
    using assms(2) c False by (auto simp: flushBlock_def Let_def split: sum.splits)
  have spec: "len = word_of_nat (length (block_bytes cur))" "holds path (wr_w wr1) w1 (blocks_bytes (bs @ [cur]))"
    using writeChecksummed_spec(3) [OF c len(1), of path "blocks_bytes bs"] bs(3,4) by (auto simp: block_bytes_def)
  note keep = writeChecksummed_keeps(1-9) [OF c] writeChecksummed_keeps(11) [OF c len(1)]
  have last: "wr_lastKey wr = de_key (last cur)" using assms(1) bs(1) cur by (auto simp: writer_inv_def)
  have "es = concat (bs @ [cur]) @ [] \<and> [] \<notin> set (bs @ [cur]) \<and> wr_curBlock wr' = concat (map enc [])
      \<and> holds path (wr_w wr') w' (blocks_bytes (bs @ [cur]))
      \<and> wr_offset wr' = word_of_nat (length (blocks_bytes (bs @ [cur]))) \<and> wr_index wr' = index_of 0 (bs @ [cur])"
    using bs cur spec len(2) keep last by (simp add: wr' index_of_snoc)
  then have "\<exists>bs cur. es = concat bs @ cur \<and> [] \<notin> set bs \<and> wr_curBlock wr' = concat (map enc cur)
      \<and> holds path (wr_w wr') w' (blocks_bytes bs)
      \<and> wr_offset wr' = word_of_nat (length (blocks_bytes bs)) \<and> wr_index wr' = index_of 0 bs" by blast
  with assms(1) keep show ?thesis by (simp add: flushed_inv_def writer_inv_def wr')
qed

lemma pend_keeps [simp]:
  "wr_w (pend k v s d wr) = wr_w wr" "wr_closed (pend k v s d wr) = wr_closed wr" "wr_opts (pend k v s d wr) = wr_opts wr"
  by (simp_all add: pend_def)

lemma Writer_Add_touches:
  assumes "Writer_Add key val seq deleted wr w = (r, wr', w')"
  shows "bw_path (wr_w wr') = bw_path (wr_w wr)" "only_touches (bw_path (wr_w wr)) w w'"
    "wr_closed wr' = wr_closed wr" "wr_opts wr' = wr_opts wr"
  using assms flushBlock_touches [of "pend key val seq deleted wr" w r wr' w']
  by (auto simp: Writer_Add_def Let_def split: if_splits)

text \<open>An entry whose key is not above the last one is refused and changes nothing.\<close>

lemma Writer_Add_refused:
  assumes "writer_inv path es wr w" "\<not> wr_closed wr" "es \<noteq> []" "key \<le> de_key (last es)"
  shows "Writer_Add key val seq deleted wr w
    = (Some (if key = de_key (last es) then ErrDuplicateKey else ErrOutOfOrder), wr, w)"
  using assms by (auto simp: Writer_Add_def writer_inv_def)

lemma Writer_Add_accepted:
  assumes "writer_inv path es wr w" "\<not> wr_closed wr" "es = [] \<or> de_key (last es) < key"
  shows "Writer_Add key val seq deleted wr w =
    (if op_BlockSize (wr_opts wr) \<le> int (length (wr_curBlock (pend key val seq deleted wr)))
     then flushBlock (pend key val seq deleted wr) w else (None, pend key val seq deleted wr, w))"
  using assms by (auto simp: Writer_Add_def writer_inv_def Let_def)

lemma pend_inv:
  assumes inv: "writer_inv path es wr w" and key: "es = [] \<or> de_key (last es) < de_key e"
  shows "writer_inv path (es @ [e]) (pend (de_key e) (de_value e) (de_seq e) (de_deleted e) wr) w"
proof -
  let ?wr = "pend (de_key e) (de_value e) (de_seq e) (de_deleted e) wr"
  obtain bs cur where bs: "es = concat bs @ cur" "[] \<notin> set bs" "wr_curBlock wr = concat (map enc cur)"
    "holds path (wr_w wr) w (blocks_bytes bs)" "wr_offset wr = word_of_nat (length (blocks_bytes bs))"
    "wr_index wr = index_of 0 bs" using inv unfolding writer_inv_def by blast
  have "es @ [e] = concat bs @ (cur @ [e]) \<and> [] \<notin> set bs \<and> wr_curBlock ?wr = concat (map enc (cur @ [e]))
      \<and> holds path (wr_w ?wr) w (blocks_bytes bs) \<and> wr_offset ?wr = word_of_nat (length (blocks_bytes bs))
      \<and> wr_index ?wr = index_of 0 bs" using bs by (simp add: pend_def enc_def)
  then have "\<exists>bs cur. es @ [e] = concat bs @ cur \<and> [] \<notin> set bs \<and> wr_curBlock ?wr = concat (map enc cur)
      \<and> holds path (wr_w ?wr) w (blocks_bytes bs) \<and> wr_offset ?wr = word_of_nat (length (blocks_bytes bs))
      \<and> wr_index ?wr = index_of 0 bs" by blast
  moreover have "keys_sorted (es @ [e])" using inv key by (auto simp: keys_sorted_snoc writer_inv_def)
  ultimately show ?thesis using inv unfolding writer_inv_def by (simp add: pend_def)
qed

lemma Writer_Add_inv:
  assumes inv: "writer_inv path es wr w" and closed: "\<not> wr_closed wr" and key: "es = [] \<or> de_key (last es) < de_key e"
    and add: "Writer_Add (de_key e) (de_value e) (de_seq e) (de_deleted e) wr w = (r, wr', w')"
  shows "r = None \<and> writer_inv path (es @ [e]) wr' w' \<or> r = Some ErrSstWrite"
proof -
  let ?wr = "pend (de_key e) (de_value e) (de_seq e) (de_deleted e) wr"
  note acc = add [unfolded Writer_Add_accepted [OF inv closed key]]
  consider "flushBlock ?wr w = (r, wr', w')" | "(None, ?wr, w) = (r, wr', w')"
    using acc by (metis (full_types))
  then show ?thesis
  proof cases
    case 1
    then have "r = None \<or> r = Some ErrSstWrite"
      by (auto simp: flushBlock_def writeChecksummed_def Let_def split: if_splits prod.splits bool.splits sum.splits)
    with flushBlock_inv [OF pend_inv [OF inv key]] 1 show ?thesis by (auto simp: flushed_inv_def)
  next
    case 2
    with pend_inv [OF inv key] show ?thesis by simp
  qed
qed

section \<open>Finish\<close>

lemma flush_sync_close_spec:
  assumes "flush_sync_close wr w = (r, wr', w')"
  shows "only_touches (bw_path (wr_w wr)) w w'"
    and "r = Inr meta \<Longrightarrow> holds path (wr_w wr) w x \<Longrightarrow> file_data w' path = Some x \<and> file_synced w' path = Some (length x)
      \<and> meta = \<lparr>me_Path = path, me_NumEntries = wr_numEntries wr, me_MinKey = wr_minKey wr,
          me_MaxKey = wr_maxKey wr, me_MaxSeq = wr_maxSeq wr, me_FileSize = wr_offset wr\<rparr>"
proof -
  let ?p = "bw_path (wr_w wr)"
  obtain ok1 b w1 where fl: "bufio_Flush (wr_w wr) w = (ok1, b, w1)" by (metis prod_cases3)
  obtain ok2 w2 where sy: "os_Sync ?p w1 = (ok2, w2)" by fastforce
  obtain ok3 w3 where cl: "os_Close ?p w2 = (ok3, w3)" by fastforce
  note F = bufio_Flush_holds [OF fl] and S = os_Sync_files [OF sy] and C = os_Close_files [OF cl]
  have t: "only_touches ?p w w1" "only_touches ?p w1 w2" "only_touches ?p w2 w3"
    "only_touches ?p w1 (snd (os_Close ?p w1))"
    using F(2) S(3) C os_Close_touches by (auto simp: only_touches_def)
  note t' = only_touches_trans [OF t(1) t(4)] only_touches_trans [OF only_touches_trans [OF t(1,2)] t(3)]
  show "only_touches ?p w w'"
    using assms fl sy cl t' by (cases ok1; cases ok2; cases ok3) (simp_all add: flush_sync_close_def Let_def)
  show "file_data w' path = Some x \<and> file_synced w' path = Some (length x)
      \<and> meta = \<lparr>me_Path = path, me_NumEntries = wr_numEntries wr, me_MinKey = wr_minKey wr,
          me_MaxKey = wr_maxKey wr, me_MaxSeq = wr_maxSeq wr, me_FileSize = wr_offset wr\<rparr>"
    if "r = Inr meta" "holds path (wr_w wr) w x"
  proof -
    have p: "?p = path" using that(2) by (simp add: holds_def)
    have "ok1" "ok2" "ok3" "w' = w3"
      using assms fl sy cl that(1) by (cases ok1; cases ok2; cases ok3; simp add: flush_sync_close_def Let_def)+
    then show ?thesis
      using assms fl sy cl that F(3) [OF _ that(2)] S(1) [of path] S(2) C p
      by (auto simp: flush_sync_close_def Let_def file_data_def file_synced_def)
  qed
qed

lemma length_footer_bytes [simp]: "length (footer_bytes a b c d e f) = footerSize"
  by (simp add: footer_bytes_def footerSize_def)

text \<open>The writes of \<open>Finish\<close> after the pending block, one after the other.\<close>

lemma Finish_writes:
  assumes fin: "Finish fl wr w = Some (r, wr', w')" and closed: "\<not> wr_closed wr"
  obtains (block) e wr1 w1 where "flushBlock (wr\<lparr>wr_closed := True\<rparr>) w = (Some e, wr1, w1)" "r = Inl e" "w' = w1"
  | (bloom) wr1 w1 bf e wr2 where "flushBlock (wr\<lparr>wr_closed := True\<rparr>) w = (None, wr1, w1)"
      "writeChecksummed (bloom_encode bf) wr1 w1 = (Inl e, wr2, w')" "r = Inl e"
  | (index) wr1 w1 bf len wr2 w2 e wr3 where "flushBlock (wr\<lparr>wr_closed := True\<rparr>) w = (None, wr1, w1)"
      "writeChecksummed (bloom_encode bf) wr1 w1 = (Inr len, wr2, w2)"
      "writeChecksummed (encodeIndex (wr_index wr2)) wr2 w2 = (Inl e, wr3, w')" "r = Inl e"
  | (footer) wr1 w1 bf len wr2 w2 len' wr3 w3 ok b w4 where "flushBlock (wr\<lparr>wr_closed := True\<rparr>) w = (None, wr1, w1)"
      "fold_option bloom_add (wr_keys wr1) (newBloomFilter (fl (op_BloomFPRate (wr_opts wr1))) (length (wr_keys wr1))) = Some bf"
      "writeChecksummed (bloom_encode bf) wr1 w1 = (Inr len, wr2, w2)"
      "writeChecksummed (encodeIndex (wr_index wr2)) wr2 w2 = (Inr len', wr3, w3)"
      "bufio_Write (footer_bytes (wr_offset wr2) len' (wr_offset wr1) len (word_of_nat (wr_numEntries wr3)) (wr_maxSeq wr3))
         (wr_w wr3) w3 = (ok, b, w4)"
      "\<not> ok \<and> r = Inl ErrSstWrite \<and> w' = w4
       \<or> ok \<and> flush_sync_close (wr3\<lparr>wr_w := b, wr_offset := wr_offset wr3 + word_of_nat footerSize\<rparr>) w4 = (r, wr', w')"
proof -
  obtain r1 wr1 w1 where 1: "flushBlock (wr\<lparr>wr_closed := True\<rparr>) w = (r1, wr1, w1)" by (metis prod_cases3)
  let ?bf = "fold_option bloom_add (wr_keys wr1) (newBloomFilter (fl (op_BloomFPRate (wr_opts wr1))) (length (wr_keys wr1)))"
  show thesis
  proof (cases r1)
    case (Some e)
    with fin closed 1 show thesis by (intro block) (auto simp: Finish_def)
  next
    case None
    then obtain bf where bf: "?bf = Some bf" using fin closed 1 by (auto simp: Finish_def split: option.splits)
    obtain r2 wr2 w2 where 2: "writeChecksummed (bloom_encode bf) wr1 w1 = (r2, wr2, w2)" by (metis prod_cases3)
    obtain r3 wr3 w3 where 3: "writeChecksummed (encodeIndex (wr_index wr2)) wr2 w2 = (r3, wr3, w3)" by (metis prod_cases3)
    show thesis
    proof (cases r2)
      case (Inl e)
      with fin closed 1 None bf 2 show thesis by (intro bloom) (auto simp: Finish_def Let_def)
    next
      case len: (Inr len)
      show thesis
      proof (cases r3)
        case (Inl e)
        with fin closed 1 None bf 2 3 len show thesis by (intro index) (auto simp: Finish_def Let_def)
      next
        case (Inr len')
        let ?f = "footer_bytes (wr_offset wr2) len' (wr_offset wr1) len (word_of_nat (wr_numEntries wr3)) (wr_maxSeq wr3)"
        obtain ok b w4 where 4: "bufio_Write ?f (wr_w wr3) w3 = (ok, b, w4)" by (metis prod_cases3)
        with fin closed 1 None bf 2 3 len Inr show thesis
          by (cases ok; intro footer [OF 1 [unfolded None] bf 2 [unfolded len] 3 [unfolded Inr] 4])
            (auto simp: Finish_def Let_def)
      qed
    qed
  qed
qed

lemma Finish_touches:
  assumes "Finish fl wr w = Some (r, wr', w')"
  shows "only_touches (bw_path (wr_w wr)) w w'"
proof (cases "wr_closed wr")
  case True
  with assms show ?thesis by (simp add: Finish_def)
next
  case False
  let ?p = "bw_path (wr_w wr)"
  from assms False show ?thesis
  proof (cases rule: Finish_writes)
    case block
    with flushBlock_touches(2) [OF block(1)] show ?thesis by simp
  next
    case (bloom wr1 w1 bf e wr2)
    with flushBlock_touches(1,2) [OF bloom(1)] writeChecksummed_spec(2) [OF bloom(2)] show ?thesis
      by (simp add: only_touches_def)
  next
    case (index wr1 w1 bf len wr2 w2 e wr3)
    with flushBlock_touches(1,2) [OF index(1)] writeChecksummed_spec(1,2) [OF index(2)] writeChecksummed_spec(2) [OF index(3)]
    show ?thesis by (simp add: only_touches_def)
  next
    case (footer wr1 w1 bf len wr2 w2 len' wr3 w3 ok b w4)
    have "only_touches ?p w w4" "bw_path b = ?p"
      using flushBlock_touches(1,2) [OF footer(1)] writeChecksummed_spec(1,2) [OF footer(3)]
        writeChecksummed_spec(1,2) [OF footer(4)] bufio_Write_holds(1,2) [OF footer(5)]
      by (simp_all add: only_touches_def)
    moreover have "only_touches (bw_path b) w4 w'" if "ok"
      using flush_sync_close_spec(1) footer(6) that by fastforce
    ultimately show ?thesis using footer(6) by (auto simp: only_touches_def)
  qed
qed

lemma Finish_table:
  assumes inv: "writer_inv path es wr w" and closed: "\<not> wr_closed wr"
    and ok: "\<forall>e \<in> set es. entry_ok e" and fl: "unat (fl_m (fl (op_BloomFPRate (wr_opts wr))) (length es)) + 7 < 2 ^ 64"
    and fin: "Finish fl wr w = Some (Inr meta, wr', w')"
  shows "\<exists>d. file_data w' path = Some d \<and> file_synced w' path = Some (length d) \<and> (go_len d \<longrightarrow> is_table d es)
    \<and> (\<exists>bf bs. d = table_bytes bf bs \<and> concat bs = es \<and> [] \<notin> set bs \<and> bloom_inv bf
         \<and> bf_m bf = bf_m (newBloomFilter (fl (op_BloomFPRate (wr_opts wr))) (length es)))
    \<and> meta = \<lparr>me_Path = path, me_NumEntries = length es, me_MinKey = min_key es,
         me_MaxKey = (if es = [] then [] else de_key (last es)), me_MaxSeq = max_seq es, me_FileSize = word_of_nat (length d)\<rparr>"
  using fin closed
proof (cases rule: Finish_writes)
  case (footer wr1 w1 bf len wr2 w2 len' wr3 w3 ok' b w4)
  have "writer_inv path es (wr\<lparr>wr_closed := True\<rparr>) w" using inv by (simp add: writer_inv_def)
  from flushBlock_inv [OF this footer(1)] have inv1: "writer_inv path es wr1 w1" "wr_curBlock wr1 = []"
    by (simp_all add: flushed_inv_def)
  then obtain bs cur where bs: "es = concat bs @ cur" "[] \<notin> set bs" "concat (map enc cur) = []"
    "holds path (wr_w wr1) w1 (blocks_bytes bs)" "wr_offset wr1 = word_of_nat (length (blocks_bytes bs))"
    "wr_index wr1 = index_of 0 bs" unfolding writer_inv_def by metis
  from bs(3) have es: "es = concat bs" using bs(1) by (cases cur) simp_all
  have opts: "wr_opts wr1 = wr_opts wr" using flushBlock_touches(4) [OF footer(1)] by simp
  have keys: "wr_keys wr1 = map de_key es" using inv1 by (simp add: writer_inv_def)
  have bf: "bloom_inv bf" "\<forall>e \<in> set es. mayContain (de_key e) bf = Some True"
    "bf_m bf = bf_m (newBloomFilter (fl (op_BloomFPRate (wr_opts wr))) (length es))"
    using bloom_add_all [OF newBloomFilter_inv, of "fl (op_BloomFPRate (wr_opts wr))" "length es" "map de_key es"]
      fl footer(2) by (auto simp: keys opts)
  let ?bloom = "checksummed (bloom_encode bf)" and ?index = "checksummed (encodeIndex (index_of 0 bs))"
  let ?d = "blocks_bytes bs @ ?bloom @ ?index"
  note W2 = writeChecksummed_spec(3) [OF footer(3) refl, of path "blocks_bytes bs"]
  note W3 = writeChecksummed_spec(3) [OF footer(4) refl, of path "blocks_bytes bs @ ?bloom"]
  note keep = writeChecksummed_keeps(1-8) [OF footer(3)] writeChecksummed_keeps(1-8) [OF footer(4)]
    writeChecksummed_keeps(11) [OF footer(3) refl] writeChecksummed_keeps(11) [OF footer(4) refl]
  have fields: "wr_index wr2 = index_of 0 bs" "wr_numEntries wr3 = length es" "wr_maxSeq wr3 = max_seq es"
    "wr_minKey wr3 = min_key es" "wr_maxKey wr3 = (if es = [] then [] else de_key (last es))"
    using keep bs(6) inv1(1) by (simp_all add: writer_inv_def)
  have offs: "len = word_of_nat (length ?bloom)" "len' = word_of_nat (length ?index)"
    "wr_offset wr2 = word_of_nat (length (blocks_bytes bs) + length ?bloom)" "wr_offset wr3 = word_of_nat (length ?d)"
    using W2 W3 keep bs(5) fields(1) by simp_all
  let ?f = "footer_bytes (wr_offset wr2) len' (wr_offset wr1) len (word_of_nat (wr_numEntries wr3)) (wr_maxSeq wr3)"
  have table: "?d @ ?f = table_bytes bf bs"
    using offs bs(5) fields es by (simp add: table_bytes_def Let_def)
  have "ok'" using footer(6) by auto
  have "holds path (wr_w wr3) w3 ?d" using W2 W3 bs(4) fields(1) by simp
  from bufio_Write_holds(3) [OF footer(5) \<open>ok'\<close> this] have h: "holds path b w4 (table_bytes bf bs)" by (simp only: table)
  let ?wr = "wr3\<lparr>wr_w := b, wr_offset := wr_offset wr3 + word_of_nat footerSize\<rparr>"
  have "flush_sync_close ?wr w4 = (Inr meta, wr', w')" using footer(6) \<open>ok'\<close> by simp
  note F = flush_sync_close_spec(2) [OF this refl, of path "table_bytes bf bs"]
  have "wr_offset ?wr = word_of_nat (length (table_bytes bf bs))"
    using offs(4) by (simp add: table [symmetric])
  moreover have "go_len (table_bytes bf bs) \<longrightarrow> is_table (table_bytes bf bs) es"
    using es bs(2) ok bf(1,2) inv1(1) unfolding is_table_def valid_table_def writer_inv_def by blast
  ultimately show ?thesis using F h fields es bs(2) bf(1,3) by auto
qed auto

lemma Finish_returns:
  assumes "writer_inv path es wr w" "unat (fl_m (fl (op_BloomFPRate (wr_opts wr))) (length es)) + 7 < 2 ^ 64"
  shows "Finish fl wr w \<noteq> None"
proof (cases "wr_closed wr")
  case True
  then show ?thesis by (simp add: Finish_def)
next
  case False
  obtain r wr1 w1 where 1: "flushBlock (wr\<lparr>wr_closed := True\<rparr>) w = (r, wr1, w1)" by (metis prod_cases3)
  show ?thesis
  proof (cases r)
    case None
    have "writer_inv path es (wr\<lparr>wr_closed := True\<rparr>) w" using assms(1) by (simp add: writer_inv_def)
    from flushBlock_inv [OF this 1 [unfolded None]] flushBlock_touches(4) [OF 1]
    have "wr_keys wr1 = map de_key es" "wr_opts wr1 = wr_opts wr" by (simp_all add: flushed_inv_def writer_inv_def)
    with bloom_add_all [OF newBloomFilter_inv [OF assms(2)], of "map de_key es"] 1 None False show ?thesis
      by (auto simp: Finish_def Let_def split: prod.splits sum.splits bool.splits) (metis prod_cases3)
  qed (use False 1 in \<open>simp add: Finish_def\<close>)
qed

section \<open>Writing all entries\<close>

text \<open>The loop of the callers: add one entry after the other, and stop at the first error.\<close>

fun add_entries :: "decodedEntry list \<Rightarrow> Writer \<Rightarrow> world \<Rightarrow> sst_error option \<times> Writer \<times> world" where
  "add_entries [] wr w = (None, wr, w)"
| "add_entries (e # es) wr w =
     (case Writer_Add (de_key e) (de_value e) (de_seq e) (de_deleted e) wr w of
        (Some err, wr, w) \<Rightarrow> (Some err, wr, w)
      | (None, wr, w) \<Rightarrow> add_entries es wr w)"

lemma add_entries_touches:
  assumes "add_entries es wr w = (r, wr', w')"
  shows "bw_path (wr_w wr') = bw_path (wr_w wr)" "only_touches (bw_path (wr_w wr)) w w'"
    "wr_closed wr' = wr_closed wr" "wr_opts wr' = wr_opts wr"
proof -
  have "bw_path (wr_w wr') = bw_path (wr_w wr) \<and> only_touches (bw_path (wr_w wr)) w w'
      \<and> wr_closed wr' = wr_closed wr \<and> wr_opts wr' = wr_opts wr"
    using assms
  proof (induction es arbitrary: wr w)
    case (Cons e es)
    obtain r1 wr1 w1 where a: "Writer_Add (de_key e) (de_value e) (de_seq e) (de_deleted e) wr w = (r1, wr1, w1)"
      by (metis prod_cases3)
    note A = Writer_Add_touches [OF a]
    show ?case
    proof (cases r1)
      case (Some err)
      with Cons.prems a A show ?thesis by simp
    next
      case None
      with Cons.prems a have "add_entries es wr1 w1 = (r, wr', w')" by simp
      from Cons.IH [OF this] A only_touches_trans show ?thesis by metis
    qed
  qed simp
  then show "bw_path (wr_w wr') = bw_path (wr_w wr)" "only_touches (bw_path (wr_w wr)) w w'"
    "wr_closed wr' = wr_closed wr" "wr_opts wr' = wr_opts wr" by simp_all
qed

lemma add_entries_inv:
  assumes "writer_inv path es0 wr w" "\<not> wr_closed wr" "keys_sorted (es0 @ es)" "add_entries es wr w = (r, wr', w')"
  shows "r = None \<and> writer_inv path (es0 @ es) wr' w' \<or> r = Some ErrSstWrite"
  using assms
proof (induction es arbitrary: es0 wr w)
  case (Cons e es)
  obtain r1 wr1 w1 where a: "Writer_Add (de_key e) (de_value e) (de_seq e) (de_deleted e) wr w = (r1, wr1, w1)"
    by (metis prod_cases3)
  have "keys_sorted (es0 @ [e])" using Cons.prems(3) by (simp add: keys_sorted_def sorted_wrt_append)
  then have key: "es0 = [] \<or> de_key (last es0) < de_key e" by (simp add: keys_sorted_snoc)
  from Writer_Add_inv [OF Cons.prems(1,2) key a]
  have A: "r1 = None \<and> writer_inv path (es0 @ [e]) wr1 w1 \<or> r1 = Some ErrSstWrite" .
  show ?case
  proof (cases r1)
    case None
    with A Cons.prems(3,4) a have "writer_inv path (es0 @ [e]) wr1 w1" "keys_sorted ((es0 @ [e]) @ es)"
      "add_entries es wr1 w1 = (r, wr', w')" by simp_all
    from Cons.IH [OF this(1) _ this(2,3)] Writer_Add_touches(3) [OF a] Cons.prems(2) show ?thesis by simp
  next
    case (Some err)
    with A Cons.prems(4) a show ?thesis by simp
  qed
qed simp

end
