(* ===== verification/Sst_Cache.thy ===== *)
theory Sst_Cache
  imports Prelude
begin

text \<open>
  The block cache (\<open>src/sstable/cache.go\<close>): a least-recently-used list of blocks, most recent first, and the
  map from keys to its elements. A nil cache is \<open>None\<close>.
\<close>

section \<open>The cache\<close>

type_synonym cacheKey = "string \<times> uint64"

record cacheEntry =
  ce_key :: cacheKey
  ce_data :: bytes

record BlockCache =
  bc_maxBytes :: int
  bc_curBytes :: int
  bc_ll :: "cacheEntry list"
  bc_items :: "cacheKey \<Rightarrow> cacheEntry option"

definition NewBlockCache :: "int \<Rightarrow> BlockCache" where
  "NewBlockCache maxBytes = \<lparr>bc_maxBytes = maxBytes, bc_curBytes = 0, bc_ll = [], bc_items = (\<lambda>_. None)\<rparr>"

definition MoveToFront :: "cacheEntry \<Rightarrow> cacheEntry list \<Rightarrow> cacheEntry list" where
  "MoveToFront e ll = e # filter (\<lambda>x. ce_key x \<noteq> ce_key e) ll"

definition cache_get :: "string \<Rightarrow> uint64 \<Rightarrow> BlockCache option \<Rightarrow> bytes option \<times> BlockCache option" where
  "cache_get file off c0 =
     (case c0 of
        None \<Rightarrow> (None, None)
      | Some c \<Rightarrow>
          (case bc_items c (file, off) of
             None \<Rightarrow> (None, Some c)
           | Some el \<Rightarrow> (Some (ce_data el), Some (c\<lparr>bc_ll := MoveToFront el (bc_ll c)\<rparr>))))"

definition evictOldest :: "BlockCache \<Rightarrow> BlockCache" where
  "evictOldest c =
     (if bc_ll c = [] then c
      else
        let el = last (bc_ll c)
        in c\<lparr>bc_ll := butlast (bc_ll c), bc_items := (bc_items c)(ce_key el := None),
             bc_curBytes := bc_curBytes c - int (length (ce_data el))\<rparr>)"

text \<open>The loop over \<open>evictOldest\<close>; on an empty list above the limit it would not end, which is \<open>None\<close>.\<close>

function evict_loop :: "BlockCache \<Rightarrow> BlockCache option" where
  "evict_loop c =
     (if bc_curBytes c \<le> bc_maxBytes c then Some c
      else if bc_ll c = [] then None
      else evict_loop (evictOldest c))"
  by pat_completeness auto
termination
  by (relation "measure (\<lambda>c. length (bc_ll c))") (auto simp: evictOldest_def Let_def)

declare evict_loop.simps [simp del]

definition cache_put :: "string \<Rightarrow> uint64 \<Rightarrow> bytes \<Rightarrow> BlockCache option \<Rightarrow> BlockCache option option" where
  "cache_put file off data c0 =
     (case c0 of
        None \<Rightarrow> Some None
      | Some c \<Rightarrow>
          if bc_maxBytes c \<le> 0 then Some (Some c)
          else
            (case bc_items c (file, off) of
               Some el \<Rightarrow> Some (Some (c\<lparr>bc_ll := MoveToFront el (bc_ll c)\<rparr>))
             | None \<Rightarrow>
                 if bc_maxBytes c < int (length data) then Some (Some c)
                 else
                   let el = \<lparr>ce_key = (file, off), ce_data = data\<rparr>
                   in map_option Some (evict_loop
                        (c\<lparr>bc_ll := el # bc_ll c, bc_items := (bc_items c)((file, off) \<mapsto> el),
                           bc_curBytes := bc_curBytes c + int (length data)\<rparr>))))"

definition entryCount :: "BlockCache option \<Rightarrow> nat" where
  "entryCount c0 = (case c0 of None \<Rightarrow> 0 | Some c \<Rightarrow> card (dom (bc_items c)))"

section \<open>The invariant\<close>

definition total :: "cacheEntry list \<Rightarrow> int" where
  "total es = (\<Sum>e\<leftarrow>es. int (length (ce_data e)))"

definition cache_inv :: "BlockCache \<Rightarrow> bool" where
  "cache_inv c \<longleftrightarrow> distinct (map ce_key (bc_ll c))
     \<and> bc_items c = map_of (map (\<lambda>e. (ce_key e, e)) (bc_ll c))
     \<and> bc_curBytes c = total (bc_ll c)"

lemma total_simps [simp]: "total [] = 0" "total (e # es) = int (length (ce_data e)) + total es"
  "total (xs @ ys) = total xs + total ys"
  by (simp_all add: total_def)

lemma total_nonneg [simp]: "0 \<le> total es"
  by (induction es) simp_all

text \<open>What is left of a list when its oldest entries are dropped until the rest fits.\<close>

fun fit :: "int \<Rightarrow> cacheEntry list \<Rightarrow> cacheEntry list" where
  "fit m [] = []"
| "fit m (e # es) = (if int (length (ce_data e)) \<le> m then e # fit (m - int (length (ce_data e))) es else [])"

lemma fit_all: "total es \<le> m \<Longrightarrow> fit m es = es"
proof (induction es arbitrary: m)
  case (Cons e es)
  then have "int (length (ce_data e)) \<le> m" using total_nonneg [of es] unfolding total_simps by linarith
  with Cons show ?case by simp
qed simp

lemma fit_drop_last: "m < total (es @ [e]) \<Longrightarrow> fit m (es @ [e]) = fit m es"
  by (induction es arbitrary: m) auto

lemma map_of_keyed:
  assumes "distinct (map ce_key es)"
  shows "map_of (map (\<lambda>e. (ce_key e, e)) es) k = Some e \<longleftrightarrow> e \<in> set es \<and> ce_key e = k"
  using assms by (induction es) (auto simp: image_iff)

lemma option_eqI: "(\<And>x. a = Some x \<longleftrightarrow> b = Some x) \<Longrightarrow> a = b"
  by (cases a; cases b) auto

lemma map_of_remove:
  assumes "distinct (map ce_key (es @ [e]))"
  shows "(map_of (map (\<lambda>e. (ce_key e, e)) (es @ [e])))(ce_key e := None) = map_of (map (\<lambda>e. (ce_key e, e)) es)"
proof
  fix k
  have "map_of (map (\<lambda>e. (ce_key e, e)) es) (ce_key e) = None"
    using assms by (auto simp: map_of_eq_None_iff image_iff)
  then show "((map_of (map (\<lambda>e. (ce_key e, e)) (es @ [e])))(ce_key e := None)) k = map_of (map (\<lambda>e. (ce_key e, e)) es) k"
    by (auto simp: map_add_def split: option.split)
qed

lemma evictOldest_inv:
  assumes "cache_inv c" "bc_ll c = es @ [e]"
  shows "cache_inv (evictOldest c)" "bc_ll (evictOldest c) = es" "bc_maxBytes (evictOldest c) = bc_maxBytes c"
  using assms map_of_remove [of es e] by (simp_all add: cache_inv_def evictOldest_def Let_def)

lemma evict_loop_spec:
  assumes "cache_inv c" "0 \<le> bc_maxBytes c"
  shows "\<exists>c'. evict_loop c = Some c' \<and> cache_inv c' \<and> bc_maxBytes c' = bc_maxBytes c
    \<and> bc_ll c' = fit (bc_maxBytes c) (bc_ll c) \<and> bc_curBytes c' \<le> bc_maxBytes c'"
  using assms
proof (induction c rule: evict_loop.induct)
  case (1 c)
  have cur: "bc_curBytes c = total (bc_ll c)" using "1.prems"(1) by (simp add: cache_inv_def)
  show ?case
  proof (cases "bc_curBytes c \<le> bc_maxBytes c")
    case True
    with "1.prems" cur show ?thesis by (simp add: evict_loop.simps [of c] fit_all)
  next
    case False
    then have ne: "bc_ll c \<noteq> []" using cur "1.prems"(2) by auto
    then obtain es e where es: "bc_ll c = es @ [e]" by (metis rev_exhaust)
    note ev = evictOldest_inv [OF "1.prems"(1) es]
    have "fit (bc_maxBytes c) (bc_ll c) = fit (bc_maxBytes c) es"
      unfolding es by (rule fit_drop_last) (use False cur es in simp)
    with "1.IH" [OF False ne ev(1)] "1.prems"(2) ev False ne show ?thesis
      by (simp add: evict_loop.simps [of c])
  qed
qed

lemma total_MoveToFront:
  assumes "distinct (map ce_key es)" "el \<in> set es"
  shows "total (MoveToFront el es) = total es"
  using assms
proof (induction es)
  case (Cons e es)
  show ?case
  proof (cases "e = el")
    case True
    with Cons.prems(1) have "ce_key x \<noteq> ce_key el" if "x \<in> set es" for x using that by (auto simp: image_iff)
    then have "filter (\<lambda>x. ce_key x \<noteq> ce_key el) es = es" by (simp add: filter_id_conv)
    with True show ?thesis by (simp add: MoveToFront_def)
  next
    case False
    with Cons have "ce_key e \<noteq> ce_key el" "total (MoveToFront el es) = total es" by force+
    then show ?thesis by (simp add: MoveToFront_def)
  qed
qed simp

lemma MoveToFront_inv:
  assumes "cache_inv c" "bc_items c k = Some el"
  shows "cache_inv (c\<lparr>bc_ll := MoveToFront el (bc_ll c)\<rparr>)" "ce_key el = k" "el \<in> set (bc_ll c)"
proof -
  let ?m = "\<lambda>es. map_of (map (\<lambda>e. (ce_key e, e)) es)" and ?l = "MoveToFront el (bc_ll c)"
  have d: "distinct (map ce_key (bc_ll c))" and it: "bc_items c = ?m (bc_ll c)"
    and cur: "bc_curBytes c = total (bc_ll c)" using assms(1) by (simp_all add: cache_inv_def)
  from assms(2) it map_of_keyed [OF d] show el: "ce_key el = k" "el \<in> set (bc_ll c)" by simp_all
  have dist: "distinct (map ce_key ?l)" using d by (auto simp: MoveToFront_def distinct_map_filter)
  have same: "e = el" if "e \<in> set (bc_ll c)" "ce_key e = ce_key el" for e
    using d that el(2) by (auto simp: distinct_map inj_on_def)
  have "?m ?l j = Some e \<longleftrightarrow> ?m (bc_ll c) j = Some e" for j e
    unfolding map_of_keyed [OF d] map_of_keyed [OF dist] using same el(2) by (auto simp: MoveToFront_def)
  then have "?m ?l = ?m (bc_ll c)" by (intro ext option_eqI)
  then show "cache_inv (c\<lparr>bc_ll := ?l\<rparr>)"
    using dist it cur total_MoveToFront [OF d el(2)] by (simp add: cache_inv_def)
qed

lemma cache_put_new:
  assumes "cache_inv c" "0 < bc_maxBytes c" "bc_items c (file, off) = None" "int (length data) \<le> bc_maxBytes c"
  shows "\<exists>c'. cache_put file off data (Some c) = Some (Some c') \<and> cache_inv c' \<and> bc_maxBytes c' = bc_maxBytes c
    \<and> bc_ll c' = fit (bc_maxBytes c) (\<lparr>ce_key = (file, off), ce_data = data\<rparr> # bc_ll c)
    \<and> bc_curBytes c' \<le> bc_maxBytes c'"
proof -
  let ?el = "\<lparr>ce_key = (file, off), ce_data = data\<rparr>"
  let ?c = "c\<lparr>bc_ll := ?el # bc_ll c, bc_items := (bc_items c)((file, off) \<mapsto> ?el),
      bc_curBytes := bc_curBytes c + int (length data)\<rparr>"
  have "(file, off) \<notin> ce_key ` set (bc_ll c)"
    using assms(1,3) by (auto simp: cache_inv_def map_of_eq_None_iff image_iff)
  then have "cache_inv ?c" using assms(1) by (simp add: cache_inv_def)
  from evict_loop_spec [OF this] assms(2) obtain c' where "evict_loop ?c = Some c'" "cache_inv c'"
    "bc_maxBytes c' = bc_maxBytes c" "bc_ll c' = fit (bc_maxBytes c) (?el # bc_ll c)" "bc_curBytes c' \<le> bc_maxBytes c'"
    by auto
  with assms(2-4) show ?thesis by (simp add: cache_put_def Let_def)
qed

section \<open>What the cache holds\<close>

text \<open>Every block of the cache is what \<open>R\<close> says is stored under its key.\<close>

definition coherent :: "(cacheKey \<Rightarrow> bytes \<Rightarrow> bool) \<Rightarrow> BlockCache option \<Rightarrow> bool" where
  "coherent R c0 \<longleftrightarrow> (\<forall>c. c0 = Some c \<longrightarrow> cache_inv c \<and> bc_curBytes c \<le> max 0 (bc_maxBytes c)
     \<and> (\<forall>e \<in> set (bc_ll c). R (ce_key e) (ce_data e)))"

lemma coherent_None [simp]: "coherent R None"
  by (simp add: coherent_def)

lemma coherent_new: "coherent R (Some (NewBlockCache n))"
  by (simp add: coherent_def NewBlockCache_def cache_inv_def)

lemma coherent_get:
  assumes "coherent R c" "cache_get file off c = (res, c')"
  shows "coherent R c'" "res = Some data \<Longrightarrow> R (file, off) data"
proof -
  have "coherent R c' \<and> (res = Some data \<longrightarrow> R (file, off) data)"
  proof (cases c)
    case None
    with assms(2) show ?thesis by (auto simp: cache_get_def)
  next
    case (Some c0)
    show ?thesis
    proof (cases "bc_items c0 (file, off)")
      case None
      with assms Some show ?thesis by (auto simp: cache_get_def)
    next
      case el: (Some el)
      have inv: "cache_inv c0" using assms(1) Some by (simp add: coherent_def)
      note m = MoveToFront_inv [OF inv el]
      have "set (MoveToFront el (bc_ll c0)) \<subseteq> set (bc_ll c0)" using m(3) by (auto simp: MoveToFront_def)
      moreover have "res = Some (ce_data el)" "c' = Some (c0\<lparr>bc_ll := MoveToFront el (bc_ll c0)\<rparr>)"
        using assms(2) Some el by (simp_all add: cache_get_def)
      moreover have "\<forall>e \<in> set (bc_ll c0). R (ce_key e) (ce_data e)" "bc_curBytes c0 \<le> max 0 (bc_maxBytes c0)"
        using assms(1) Some by (simp_all add: coherent_def)
      moreover from this(1) m(2,3) have "R (file, off) (ce_data el)" by force
      ultimately show ?thesis using m(1) by (auto simp: coherent_def subset_iff)
    qed
  qed
  then show "coherent R c'" "res = Some data \<Longrightarrow> R (file, off) data" by blast+
qed

lemma fit_subset: "set (fit m es) \<subseteq> set es"
  by (induction es arbitrary: m) auto

lemma coherent_put:
  assumes "coherent R c" "R (file, off) data"
  shows "\<exists>c'. cache_put file off data c = Some c' \<and> coherent R c'"
proof (cases c)
  case None
  then show ?thesis by (simp add: cache_put_def)
next
  case (Some c0)
  have inv: "cache_inv c0" using assms(1) Some by (simp add: coherent_def)
  show ?thesis
  proof (cases "bc_items c0 (file, off)")
    case el: (Some el)
    note m = MoveToFront_inv [OF inv el]
    have "set (MoveToFront el (bc_ll c0)) \<subseteq> set (bc_ll c0)" using m(3) by (auto simp: MoveToFront_def)
    moreover have "\<forall>e \<in> set (bc_ll c0). R (ce_key e) (ce_data e)" "bc_curBytes c0 \<le> max 0 (bc_maxBytes c0)"
      using assms(1) Some by (simp_all add: coherent_def)
    ultimately show ?thesis using m Some el assms(1) by (auto simp: cache_put_def coherent_def subset_iff)
  next
    case None
    show ?thesis
    proof (cases "0 < bc_maxBytes c0 \<and> int (length data) \<le> bc_maxBytes c0")
      case False
      with assms(1) Some None show ?thesis by (auto simp: cache_put_def)
    next
      case True
      let ?l = "\<lparr>ce_key = (file, off), ce_data = data\<rparr> # bc_ll c0"
      obtain c' where c': "cache_put file off data (Some c0) = Some (Some c')" "cache_inv c'"
        "bc_maxBytes c' = bc_maxBytes c0" "bc_ll c' = fit (bc_maxBytes c0) ?l" "bc_curBytes c' \<le> bc_maxBytes c'"
        using cache_put_new [OF inv _ None] True by blast
      have "\<forall>e \<in> set ?l. R (ce_key e) (ce_data e)" using assms Some by (simp add: coherent_def)
      then have "\<forall>e \<in> set (bc_ll c'). R (ce_key e) (ce_data e)" unfolding c'(4) using fit_subset by blast
      with Some c' True show ?thesis by (auto simp: coherent_def)
    qed
  qed
qed

lemma evict_loop_maxBytes: "evict_loop c = Some c' \<Longrightarrow> bc_maxBytes c' = bc_maxBytes c"
  by (induction c rule: evict_loop.induct)
    (subst (asm) (2) evict_loop.simps, auto simp: evictOldest_def Let_def split: if_splits)

lemma cache_get_maxBytes: "map_option bc_maxBytes (snd (cache_get f i c)) = map_option bc_maxBytes c"
  by (auto simp: cache_get_def split: option.splits)

lemma cache_put_maxBytes: "cache_put f i d c = Some c' \<Longrightarrow> map_option bc_maxBytes c' = map_option bc_maxBytes c"
  by (auto simp: cache_put_def Let_def dest: evict_loop_maxBytes split: option.splits if_splits)

text \<open>The operations on a cache, for sequences of them.\<close>

datatype cache_op = CGet string uint64 | CPut string uint64 bytes

fun cache_step :: "cache_op \<Rightarrow> BlockCache option \<Rightarrow> BlockCache option option" where
  "cache_step (CGet f i) c = Some (snd (cache_get f i c))"
| "cache_step (CPut f i d) c = cache_put f i d c"



end
