(* ===== verification/Sst_Reader.thy ===== *)
theory Sst_Reader
  imports Sst_Writer Sst_Cache
begin

text \<open>
  Reading a sorted table (\<open>src/sstable/reader.go\<close>): opening, lookups through the Bloom filter, the index and
  the block cache, and the iterator. A table file does not change once it is written, so a handle is its
  path; the cache a reader points to is shared, and its state is passed to every operation.
\<close>

section \<open>Opening a table\<close>

record Reader =
  rd_path :: string
  rd_index :: "indexEntry list"
  rd_bloom :: bloomFilter
  rd_numEntries :: int
  rd_maxSeq :: uint64

definition readChecksummed :: "string \<Rightarrow> uint64 \<Rightarrow> uint64 \<Rightarrow> (sst_error, bytes) io" where
  "readChecksummed path off len w =
     (if len < 4 then (Inl ErrBlockTooSmall, w)
      else if 2 ^ 63 \<le> unat len then (Inl SstNoReturn, w)
      else
        case os_ReadAt path (unat len) (sint off) w of
          (None, w) \<Rightarrow> (Inl ErrReadAt, w)
        | (Some buf, w) \<Rightarrow>
            let data = take (length buf - 4) buf
            in if crc32_Checksum data \<noteq> Uint32 (drop (length buf - 4) buf) then (Inl ErrChecksum, w)
               else (Inr data, w))"

text \<open>The error returns after a successful open close the file first.\<close>

definition close_on_error :: "string \<Rightarrow> ('e, 'a) io \<Rightarrow> ('e, 'a) io" where
  "close_on_error path m w =
     (case m w of (Inl e, w) \<Rightarrow> (Inl e, snd (os_Close path w)) | (Inr x, w) \<Rightarrow> (Inr x, w))"

definition read_footer :: "string \<Rightarrow> (sst_error, bytes) io" where
  "read_footer path w =
     (case os_Stat path w of
        (None, w) \<Rightarrow> (Inl ErrSstStat, w)
      | (Some sz, w) \<Rightarrow>
          if sz < footerSize then (Inl ErrTooSmall, w)
          else
            (case os_ReadAt path footerSize (int (sz - footerSize)) w of
               (None, w) \<Rightarrow> (Inl ErrReadFooter, w)
             | (Some footer, w) \<Rightarrow> (Inr footer, w)))"

definition open_blocks :: "string \<Rightarrow> bytes \<Rightarrow> (sst_error, Reader) io" where
  "open_blocks path footer =
     (let indexOffset = Uint64 footer; indexLength = Uint64 (drop 8 footer);
          bloomOffset = Uint64 (drop 16 footer); bloomLength = Uint64 (drop 24 footer);
          numEntries = Uint64 (drop 32 footer); maxSeq = Uint64 (drop 40 footer); magic = Uint64 (drop 48 footer)
      in if magic \<noteq> magicNumber then Pair (Inl ErrBadMagic)
         else
           and_then (readChecksummed path bloomOffset bloomLength) (\<lambda>bloomRaw.
           and_then (Pair (decodeBloomFilter bloomRaw)) (\<lambda>bloom.
           and_then (readChecksummed path indexOffset indexLength) (\<lambda>indexRaw.
           and_then (Pair (decodeIndex indexRaw)) (\<lambda>index.
             Pair (Inr \<lparr>rd_path = path, rd_index = index, rd_bloom = bloom, rd_numEntries = sint numEntries,
                        rd_maxSeq = maxSeq\<rparr>))))))"

definition OpenWithCache :: "string \<Rightarrow> (sst_error, Reader) io" where
  "OpenWithCache path w =
     (case os_Open path w of
        (False, w) \<Rightarrow> (Inl ErrSstOpen, w)
      | (True, w) \<Rightarrow> close_on_error path (and_then (read_footer path) (open_blocks path)) w)"

definition Reader_Close :: "Reader \<Rightarrow> world \<Rightarrow> bool \<times> world" where
  "Reader_Close r = os_Close (rd_path r)"

section \<open>Lookups\<close>

definition readDataBlock :: "Reader \<Rightarrow> indexEntry \<Rightarrow> BlockCache option \<Rightarrow> world \<Rightarrow> (sst_error + bytes) \<times> BlockCache option \<times> world" where
  "readDataBlock r blk c w =
     (case cache_get (rd_path r) (ie_offset blk) c of
        (Some data, c) \<Rightarrow> (Inr data, c, w)
      | (None, c) \<Rightarrow>
          (case readChecksummed (rd_path r) (ie_offset blk) (ie_length blk) w of
             (Inl e, w) \<Rightarrow> (Inl e, c, w)
           | (Inr data, w) \<Rightarrow>
               (case cache_put (rd_path r) (ie_offset blk) data c of
                  None \<Rightarrow> (Inl SstNoReturn, c, w)
                | Some c \<Rightarrow> (Inr data, c, w))))"

text \<open>The loop of \<open>Get\<close> over the entries of a block.\<close>

function find_entry :: "bytes \<Rightarrow> bytes \<Rightarrow> sst_error + decodedEntry option" where
  "find_entry key data =
     (if data = [] then Inr None
      else sum_bind (decodeEntry data) (\<lambda>(e, n).
             if bytes_Compare (de_key e) key = 0 then Inr (Some e)
             else if bytes_Compare (de_key e) key = 1 then Inr None
             else find_entry key (drop n data)))"
  by pat_completeness auto
termination
  by (relation "measure (\<lambda>(key, data). length data)") (auto dest: decodeEntry_shorter)

declare find_entry.simps [simp del]

type_synonym found = "(bytes \<times> uint64 \<times> bool) option"

definition Reader_Get :: "Reader \<Rightarrow> bytes \<Rightarrow> BlockCache option \<Rightarrow> world \<Rightarrow> (sst_error + found) \<times> BlockCache option \<times> world" where
  "Reader_Get r key c w =
     (case mayContain key (rd_bloom r) of
        None \<Rightarrow> (Inl SstNoReturn, c, w)
      | Some False \<Rightarrow> (Inr None, c, w)
      | Some True \<Rightarrow>
          let i = sort_Search (length (rd_index r)) (\<lambda>i. 0 \<le> bytes_Compare (ie_lastKey (rd_index r ! i)) key)
          in if i = length (rd_index r) then (Inr None, c, w)
             else
               (case readDataBlock r (rd_index r ! i) c w of
                  (Inl e, c, w) \<Rightarrow> (Inl e, c, w)
                | (Inr data, c, w) \<Rightarrow>
                    (sum_bind (find_entry key data)
                       (\<lambda>e. Inr (map_option (\<lambda>e. (de_value e, de_seq e, de_deleted e)) e)), c, w)))"

section \<open>Iteration\<close>

record SstIterator =
  si_blockIdx :: int
  si_entries :: "decodedEntry list"
  si_entryIdx :: int
  si_err :: "sst_error option"

definition SstNewIterator :: SstIterator where
  "SstNewIterator = \<lparr>si_blockIdx = -1, si_entries = [], si_entryIdx = -1, si_err = None\<rparr>"

definition loadBlock :: "Reader \<Rightarrow> int \<Rightarrow> SstIterator \<Rightarrow> BlockCache option \<Rightarrow> world \<Rightarrow> SstIterator \<times> BlockCache option \<times> world" where
  "loadBlock r idx it c w =
     (if idx < 0 \<or> int (length (rd_index r)) \<le> idx
      then (it\<lparr>si_entries := [], si_entryIdx := -1, si_blockIdx := idx\<rparr>, c, w)
      else
        case readDataBlock r (rd_index r ! nat idx) c w of
          (Inl e, c, w) \<Rightarrow> (it\<lparr>si_err := Some e, si_entries := [], si_entryIdx := -1\<rparr>, c, w)
        | (Inr data, c, w) \<Rightarrow>
            (case decode_block data of
               Inl e \<Rightarrow> (it\<lparr>si_err := Some e, si_entries := [], si_entryIdx := -1\<rparr>, c, w)
             | Inr entries \<Rightarrow> (it\<lparr>si_entries := entries, si_entryIdx := 0, si_blockIdx := idx\<rparr>, c, w)))"

definition SeekToFirst :: "Reader \<Rightarrow> SstIterator \<Rightarrow> BlockCache option \<Rightarrow> world \<Rightarrow> SstIterator \<times> BlockCache option \<times> world" where
  "SeekToFirst r it = loadBlock r 0 (it\<lparr>si_err := None\<rparr>)"

definition Valid :: "SstIterator \<Rightarrow> bool" where
  "Valid it \<longleftrightarrow> si_err it = None \<and> 0 \<le> si_entryIdx it \<and> si_entryIdx it < int (length (si_entries it))"

definition Next :: "Reader \<Rightarrow> SstIterator \<Rightarrow> BlockCache option \<Rightarrow> world \<Rightarrow> SstIterator \<times> BlockCache option \<times> world" where
  "Next r it c w =
     (if si_err it \<noteq> None then (it, c, w)
      else
        let it = it\<lparr>si_entryIdx := si_entryIdx it + 1\<rparr>
        in if int (length (si_entries it)) \<le> si_entryIdx it then loadBlock r (si_blockIdx it + 1) it c w
           else (it, c, w))"

text \<open>The entry the accessors \<open>Key\<close>, \<open>Value\<close>, \<open>Deleted\<close> and \<open>SeqNum\<close> read; \<open>None\<close> is a panic.\<close>

definition si_current :: "SstIterator \<Rightarrow> decodedEntry option" where
  "si_current it = go_index (si_entries it) (si_entryIdx it)"

lemma Next_measure:
  assumes "Next r it c w = (it', c', w')" "Valid it" "Valid it'"
  shows "nat (int (length (rd_index r)) - si_blockIdx it') < nat (int (length (rd_index r)) - si_blockIdx it)
    \<or> si_blockIdx it' = si_blockIdx it
      \<and> nat (int (length (si_entries it')) - si_entryIdx it') < nat (int (length (si_entries it)) - si_entryIdx it)"
  using assms by (auto simp: Next_def Valid_def loadBlock_def Let_def split: if_splits prod.splits sum.splits)

text \<open>The loop over a table, \<open>for it.SeekToFirst(); it.Valid(); it.Next()\<close>, and the entries it visits.\<close>

function iter_loop :: "Reader \<Rightarrow> SstIterator \<Rightarrow> BlockCache option \<Rightarrow> world
    \<Rightarrow> decodedEntry list \<times> SstIterator \<times> BlockCache option \<times> world" where
  "iter_loop r it c w =
     (if \<not> Valid it then ([], it, c, w)
      else
        case Next r it c w of
          (it', c', w') \<Rightarrow>
            (case iter_loop r it' c' w' of (es, res) \<Rightarrow> (si_entries it ! nat (si_entryIdx it) # es, res)))"
  by pat_completeness auto
termination
  by (relation "measures [\<lambda>(r, it, c, w). if Valid it then Suc (nat (int (length (rd_index r)) - si_blockIdx it)) else 0,
      \<lambda>(r, it, c, w). nat (int (length (si_entries it)) - si_entryIdx it)]")
    (auto split: prod.split dest: Next_measure)

declare iter_loop.simps [simp del]

definition iter_all :: "Reader \<Rightarrow> BlockCache option \<Rightarrow> world \<Rightarrow> decodedEntry list \<times> SstIterator \<times> BlockCache option \<times> world" where
  "iter_all r c w = (case SeekToFirst r SstNewIterator c w of (it, c, w) \<Rightarrow> iter_loop r it c w)"

section \<open>Reading what was written\<close>

lemma length_index_of [simp]: "length (index_of off bs) = length bs"
  by (induction bs arbitrary: off) simp_all

lemma index_of_nth:
  "k < length bs \<Longrightarrow> index_of off bs ! k =
     \<lparr>ie_lastKey = de_key (last (bs ! k)), ie_offset = word_of_nat (off + length (blocks_bytes (take k bs))),
      ie_length = word_of_nat (length (block_bytes (bs ! k)))\<rparr>"
  by (induction bs arbitrary: off k) (auto simp: nth_Cons add.assoc split: nat.splits)

lemma index_of_keys: "map ie_lastKey (index_of off bs) = map (\<lambda>b. de_key (last b)) bs"
  by (induction bs arbitrary: off) simp_all

lemma go_len_sint: "n < 2 ^ 63 \<Longrightarrow> sint (word_of_nat n :: uint64) = int n"
  by (simp add: sint_word_ariths signed_of_nat signed_take_bit_int_eq_self)

lemma go_len_unat: "n < 2 ^ 63 \<Longrightarrow> unat (word_of_nat n :: uint64) = n"
  by (rule unat_of_nat_small) simp

lemma readChecksummed_at:
  assumes d: "file_data w p = Some (x @ checksummed data @ y)" "go_len (x @ checksummed data @ y)"
    and rd: "readChecksummed p (word_of_nat (length x)) (word_of_nat (length (checksummed data))) w = (r, w')"
  shows "w_files w' = w_files w" "r = Inr data \<or> r = Inl ErrReadAt" "w_faults w = (\<lambda>_. Ok) \<Longrightarrow> r = Inr data \<and> w' = w"
proof -
  let ?n = "length (checksummed data)"
  have len: "length x < 2 ^ 63" "?n < 2 ^ 63" "?n = length data + 4"
    using d(2) by (simp_all add: go_len_def checksummed_def)
  have n4: "\<not> (word_of_nat ?n :: uint64) < 4" using len go_len_unat [OF len(2)] by (simp add: word_less_nat_alt)
  obtain ob w1 where o: "os_ReadAt p ?n (int (length x)) w = (ob, w1)" by fastforce
  have buf: "ob = Some (checksummed data) \<or> ob = None" and ok: "w_faults w = (\<lambda>_. Ok) \<Longrightarrow> ob = Some (checksummed data) \<and> w1 = w"
    using o d(1) by (auto simp: os_ReadAt_def next_outcome_def file_data_def split: outcome.splits)
  have "readChecksummed p (word_of_nat (length x)) (word_of_nat ?n) w = (case ob of None \<Rightarrow> (Inl ErrReadAt, w1)
      | Some buf \<Rightarrow> let data = take (length buf - 4) buf
          in if crc32_Checksum data \<noteq> Uint32 (drop (length buf - 4) buf) then (Inl ErrChecksum, w1) else (Inr data, w1))"
    using n4 len(1,2) by (simp add: readChecksummed_def go_len_unat go_len_sint o split: option.split)
  with rd have "(r, w') = (case ob of None \<Rightarrow> (Inl ErrReadAt, w1)
      | Some buf \<Rightarrow> let data = take (length buf - 4) buf
          in if crc32_Checksum data \<noteq> Uint32 (drop (length buf - 4) buf) then (Inl ErrChecksum, w1) else (Inr data, w1))"
    by simp
  with buf ok os_read_files(3) [OF o]
  show "w_files w' = w_files w" "r = Inr data \<or> r = Inl ErrReadAt" "w_faults w = (\<lambda>_. Ok) \<Longrightarrow> r = Inr data \<and> w' = w"
    by (auto simp: checksummed_def Let_def)
qed

lemma blocks_bytes_split:
  "k < length bs \<Longrightarrow> blocks_bytes bs = blocks_bytes (take k bs) @ block_bytes (bs ! k) @ blocks_bytes (drop (Suc k) bs)"
  by (metis blocks_bytes_Cons(1) blocks_bytes_def concat_append id_take_nth_drop map_append)

lemma length_concat_blocks: "length (concat bs) \<le> length (blocks_bytes bs)"
proof -
  have "length es \<le> length (concat (map enc es))" for es
  proof (induction es)
    case (Cons e es)
    then show ?case using enc_nonempty [of e] by (cases "enc e") simp_all
  qed simp
  then have "length es \<le> length (block_bytes es)" for es by (simp add: block_bytes_def checksummed_def trans_le_add1)
  then show ?thesis by (induction bs) (simp_all add: add_mono)
qed

text \<open>The reader of a table at a path.\<close>

definition reader_for :: "string \<Rightarrow> bloomFilter \<Rightarrow> decodedEntry list list \<Rightarrow> Reader" where
  "reader_for p bf bs = \<lparr>rd_path = p, rd_index = index_of 0 bs, rd_bloom = bf, rd_numEntries = int (length (concat bs)),
     rd_maxSeq = max_seq (concat bs)\<rparr>"

lemma read_footer_spec:
  assumes "file_data w p = Some (x @ f)" "length f = footerSize" "read_footer p w = (r, w')"
  shows "w_files w' = w_files w" "r = Inr f \<or> r = Inl ErrSstStat \<or> r = Inl ErrReadFooter"
    "w_faults w = (\<lambda>_. Ok) \<Longrightarrow> r = Inr f \<and> w' = w"
  using assms
  by (auto simp: read_footer_def os_Stat_def os_ReadAt_def next_outcome_def file_data_def split: outcome.splits)

lemma open_blocks_spec:
  assumes tbl: "file_data w p = Some (table_bytes bf bs)" "valid_table bf bs"
    and f: "f = drop (length (table_bytes bf bs) - footerSize) (table_bytes bf bs)"
    and ob: "open_blocks p f w = (r, w')"
  shows "w_files w' = w_files w" "r = Inr (reader_for p bf bs) \<or> r = Inl ErrReadAt"
    "w_faults w = (\<lambda>_. Ok) \<Longrightarrow> r = Inr (reader_for p bf bs) \<and> w' = w"
proof -
  let ?data = "blocks_bytes bs" and ?bl = "bloom_encode bf" and ?ix = "encodeIndex (index_of 0 bs)"
  let ?f = "footer_bytes (word_of_nat (length ?data + length (checksummed ?bl))) (word_of_nat (length (checksummed ?ix)))
      (word_of_nat (length ?data)) (word_of_nat (length (checksummed ?bl)))
      (word_of_nat (length (concat bs))) (max_seq (concat bs))"
  have tb: "table_bytes bf bs = ?data @ checksummed ?bl @ checksummed ?ix @ ?f" by (simp add: table_bytes_def Let_def)
  have f': "f = ?f" unfolding f tb by simp
  have len: "go_len (table_bytes bf bs)" using tbl(2) by (simp add: valid_table_def)
  obtain r1 w1 where 1: "readChecksummed p (word_of_nat (length ?data)) (word_of_nat (length (checksummed ?bl))) w = (r1, w1)"
    by fastforce
  obtain r2 w2 where 2: "readChecksummed p (word_of_nat (length ?data + length (checksummed ?bl)))
      (word_of_nat (length (checksummed ?ix))) w1 = (r2, w2)" by fastforce
  note R1 = readChecksummed_at [OF _ _ 1, of "checksummed ?ix @ ?f"]
  have R1: "w_files w1 = w_files w" "r1 = Inr ?bl \<or> r1 = Inl ErrReadAt" "w_faults w = (\<lambda>_. Ok) \<Longrightarrow> r1 = Inr ?bl \<and> w1 = w"
    using R1 tbl(1) len unfolding tb by blast+
  have fd: "file_data w1 p = Some (table_bytes bf bs)" using tbl(1) R1(1) by (simp add: file_data_def)
  note R2 = readChecksummed_at [where x = "?data @ checksummed ?bl" and data = ?ix and y = ?f and w = w1]
  have R2: "w_files w2 = w_files w1" "r2 = Inr ?ix \<or> r2 = Inl ErrReadAt" "w_faults w1 = (\<lambda>_. Ok) \<Longrightarrow> r2 = Inr ?ix \<and> w2 = w1"
    using R2 [of p r2 w2] fd len 2 unfolding tb by (simp_all only: append_assoc length_append)
  have bl: "decodeBloomFilter ?bl = Inr bf" using tbl(2) by (simp add: valid_table_def decode_bloom_encode)
  have "last b \<in> set (concat bs)" if "b \<in> set bs" for b
    using tbl(2) that last_in_set [of b] unfolding valid_table_def set_concat by blast
  then have "\<forall>k \<in> set (map ie_lastKey (index_of 0 bs)). go_len k"
    using tbl(2) by (auto simp: valid_table_def entry_ok_def index_of_keys simp del: set_concat)
  then have ix: "decodeIndex ?ix = Inr (index_of 0 bs)" by (simp add: decodeIndex_encodeIndex)
  have n: "sint (word_of_nat (length (concat bs)) :: uint64) = int (length (concat bs))"
    using length_concat_blocks [of bs] len unfolding tb by (intro go_len_sint) (simp add: go_len_def)
  have res: "open_blocks p ?f w = (case r1 of Inl e \<Rightarrow> (Inl e, w1) | Inr _ \<Rightarrow>
      (case r2 of Inl e \<Rightarrow> (Inl e, w2) | Inr _ \<Rightarrow> (Inr (reader_for p bf bs), w2)))"
    using R1(2) R2(2) 1 2 bl ix n
    by (auto simp: open_blocks_def footer_bytes_def Let_def and_then_def reader_for_def)
  with ob f' R1 R2
  show "w_files w' = w_files w" "r = Inr (reader_for p bf bs) \<or> r = Inl ErrReadAt"
    "w_faults w = (\<lambda>_. Ok) \<Longrightarrow> r = Inr (reader_for p bf bs) \<and> w' = w" by auto
qed

lemma OpenWithCache_spec:
  assumes tbl: "file_data w p = Some (table_bytes bf bs)" "valid_table bf bs" and op: "OpenWithCache p w = (r, w')"
  shows "w_files w' = w_files w"
    "r = Inr (reader_for p bf bs) \<or> r \<in> Inl ` {ErrSstOpen, ErrSstStat, ErrReadFooter, ErrReadAt}"
    "w_faults w = (\<lambda>_. Ok) \<Longrightarrow> r = Inr (reader_for p bf bs) \<and> w' = w"
proof -
  obtain ok w1 where 1: "os_Open p w = (ok, w1)" by fastforce
  obtain r2 w2 where 2: "read_footer p w1 = (r2, w2)" by fastforce
  let ?f = "drop (length (table_bytes bf bs) - footerSize) (table_bytes bf bs)"
  let ?x = "take (length (table_bytes bf bs) - footerSize) (table_bytes bf bs)"
  obtain r3 w3 where 3: "open_blocks p ?f w2 = (r3, w3)" by fastforce
  have ok: "w_faults w = (\<lambda>_. Ok) \<Longrightarrow> ok \<and> w1 = w" using 1 tbl(1) by (auto simp: file_data_def)
  have fd1: "file_data w1 p = Some (?x @ ?f)" using tbl(1) os_read_files(1) [OF 1] by (simp add: file_data_def)
  have lf: "length ?f = footerSize" by (simp add: table_bytes_def Let_def)
  note R2 = read_footer_spec [OF fd1 lf 2]
  have "file_data w2 p = Some (table_bytes bf bs)" using fd1 R2(1) by (simp add: file_data_def)
  note R3 = open_blocks_spec [OF this tbl(2) refl 3]
  have res: "OpenWithCache p w = (if \<not> ok then (Inl ErrSstOpen, w1) else
      (case r2 of Inl e \<Rightarrow> (Inl e, snd (os_Close p w2)) | Inr _ \<Rightarrow>
         (case r3 of Inl e \<Rightarrow> (Inl e, snd (os_Close p w3)) | Inr x \<Rightarrow> (Inr x, w3))))"
    using 1 2 3 R2(2) by (cases ok) (auto simp: OpenWithCache_def close_on_error_def and_then_def split: sum.splits)
  have cl: "w_files (snd (os_Close p v)) = w_files v" for v using os_Close_files [of p v] by (cases "os_Close p v") simp
  show "w_files w' = w_files w"
    using op res R2(1) R3(1) os_read_files(1) [OF 1] cl by (auto split: if_splits sum.splits)
  show "r = Inr (reader_for p bf bs) \<or> r \<in> Inl ` {ErrSstOpen, ErrSstStat, ErrReadFooter, ErrReadAt}"
    using op res R2(2) R3(2) by (auto split: if_splits sum.splits)
  show "r = Inr (reader_for p bf bs) \<and> w' = w" if "w_faults w = (\<lambda>_. Ok)"
    using op res ok [OF that] R2(3) R3(3) that by auto
qed

section \<open>Lookups in a table\<close>

text \<open>The tables a set of readers works on, by path, and what a cache shared by them may hold.\<close>

type_synonym tables = "string \<Rightarrow> (bloomFilter \<times> decodedEntry list list) option"

definition tables_in :: "tables \<Rightarrow> world \<Rightarrow> bool" where
  "tables_in T w \<longleftrightarrow> (\<forall>p bf bs. T p = Some (bf, bs) \<longrightarrow> valid_table bf bs \<and> file_data w p = Some (table_bytes bf bs))"

definition cached :: "tables \<Rightarrow> cacheKey \<Rightarrow> bytes \<Rightarrow> bool" where
  "cached T key data \<longleftrightarrow> (\<exists>bf bs k. T (fst key) = Some (bf, bs) \<and> k < length bs
     \<and> snd key = word_of_nat (length (blocks_bytes (take k bs))) \<and> data = concat (map enc (bs ! k)))"

lemma tables_in_files: "w_files w' = w_files w \<Longrightarrow> tables_in T w' = tables_in T w"
  by (simp add: tables_in_def file_data_def)

lemma block_offset_less:
  assumes "j < k" "k \<le> length bs"
  shows "length (blocks_bytes (take j bs)) < length (blocks_bytes (take k bs))"
proof -
  have "take k bs = take j bs @ bs ! j # drop (Suc j) (take k bs)"
    using assms id_take_nth_drop [of j "take k bs"] by simp
  then have "blocks_bytes (take k bs) = blocks_bytes (take j bs) @ block_bytes (bs ! j) @ blocks_bytes (drop (Suc j) (take k bs))"
    by (metis blocks_bytes_Cons(1) blocks_bytes_def concat_append map_append)
  then show ?thesis by (simp add: block_bytes_def checksummed_def)
qed

lemma block_offset_inj:
  assumes "go_len (table_bytes bf bs)" "j < length bs" "k < length bs"
    "(word_of_nat (length (blocks_bytes (take j bs))) :: uint64) = word_of_nat (length (blocks_bytes (take k bs)))"
  shows "j = k"
proof -
  have "length (blocks_bytes bs) < 2 ^ 63" using assms(1) by (simp add: go_len_def table_bytes_def Let_def)
  then have "length (blocks_bytes (take i bs)) < 2 ^ 63" if "i < length bs" for i
    using block_offset_less [of i "length bs" bs] that by simp
  with assms(2-4) have "length (blocks_bytes (take j bs)) = length (blocks_bytes (take k bs))"
    by (metis go_len_unat)
  then show ?thesis using block_offset_less assms(2,3) by (metis less_imp_le_nat nat_neq_iff)
qed

lemma readDataBlock_spec:
  assumes T: "tables_in T w" "T p = Some (bf, bs)" and c: "coherent (cached T) c" and k: "k < length bs"
    and rd: "readDataBlock (reader_for p bf bs) (index_of 0 bs ! k) c w = (r, c', w')"
  shows "w_files w' = w_files w" "coherent (cached T) c'"
    "r = Inr (concat (map enc (bs ! k))) \<or> r = Inl ErrReadAt"
    "w_faults w = (\<lambda>_. Ok) \<Longrightarrow> r = Inr (concat (map enc (bs ! k))) \<and> w' = w"
proof -
  let ?pay = "concat (map enc (bs ! k))" and ?off = "word_of_nat (length (blocks_bytes (take k bs))) :: uint64"
  have tbl: "valid_table bf bs" "file_data w p = Some (table_bytes bf bs)" using T by (simp_all add: tables_in_def)
  then have len: "go_len (table_bytes bf bs)" by (simp add: valid_table_def)
  obtain hit c1 where g: "cache_get p ?off c = (hit, c1)" by fastforce
  note G = coherent_get [OF c g]
  have hit: "data = ?pay" if "hit = Some data" for data
    using G(2) [OF that] T(2) block_offset_inj [OF len _ k] by (auto simp: cached_def)
  obtain r1 w1 where 1: "readChecksummed p ?off (word_of_nat (length (block_bytes (bs ! k)))) w = (r1, w1)" by fastforce
  obtain y where "table_bytes bf bs = blocks_bytes (take k bs) @ checksummed ?pay @ y"
    using blocks_bytes_split [OF k] by (auto simp: table_bytes_def Let_def block_bytes_def)
  with readChecksummed_at [of w p "blocks_bytes (take k bs)" ?pay y r1 w1] tbl(2) len 1
  have R: "w_files w1 = w_files w" "r1 = Inr ?pay \<or> r1 = Inl ErrReadAt" "w_faults w = (\<lambda>_. Ok) \<Longrightarrow> r1 = Inr ?pay \<and> w1 = w"
    by (auto simp: block_bytes_def)
  have "cached T (p, ?off) ?pay" using T(2) k by (auto simp: cached_def)
  from coherent_put [OF G(1) this] obtain c2 where put: "cache_put p ?off ?pay c1 = Some c2" "coherent (cached T) c2" by blast
  have "readDataBlock (reader_for p bf bs) (index_of 0 bs ! k) c w =
      (case hit of Some data \<Rightarrow> (Inr data, c1, w) | None \<Rightarrow>
        (case r1 of Inl e \<Rightarrow> (Inl e, c1, w1) | Inr _ \<Rightarrow> (Inr ?pay, c2, w1)))"
    using g 1 R(2) put(1) by (auto simp: readDataBlock_def reader_for_def index_of_nth [OF k] split: option.splits)
  with rd R hit G(1) put(2) show "w_files w' = w_files w" "coherent (cached T) c'" "r = Inr ?pay \<or> r = Inl ErrReadAt"
    "w_faults w = (\<lambda>_. Ok) \<Longrightarrow> r = Inr ?pay \<and> w' = w"
    by (auto split: option.splits)
qed

text \<open>The entry of a key, in a list of entries.\<close>

definition lookup_entry :: "decodedEntry list \<Rightarrow> bytes \<Rightarrow> decodedEntry option" where
  "lookup_entry es key = find (\<lambda>e. de_key e = key) es"

lemma lookup_entry_simps [simp]:
  "lookup_entry [] key = None"
  "lookup_entry (e # es) key = (if de_key e = key then Some e else lookup_entry es key)"
  by (simp_all add: lookup_entry_def)

lemma lookup_entry_append:
  "lookup_entry (xs @ ys) key = (case lookup_entry xs key of None \<Rightarrow> lookup_entry ys key | Some e \<Rightarrow> Some e)"
  by (induction xs) simp_all

lemma lookup_entry_None: "lookup_entry es key = None \<longleftrightarrow> (\<forall>e \<in> set es. de_key e \<noteq> key)"
  by (auto simp: lookup_entry_def find_None_iff)

lemma keys_sorted_Cons: "keys_sorted (e # es) \<longleftrightarrow> keys_sorted es \<and> (\<forall>x \<in> set es. de_key e < de_key x)"
  by (auto simp: keys_sorted_def)

lemma keys_sorted_append:
  "keys_sorted (xs @ ys) \<longleftrightarrow> keys_sorted xs \<and> keys_sorted ys \<and> (\<forall>x \<in> set xs. \<forall>y \<in> set ys. de_key x < de_key y)"
  by (auto simp: keys_sorted_def sorted_wrt_append)

lemma keys_sorted_last: "keys_sorted es \<Longrightarrow> e \<in> set es \<Longrightarrow> de_key e \<le> de_key (last es)"
  by (induction es) (auto simp: keys_sorted_Cons intro: less_imp_le)

lemma find_entry_spec:
  assumes "\<forall>e \<in> set es. entry_ok e" "keys_sorted es"
  shows "find_entry key (concat (map enc es)) = Inr (lookup_entry es key)"
  using assms
proof (induction es)
  case Nil
  then show ?case by (simp add: find_entry.simps)
next
  case (Cons e es)
  have "lookup_entry es key = None" if "key < de_key e"
    using Cons.prems(2) that by (auto simp: lookup_entry_None keys_sorted_Cons)
  with Cons show ?case
    by (subst find_entry.simps) (auto simp: decodeEntry_enc keys_sorted_Cons)
qed

lemma lookup_in_block:
  assumes "keys_sorted (concat bs)" "k < length bs" "\<forall>b \<in> set (take k bs). de_key (last b) < key"
    "bs ! k \<noteq> []" "key \<le> de_key (last (bs ! k))"
  shows "lookup_entry (concat bs) key = lookup_entry (bs ! k) key"
proof -
  let ?pre = "concat (take k bs)" and ?post = "concat (drop (Suc k) bs)"
  have split: "concat bs = ?pre @ bs ! k @ ?post"
    using assms(2) by (metis concat.simps(2) concat_append id_take_nth_drop)
  have sorted: "keys_sorted ?pre" "\<forall>x \<in> set (bs ! k). \<forall>y \<in> set ?post. de_key x < de_key y"
    using assms(1) unfolding split by (auto simp: keys_sorted_append)
  have "keys_sorted b" if "b \<in> set (take k bs)" for b
    using sorted(1) that by (metis concat.simps(2) concat_append in_set_conv_decomp keys_sorted_append)
  then have "de_key e < key" if "e \<in> set ?pre" for e
    using that assms(3) keys_sorted_last by fastforce
  then have "lookup_entry ?pre key = None" by (auto simp: lookup_entry_None)
  moreover have "lookup_entry ?post key = None"
    using sorted(2) last_in_set [OF assms(4)] assms(5) by (fastforce simp: lookup_entry_None)
  ultimately show ?thesis by (simp add: split lookup_entry_append split: option.split)
qed

definition found_of :: "decodedEntry option \<Rightarrow> found" where
  "found_of = map_option (\<lambda>e. (de_value e, de_seq e, de_deleted e))"

lemma block_search:
  fixes key :: bytes
  assumes "valid_table bf bs"
  defines "i \<equiv> sort_Search (length bs) (\<lambda>i. 0 \<le> bytes_Compare (ie_lastKey (index_of 0 bs ! i)) key)"
  shows "i \<le> length bs" "i = length bs \<Longrightarrow> lookup_entry (concat bs) key = None"
    "i < length bs \<Longrightarrow> lookup_entry (concat bs) key = lookup_entry (bs ! i) key"
proof -
  let ?P = "\<lambda>e. key \<le> ie_lastKey e" and ?ix = "index_of 0 bs"
  have v: "[] \<notin> set bs" "keys_sorted (concat bs)" using assms(1) by (simp_all add: valid_table_def)
  have mono: "sorted_wrt (\<lambda>x y. key \<le> de_key (last x) \<longrightarrow> key \<le> de_key (last y)) bs"
    using v
  proof (induction bs)
    case (Cons b bs)
    have "de_key (last b) < de_key (last b')" if "b' \<in> set bs" for b'
    proof -
      have "b \<noteq> []" "b' \<noteq> []" using Cons.prems(1) that by auto
      with Cons.prems(2) that show ?thesis by (simp add: keys_sorted_append)
    qed
    then have "key \<le> de_key (last b) \<longrightarrow> key \<le> de_key (last b')" if "b' \<in> set bs" for b'
      using that by (meson le_less_trans less_imp_le)
    with Cons show ?case by (simp add: keys_sorted_append)
  qed simp
  have "sorted_wrt (\<lambda>x y. ?P x \<longrightarrow> ?P y) ?ix"
    using mono by (simp add: sorted_wrt_iff_nth_less index_of_nth)
  note part = sort_Search_partition [OF this]
  have i: "i = sort_Search (length ?ix) (\<lambda>i. ?P (?ix ! i))" by (simp add: i_def)
  show "i \<le> length bs" using part(1) i by simp
  have before: "de_key (last b) < key" if "b \<in> set (take i bs)" for b
  proof -
    obtain j where j: "b = bs ! j" "j < i" "j < length bs" using \<open>b \<in> set (take i bs)\<close> by (auto simp: in_set_conv_nth)
    then have "?ix ! j \<in> set (take i ?ix)" by (auto simp: in_set_conv_nth)
    with part(3) i have "\<not> ?P (?ix ! j)" by auto
    with j show ?thesis by (simp add: index_of_nth)
  qed
  show "lookup_entry (concat bs) key = None" if "i = length bs"
  proof -
    have "de_key e < key" if e: "e \<in> set (concat bs)" for e
    proof -
      from e obtain b where b: "b \<in> set bs" "e \<in> set b" by auto
      then have "keys_sorted b" using v(2) by (metis concat.simps(2) concat_append in_set_conv_decomp keys_sorted_append)
      with b before \<open>i = length bs\<close> keys_sorted_last show ?thesis by fastforce
    qed
    then show ?thesis by (force simp: lookup_entry_None)
  qed
  show "lookup_entry (concat bs) key = lookup_entry (bs ! i) key" if "i < length bs"
  proof (rule lookup_in_block [OF v(2) that])
    have "?ix ! i \<in> set (drop i ?ix)" using that by (metis hd_drop_conv_nth hd_in_set drop_eq_Nil length_index_of not_le)
    with part(2) i have "?P (?ix ! i)" by auto
    then show "key \<le> de_key (last (bs ! i))" using that by (simp add: index_of_nth)
    show "bs ! i \<noteq> []" using v(1) that by (metis nth_mem)
  qed (use before in blast)
qed

lemma Reader_Get_spec:
  assumes T: "tables_in T w" "T p = Some (bf, bs)" and c: "coherent (cached T) c"
    and get: "Reader_Get (reader_for p bf bs) key c w = (r, c', w')"
  shows "w_files w' = w_files w" "coherent (cached T) c'"
    "r = Inr (found_of (lookup_entry (concat bs) key)) \<or> r = Inl ErrReadAt"
    "w_faults w = (\<lambda>_. Ok) \<Longrightarrow> r = Inr (found_of (lookup_entry (concat bs) key)) \<and> w' = w"
proof -
  let ?r = "reader_for p bf bs" and ?f = "found_of (lookup_entry (concat bs) key)"
  let ?i = "sort_Search (length bs) (\<lambda>i. 0 \<le> bytes_Compare (ie_lastKey (index_of 0 bs ! i)) key)"
  have v: "valid_table bf bs" using T by (simp add: tables_in_def)
  note S = block_search [OF v, of key]
  obtain may where may: "mayContain key bf = Some may" using v mayContain_total [of bf key] by (auto simp: valid_table_def)
  consider "\<not> may" | "may" "?i = length bs" | "may" "?i < length bs" using S(1) by linarith
  then have "w_files w' = w_files w \<and> coherent (cached T) c' \<and> (r = Inr ?f \<or> r = Inl ErrReadAt)
      \<and> (w_faults w = (\<lambda>_. Ok) \<longrightarrow> r = Inr ?f \<and> w' = w)"
  proof cases
    case 1
    then have "lookup_entry (concat bs) key = None"
      using v may by (auto simp: valid_table_def lookup_entry_None)
    with 1 may get c show ?thesis by (auto simp: Reader_Get_def reader_for_def found_of_def)
  next
    case 2
    with S(2) may get c show ?thesis by (auto simp: Reader_Get_def reader_for_def found_of_def Let_def)
  next
    case 3
    obtain r1 c1 w1 where 1: "readDataBlock ?r (index_of 0 bs ! ?i) c w = (r1, c1, w1)" by (metis prod_cases3)
    note R = readDataBlock_spec [OF T c 3(2) 1]
    have "bs ! ?i \<in> set bs" using 3(2) by simp
    then have "\<forall>e \<in> set (bs ! ?i). entry_ok e" "keys_sorted (bs ! ?i)"
      using v by (auto simp: valid_table_def) (metis concat.simps(2) concat_append in_set_conv_decomp keys_sorted_append)
    from find_entry_spec [OF this] S(3) [OF 3(2)]
    have "find_entry key (concat (map enc (bs ! ?i))) = Inr (lookup_entry (concat bs) key)" by simp
    with 3 may get 1 R show ?thesis
      by (auto simp: Reader_Get_def reader_for_def found_of_def Let_def)
  qed
  then show "w_files w' = w_files w" "coherent (cached T) c'" "r = Inr ?f \<or> r = Inl ErrReadAt"
    "w_faults w = (\<lambda>_. Ok) \<Longrightarrow> r = Inr ?f \<and> w' = w" by blast+
qed

section \<open>Iteration over a table\<close>

text \<open>The iterator stands at entry \<open>j\<close> of block \<open>k\<close>, or after the last block, or has failed.\<close>

definition at_entry :: "decodedEntry list list \<Rightarrow> nat \<Rightarrow> nat \<Rightarrow> SstIterator \<Rightarrow> bool" where
  "at_entry bs k j it \<longleftrightarrow> si_err it = None \<and> si_blockIdx it = int k \<and> k < length bs \<and> si_entries it = bs ! k
     \<and> si_entryIdx it = int j \<and> j < length (bs ! k)"

lemma loadBlock_spec:
  assumes T: "tables_in T w" "T p = Some (bf, bs)" and c: "coherent (cached T) c" and it: "si_err it = None"
    and ld: "loadBlock (reader_for p bf bs) (int k) it c w = (it', c', w')"
  shows "w_files w' = w_files w" "coherent (cached T) c'"
    "if k < length bs then at_entry bs k 0 it' \<or> si_err it' = Some ErrReadAt else si_err it' = None \<and> \<not> Valid it'"
    "w_faults w = (\<lambda>_. Ok) \<Longrightarrow> si_err it' = None \<and> w' = w"
proof -
  have "w_files w' = w_files w \<and> coherent (cached T) c'
    \<and> (if k < length bs then at_entry bs k 0 it' \<or> si_err it' = Some ErrReadAt else si_err it' = None \<and> \<not> Valid it')
    \<and> (w_faults w = (\<lambda>_. Ok) \<longrightarrow> si_err it' = None \<and> w' = w)"
  proof (cases "k < length bs")
    case False
    with ld it c show ?thesis by (auto simp: loadBlock_def reader_for_def Valid_def)
  next
    case True
    obtain r1 c1 w1 where 1: "readDataBlock (reader_for p bf bs) (index_of 0 bs ! k) c w = (r1, c1, w1)" by (metis prod_cases3)
    note R = readDataBlock_spec [OF T c True 1]
    have v: "valid_table bf bs" using T by (simp add: tables_in_def)
    have mem: "bs ! k \<in> set bs" using True by simp
    then have "\<forall>e \<in> set (bs ! k). entry_ok e" using v by (auto simp: valid_table_def)
    then have dec: "decode_block (concat (map enc (bs ! k))) = Inr (bs ! k)" by (rule decode_block_encs)
    have "bs ! k \<noteq> []" using mem v by (metis valid_table_def)
    moreover have "loadBlock (reader_for p bf bs) (int k) it c w = (case r1 of
        Inl e \<Rightarrow> (it\<lparr>si_err := Some e, si_entries := [], si_entryIdx := -1\<rparr>, c1, w1)
      | Inr data \<Rightarrow> (it\<lparr>si_entries := bs ! k, si_entryIdx := 0, si_blockIdx := int k\<rparr>, c1, w1))"
      using True 1 R(3) dec by (auto simp: loadBlock_def reader_for_def)
    ultimately show ?thesis using ld R it True by (auto simp: at_entry_def)
  qed
  then show "w_files w' = w_files w" "coherent (cached T) c'"
    "if k < length bs then at_entry bs k 0 it' \<or> si_err it' = Some ErrReadAt else si_err it' = None \<and> \<not> Valid it'"
    "w_faults w = (\<lambda>_. Ok) \<Longrightarrow> si_err it' = None \<and> w' = w" by blast+
qed

text \<open>What is left of the entries from a position on, and that a loop visits it, or a prefix if it fails.\<close>

definition visits :: "decodedEntry list \<Rightarrow> tables \<Rightarrow> world \<Rightarrow> decodedEntry list \<times> SstIterator \<times> BlockCache option \<times> world \<Rightarrow> bool" where
  "visits es T w res \<longleftrightarrow> (case res of (es', it, c, w') \<Rightarrow> w_files w' = w_files w \<and> coherent (cached T) c
     \<and> (si_err it = None \<and> es' = es \<or> si_err it = Some ErrReadAt \<and> prefix es' es)
     \<and> (w_faults w = (\<lambda>_. Ok) \<longrightarrow> si_err it = None \<and> w' = w))"

lemma iter_loop_stop: "\<not> Valid it \<Longrightarrow> iter_loop r it c w = ([], it, c, w)"
  by (subst iter_loop.simps) simp

lemma visits_Cons:
  assumes "visits es T w' (es', res)" "w_files w' = w_files w" "w_faults w = (\<lambda>_. Ok) \<Longrightarrow> w' = w"
  shows "visits (e # es) T w (e # es', res)"
  using assms by (auto simp: visits_def)

lemma visits_from:
  assumes "visits es T w' res" "w_files w' = w_files w" "w_faults w = (\<lambda>_. Ok) \<Longrightarrow> w' = w"
  shows "visits es T w res"
  using assms by (cases res) (auto simp: visits_def)

lemma visits_stop:
  assumes "w_files w' = w_files w" "coherent (cached T) c" "si_err it = None \<and> es = [] \<or> si_err it = Some ErrReadAt"
    "w_faults w = (\<lambda>_. Ok) \<Longrightarrow> si_err it = None \<and> w' = w"
  shows "visits es T w ([], it, c, w')"
  using assms by (auto simp: visits_def)

text \<open>From a state right after a block was loaded, given the loop from its first entry.\<close>

lemma visits_loaded:
  assumes T: "tables_in T w" "T p = Some (bf, bs)" and c: "coherent (cached T) c" and it: "si_err it = None"
    and ld: "loadBlock (reader_for p bf bs) (int k) it c w = (it', c', w')"
    and loop: "at_entry bs k 0 it' \<Longrightarrow> tables_in T w' \<Longrightarrow> coherent (cached T) c' \<Longrightarrow>
      visits (bs ! k @ concat (drop (Suc k) bs)) T w' (iter_loop (reader_for p bf bs) it' c' w')"
  shows "visits (concat (drop k bs)) T w (iter_loop (reader_for p bf bs) it' c' w')"
proof -
  note L = loadBlock_spec [OF T c it ld]
  have T': "tables_in T w'" using T(1) tables_in_files [OF L(1)] by simp
  show ?thesis
  proof (cases "k < length bs \<and> at_entry bs k 0 it'")
    case True
    then have "concat (drop k bs) = bs ! k @ concat (drop (Suc k) bs)" by (simp add: Cons_nth_drop_Suc [symmetric])
    moreover have "visits (bs ! k @ concat (drop (Suc k) bs)) T w' (iter_loop (reader_for p bf bs) it' c' w')"
      using True by (intro loop T' L(2)) simp
    ultimately show ?thesis using visits_from L(1,4) by metis
  next
    case False
    then have "\<not> Valid it'" "si_err it' = None \<and> concat (drop k bs) = [] \<or> si_err it' = Some ErrReadAt"
      using L(3) by (auto simp: Valid_def split: if_splits)
    with L(1,2,4) show ?thesis by (simp add: iter_loop_stop visits_stop)
  qed
qed

lemma iter_loop_visits:
  assumes "T p = Some (bf, bs)" "tables_in T w" "coherent (cached T) c" "at_entry bs k j it"
  shows "visits (drop j (bs ! k) @ concat (drop (Suc k) bs)) T w (iter_loop (reader_for p bf bs) it c w)"
  using assms
proof (induction "reader_for p bf bs" it c w arbitrary: k j rule: iter_loop.induct)
  case (1 it c w)
  let ?r = "reader_for p bf bs"
  have at: "si_err it = None" "si_blockIdx it = int k" "k < length bs" "si_entries it = bs ! k" "si_entryIdx it = int j"
    "j < length (bs ! k)" using "1.prems"(4) by (simp_all add: at_entry_def)
  then have valid: "Valid it" by (simp add: Valid_def)
  obtain it' c' w' where n: "Next ?r it c w = (it', c', w')" by (metis prod_cases3)
  obtain es' res where l: "iter_loop ?r it' c' w' = (es', res)" by (rule prod.exhaust)
  have unfold: "iter_loop ?r it c w = (bs ! k ! j # es', res)"
    using valid n l at by (subst iter_loop.simps) simp
  have split: "drop j (bs ! k) = bs ! k ! j # drop (Suc j) (bs ! k)" using at(6) by (simp add: Cons_nth_drop_Suc)
  note IH = "1.hyps" [OF _ n [symmetric] refl "1.prems"(1)]
  show ?case
  proof (cases "Suc j < length (bs ! k)")
    case True
    then have "it' = it\<lparr>si_entryIdx := int (Suc j)\<rparr>" "c' = c" "w' = w"
      using n at by (simp_all add: Next_def Let_def add.commute)
    moreover from this have "at_entry bs k (Suc j) it'" using True at by (simp add: at_entry_def)
    ultimately have "visits (drop (Suc j) (bs ! k) @ concat (drop (Suc k) bs)) T w (es', res)"
      using IH [of k "Suc j"] valid l "1.prems" by simp
    from visits_Cons [OF this refl refl] show ?thesis by (simp add: unfold split)
  next
    case False
    then have j: "Suc j = length (bs ! k)" using at(6) by simp
    let ?it = "it\<lparr>si_entryIdx := int j + 1\<rparr>"
    have ld: "loadBlock ?r (int (Suc k)) ?it c w = (it', c', w')"
      using n at j by (simp add: Next_def Let_def add.commute)
    have err: "si_err ?it = None" using at(1) by simp
    have "visits (concat (drop (Suc k) bs)) T w (es', res)"
      using visits_loaded [OF "1.prems"(2,1,3) err ld] IH [of "Suc k" 0] valid l by simp
    from visits_Cons [OF this refl refl] show ?thesis using j by (simp add: unfold split)
  qed
qed

lemma iter_all_visits:
  assumes "tables_in T w" "T p = Some (bf, bs)" "coherent (cached T) c"
  shows "visits (concat bs) T w (iter_all (reader_for p bf bs) c w)"
proof -
  obtain it c' w' where s: "SeekToFirst (reader_for p bf bs) SstNewIterator c w = (it, c', w')" by (metis prod_cases3)
  have "visits (concat (drop 0 bs)) T w (iter_loop (reader_for p bf bs) it c' w')"
    by (rule visits_loaded [OF assms, of "SstNewIterator\<lparr>si_err := None\<rparr>"])
      (use s iter_loop_visits [where j = 0 and k = 0 and T = T and p = p and bf = bf and bs = bs] assms(2) in \<open>simp_all add: SeekToFirst_def\<close>)
  then show ?thesis by (simp add: iter_all_def s)
qed

end
