(* ===== verification/Sst_Table.thy ===== *)
theory Sst_Table
  imports Sst_Reader
begin

text \<open>
  Tables as their users see them: a whole table is written and synced, or an error is returned, and
  what was written is read back through any cache. The properties of \<open>src/sstable\<close> are here.
\<close>

section \<open>Writing on a working disk\<close>

definition healthy :: "bufio \<Rightarrow> world \<Rightarrow> bool" where
  "healthy b w \<longleftrightarrow> \<not> bw_err b \<and> w_faults w = (\<lambda>_. Ok)"

lemma append_file_faults [simp]: "w_faults (append_file p x w) = w_faults w"
  by (simp add: append_file_def set_file_def split: option.split)

lemma os_Write_healthy: "w_faults w = (\<lambda>_. Ok) \<Longrightarrow> os_Write p x w = (length x, True, append_file p x w)"
  by (simp add: os_Write_def)

lemma bufio_Flush_healthy:
  assumes "healthy b w" "bufio_Flush b w = (ok, b', w')"
  shows "ok \<and> healthy b' w'"
  using assms by (auto simp: bufio_Flush_def healthy_def os_Write_healthy split: if_splits)

lemma bufio_Write_healthy:
  assumes "healthy b w" "bufio_Write p b w = (ok, b', w')"
  shows "ok \<and> healthy b' w'"
  using assms
proof (induction p b w rule: bufio_Write.induct)
  case (1 p b w)
  let ?n = "bufio_size - length (bw_buf b)"
  obtain k b1 w1 where fl: "bufio_Flush (b\<lparr>bw_buf := bw_buf b @ take ?n p\<rparr>) w = (k, b1, w1)" by (metis prod_cases3)
  have "healthy (b\<lparr>bw_buf := bw_buf b @ take ?n p\<rparr>) w" using "1.prems"(1) by (simp add: healthy_def)
  note F = bufio_Flush_healthy [OF this fl]
  show ?case
  proof (cases "?n < length p \<and> bw_buf b \<noteq> []")
    case True
    then have "bufio_Write (drop ?n p) b1 w1 = (ok, b', w')"
      using "1.prems" F fl by (simp add: bufio_Write.simps [of p b w] healthy_def Let_def)
    with "1.IH" [OF _ _ _ refl fl [symmetric]] True F "1.prems"(1) show ?thesis by (simp add: healthy_def)
  next
    case False
    with "1.prems" show ?thesis
      by (auto simp: bufio_Write.simps [of p b w] healthy_def os_Write_healthy split: if_splits)
  qed
qed

lemma writeChecksummed_healthy:
  assumes "healthy (wr_w wr) w" "writeChecksummed data wr w = (r, wr', w')"
  shows "r = Inr (word_of_nat (length (checksummed data))) \<and> healthy (wr_w wr') w'"
proof -
  obtain ok b w1 where b: "bufio_Write (checksummed data) (wr_w wr) w = (ok, b, w1)" by (metis prod_cases3)
  with bufio_Write_healthy [OF assms(1) b] assms(2) show ?thesis by (auto simp: writeChecksummed_def Let_def)
qed

lemma flushBlock_healthy:
  assumes "healthy (wr_w wr) w" "flushBlock wr w = (r, wr', w')"
  shows "r = None \<and> healthy (wr_w wr') w'"
proof -
  obtain c wr1 w1 where c: "writeChecksummed (wr_curBlock wr) wr w = (c, wr1, w1)" by (metis prod_cases3)
  with writeChecksummed_healthy [OF assms(1) c] assms show ?thesis by (auto simp: flushBlock_def Let_def split: if_splits)
qed

lemma Writer_Add_healthy:
  assumes "writer_inv path es wr w" "\<not> wr_closed wr" "es = [] \<or> de_key (last es) < de_key e"
    "healthy (wr_w wr) w" "Writer_Add (de_key e) (de_value e) (de_seq e) (de_deleted e) wr w = (r, wr', w')"
  shows "r = None \<and> healthy (wr_w wr') w'"
proof -
  let ?wr = "pend (de_key e) (de_value e) (de_seq e) (de_deleted e) wr"
  note acc = assms(5) [unfolded Writer_Add_accepted [OF assms(1-3)]]
  consider "flushBlock ?wr w = (r, wr', w')" | "(None, ?wr, w) = (r, wr', w')" using acc by (metis (full_types))
  then show ?thesis using flushBlock_healthy [of ?wr w r wr' w'] assms(4) by cases auto
qed

lemma keys_sorted_Nil [simp]: "keys_sorted []"
  by (simp add: keys_sorted_def)

lemma add_entries_healthy:
  assumes "writer_inv path es0 wr w" "\<not> wr_closed wr" "keys_sorted (es0 @ es)" "healthy (wr_w wr) w"
    "add_entries es wr w = (r, wr', w')"
  shows "r = None \<and> healthy (wr_w wr') w'"
  using assms
proof (induction es arbitrary: es0 wr w)
  case (Cons e es)
  obtain r1 wr1 w1 where a: "Writer_Add (de_key e) (de_value e) (de_seq e) (de_deleted e) wr w = (r1, wr1, w1)"
    by (metis prod_cases3)
  have "keys_sorted (es0 @ [e])" using Cons.prems(3) by (simp add: keys_sorted_append keys_sorted_Cons)
  then have key: "es0 = [] \<or> de_key (last es0) < de_key e" by (simp add: keys_sorted_snoc)
  have r1: "r1 = None" "healthy (wr_w wr1) w1" using Writer_Add_healthy [OF Cons.prems(1,2) key Cons.prems(4) a] by simp_all
  with Writer_Add_inv [OF Cons.prems(1,2) key a] have inv: "writer_inv path (es0 @ [e]) wr1 w1" by simp
  have "add_entries es wr1 w1 = (r, wr', w')" "keys_sorted ((es0 @ [e]) @ es)" "\<not> wr_closed wr1"
    using Cons.prems a r1 Writer_Add_touches(3) [OF a] by simp_all
  with Cons.IH [OF inv _ _ r1(2)] show ?case by blast
qed simp

lemma Finish_healthy:
  assumes "\<not> wr_closed wr" "healthy (wr_w wr) w" "Finish fl wr w = Some (r, wr', w')"
  shows "(\<exists>meta. r = Inr meta) \<and> w_faults w' = (\<lambda>_. Ok)"
  using assms(3,1)
proof (cases rule: Finish_writes)
  case (block e wr1 w1)
  then show ?thesis using flushBlock_healthy [of "wr\<lparr>wr_closed := True\<rparr>" w] assms(2) by fastforce
next
  case (bloom wr1 w1 bf e wr2)
  have "healthy (wr_w wr1) w1" using flushBlock_healthy [OF _ bloom(1)] assms(2) by simp
  from writeChecksummed_healthy [OF this bloom(2)] show ?thesis by simp
next
  case (index wr1 w1 bf len wr2 w2 e wr3)
  have "healthy (wr_w wr1) w1" using flushBlock_healthy [OF _ index(1)] assms(2) by simp
  from writeChecksummed_healthy [OF this index(2)] have "healthy (wr_w wr2) w2" by simp
  from writeChecksummed_healthy [OF this index(3)] show ?thesis by simp
next
  case (footer wr1 w1 bf len wr2 w2 len' wr3 w3 ok b w4)
  have "healthy (wr_w wr1) w1" using flushBlock_healthy [OF _ footer(1)] assms(2) by simp
  from writeChecksummed_healthy [OF this footer(3)] have "healthy (wr_w wr2) w2" by simp
  from writeChecksummed_healthy [OF this footer(4)] have "healthy (wr_w wr3) w3" by simp
  from bufio_Write_healthy [OF this footer(5)] have h: "ok" "healthy b w4" by simp_all
  let ?wr = "wr3\<lparr>wr_w := b, wr_offset := wr_offset wr3 + word_of_nat footerSize\<rparr>"
  obtain ok1 b1 w5 where f: "bufio_Flush b w4 = (ok1, b1, w5)" by (metis prod_cases3)
  from bufio_Flush_healthy [OF h(2) f] have ok1: "ok1" "w_faults w5 = (\<lambda>_. Ok)" by (simp_all add: healthy_def)
  obtain ok2 w6 where s: "os_Sync (bw_path b) w5 = (ok2, w6)" by fastforce
  with ok1 have "ok2" "w_faults w6 = (\<lambda>_. Ok)" by (auto simp: os_Sync_def set_file_def split: option.splits)
  with f s ok1 h(1) footer(6) show ?thesis by (auto simp: flush_sync_close_def Let_def)
qed

lemma writeChecksummed_error: "writeChecksummed data wr w = (Inl e, wr', w') \<Longrightarrow> e = ErrSstWrite"
  by (auto simp: writeChecksummed_def Let_def split: prod.splits bool.splits)

lemma Finish_error:
  assumes "Finish fl wr w = Some (r, wr', w')" "\<not> wr_closed wr"
  shows "r \<noteq> Inl SstNoReturn"
  using assms
proof (cases rule: Finish_writes)
  case (block e wr1 w1)
  then have "e = ErrSstWrite"
    by (auto simp: flushBlock_def Let_def dest: writeChecksummed_error split: if_splits prod.splits sum.splits)
  with block show ?thesis by simp
next
  case (footer wr1 w1 bf len wr2 w2 len' wr3 w3 ok b w4)
  then show ?thesis by (auto simp: flush_sync_close_def Let_def split: prod.splits bool.splits)
qed (auto dest: writeChecksummed_error)

section \<open>Writing a table\<close>

text \<open>
  What the callers do: create the file, add the entries in order, finish. The second component of a result
  \<open>Inl\<close> is the state the failed attempt leaves.
\<close>

definition write_table :: "(real \<Rightarrow> floats) \<Rightarrow> string \<Rightarrow> Options \<Rightarrow> decodedEntry list \<Rightarrow> (sst_error, Meta) io" where
  "write_table fl path opts es w =
     (case NewWriter path opts w of
        (Inl e, w) \<Rightarrow> (Inl e, w)
      | (Inr wr, w) \<Rightarrow>
          (case add_entries es wr w of
             (Some e, wr, w) \<Rightarrow> (Inl e, w)
           | (None, wr, w) \<Rightarrow>
               (case Finish fl wr w of
                  None \<Rightarrow> (Inl SstNoReturn, w)
                | Some (r, wr, w) \<Rightarrow> (r, w))))"

definition table_entries :: "decodedEntry list \<Rightarrow> bool" where
  "table_entries es \<longleftrightarrow> keys_sorted es \<and> (\<forall>e \<in> set es. entry_ok e)"

text \<open>The size of a filter for \<open>n\<close> keys, rounded up to whole bytes, is a 64-bit number.\<close>

definition bloom_fits :: "(real \<Rightarrow> floats) \<Rightarrow> nat \<Rightarrow> bool" where
  "bloom_fits fl n \<longleftrightarrow> (\<forall>rate. unat (fl_m (fl rate) n) + 7 < 2 ^ 64)"

definition meta_of :: "string \<Rightarrow> decodedEntry list \<Rightarrow> bytes \<Rightarrow> Meta" where
  "meta_of path es d = \<lparr>me_Path = path, me_NumEntries = length es, me_MinKey = min_key es,
     me_MaxKey = (if es = [] then [] else de_key (last es)), me_MaxSeq = max_seq es, me_FileSize = word_of_nat (length d)\<rparr>"

lemma NewWriter_result:
  assumes "NewWriter path opts w = (r, w')"
  shows "r = Inl ErrSstCreate \<or> (\<exists>wr. r = Inr wr \<and> (w_faults w = (\<lambda>_. Ok) \<longrightarrow> healthy (wr_w wr) w'))"
    "w_faults w = (\<lambda>_. Ok) \<Longrightarrow> \<exists>wr. r = Inr wr"
  using assms
  by (auto simp: NewWriter_def os_Create_def next_outcome_def healthy_def bufio_NewWriter_def set_file_def split: outcome.splits)

lemma write_table_spec:
  assumes es: "table_entries es" and fl: "bloom_fits fl (length es)" and wt: "write_table fl path opts es w = (r, w')"
  shows "only_touches path w w'" "r \<noteq> Inl SstNoReturn" "w_faults w = (\<lambda>_. Ok) \<Longrightarrow> (\<exists>meta. r = Inr meta) \<and> w_faults w' = (\<lambda>_. Ok)"
    "r = Inr meta \<Longrightarrow> \<exists>d. file_data w' path = Some d \<and> file_synced w' path = Some (length d)
      \<and> (go_len d \<longrightarrow> is_table d es)
      \<and> (\<exists>bf bs. d = table_bytes bf bs \<and> concat bs = es \<and> [] \<notin> set bs \<and> bloom_inv bf
           \<and> bf_m bf = bf_m (newBloomFilter (fl (op_BloomFPRate (withDefaults opts))) (length es)))
      \<and> meta = meta_of path es d"
proof -
  let ?ok = "w_faults w = (\<lambda>_. Ok)"
  let ?good = "\<lambda>meta. \<exists>d. file_data w' path = Some d \<and> file_synced w' path = Some (length d)
      \<and> (go_len d \<longrightarrow> is_table d es)
      \<and> (\<exists>bf bs. d = table_bytes bf bs \<and> concat bs = es \<and> [] \<notin> set bs \<and> bloom_inv bf
           \<and> bf_m bf = bf_m (newBloomFilter (fl (op_BloomFPRate (withDefaults opts))) (length es)))
      \<and> meta = meta_of path es d"
  obtain r1 w1 where n: "NewWriter path opts w = (r1, w1)" by fastforce
  note N = NewWriter_spec [OF n] and N' = NewWriter_result [OF n]
  have "only_touches path w w' \<and> r \<noteq> Inl SstNoReturn \<and> (?ok \<longrightarrow> (\<exists>meta. r = Inr meta) \<and> w_faults w' = (\<lambda>_. Ok)) \<and> (\<forall>meta. r = Inr meta \<longrightarrow> ?good meta)"
  proof (cases r1)
    case (Inl e)
    with N(1) N' wt n show ?thesis by (auto simp: write_table_def)
  next
    case (Inr wr)
    then have inv: "writer_inv path [] wr w1" "\<not> wr_closed wr" and path: "bw_path (wr_w wr) = path"
      and h: "?ok \<Longrightarrow> healthy (wr_w wr) w1" using N(2) N'(1) by (auto simp: writer_inv_def holds_def)
    obtain r2 wr2 w2 where a: "add_entries es wr w1 = (r2, wr2, w2)" by (metis prod_cases3)
    have sorted: "keys_sorted ([] @ es)" using es by (simp add: table_entries_def)
    note A = add_entries_touches [OF a] and I = add_entries_inv [OF inv sorted a]
      and H = add_entries_healthy [OF inv sorted h a]
    have t2: "only_touches path w w2" using N(1) A(2) path only_touches_trans by metis
    show ?thesis
    proof (cases r2)
      case (Some e)
      with I H t2 wt n Inr a show ?thesis by (auto simp: write_table_def)
    next
      case None
      have inv2: "writer_inv path es wr2 w2" "\<not> wr_closed wr2" using I A(3) inv(2) None by simp_all
      have fl2: "unat (fl_m (fl (op_BloomFPRate (wr_opts wr2))) (length es)) + 7 < 2 ^ 64" using fl by (simp add: bloom_fits_def)
      obtain r3 wr3 w3 where f: "Finish fl wr2 w2 = Some (r3, wr3, w3)"
        using Finish_returns [where fl = fl, OF inv2(1) fl2] by (metis not_None_eq prod_cases3)
      have res: "r = r3" "w' = w3" using wt n Inr a None f by (simp_all add: write_table_def)
      have ok: "\<forall>e \<in> set es. entry_ok e" using es by (simp add: table_entries_def)
      have t: "only_touches path w w'" using t2 Finish_touches [OF f] A(1) path res only_touches_trans by metis
      have e: "r3 \<noteq> Inl SstNoReturn" using f inv2(2) by (rule Finish_error)
      have h: "?ok \<longrightarrow> (\<exists>meta. r = Inr meta) \<and> w_faults w' = (\<lambda>_. Ok)" using Finish_healthy [OF inv2(2) _ f] H None res by blast
      have opts: "wr_opts wr2 = withDefaults opts" using N(2) A(4) Inr by simp
      from Finish_table [where fl = fl, OF inv2 ok fl2] f have g: "?good meta" if "r = Inr meta" for meta
        using that unfolding opts res meta_of_def by blast
      show ?thesis using t e h g unfolding res by blast
    qed
  qed
  then show "only_touches path w w'" "r \<noteq> Inl SstNoReturn" "?ok \<Longrightarrow> (\<exists>meta. r = Inr meta) \<and> w_faults w' = (\<lambda>_. Ok)" "r = Inr meta \<Longrightarrow> ?good meta"
    by blast+
qed

section \<open>Properties of tables\<close>

lemma power_loss_synced:
  assumes "file_data w p = Some d" "file_synced w p = Some (length d)"
  shows "file_data (power_loss keep w) p = Some d"
  using file_data_power_loss [OF assms, of keep] by auto

lemma is_table_reads:
  assumes "file_data v path = Some d" "is_table d es" "w_faults v = (\<lambda>_. Ok)"
  shows "\<exists>r. OpenWithCache path v = (Inr r, v) \<and> rd_maxSeq r = max_seq es \<and> rd_numEntries r = int (length es)
    \<and> (\<forall>key. Reader_Get r key None v = (Inr (found_of (lookup_entry es key)), None, v))
    \<and> fst (iter_all r None v) = es"
proof -
  from assms(2) obtain bf bs where b: "valid_table bf bs" "d = table_bytes bf bs" "concat bs = es" unfolding is_table_def by blast
  let ?T = "\<lambda>p. if p = path then Some (bf, bs) else None" and ?r = "reader_for path bf bs"
  have T: "tables_in ?T v" "?T path = Some (bf, bs)" using assms(1) b by (simp_all add: tables_in_def)
  have f: "file_data v path = Some (table_bytes bf bs)" using assms(1) b by simp
  have "OpenWithCache path v = (Inr ?r, v)"
    using OpenWithCache_spec(3) [OF f b(1) _ assms(3)] by (metis surj_pair)
  moreover have "Reader_Get ?r key None v = (Inr (found_of (lookup_entry es key)), None, v)" for key
  proof -
    obtain r c w where g: "Reader_Get ?r key None v = (r, c, w)" by (metis prod_cases3)
    have "c = None" using g by (auto simp: Reader_Get_def readDataBlock_def cache_get_def cache_put_def Let_def
        split: option.splits bool.splits prod.splits sum.splits if_splits)
    with Reader_Get_spec(4) [OF T coherent_None g assms(3)] g b(3) show ?thesis by simp
  qed
  moreover have "fst (iter_all ?r None v) = es"
    using iter_all_visits [OF T coherent_None] assms(3) b(3) by (auto simp: visits_def split: prod.splits)
  ultimately show ?thesis using b(3) by (intro exI [of _ ?r]) (simp add: reader_for_def)
qed

text \<open>
  C10. A table written without an error survives a loss of power: opening it afterwards succeeds, a lookup
  of any key returns exactly the entry that was written for it (a tombstone included) or nothing, and
  iteration returns all entries in order. This holds for every block size, false-positive rate and history of faults while
  writing, as long as no error was returned.
\<close>

theorem sstable_survives_power_loss:
  assumes "table_entries es" "bloom_fits fl (length es)" "write_table fl path opts es w = (Inr meta, w')"
    and "\<forall>d. file_data w' path = Some d \<longrightarrow> go_len d"
  shows "\<exists>r. OpenWithCache path (power_loss keep w') = (Inr r, power_loss keep w')
    \<and> rd_maxSeq r = max_seq es \<and> rd_numEntries r = int (length es)
    \<and> (\<forall>key. Reader_Get r key None (power_loss keep w') = (Inr (found_of (lookup_entry es key)), None, power_loss keep w'))
    \<and> fst (iter_all r None (power_loss keep w')) = es"
proof -
  from write_table_spec(4) [OF assms(1-3) refl] assms(4) obtain d where
    "file_data w' path = Some d" "file_synced w' path = Some (length d)" "is_table d es" by blast
  from is_table_reads [OF power_loss_synced [OF this(1,2)] this(3)] show ?thesis by simp
qed

definition ex_entries :: "decodedEntry list" where
  "ex_entries = [\<lparr>de_key = [1], de_value = [7], de_seq = 4, de_deleted = False\<rparr>,
     \<lparr>de_key = [2], de_value = [], de_seq = 5, de_deleted = True\<rparr>]"

definition ex_floats :: "real \<Rightarrow> floats" where
  "ex_floats rate = \<lparr>fl_m = (\<lambda>_. 20), fl_k = (\<lambda>_ _. 7)\<rparr>"

definition ex_disk :: world where
  "ex_disk = \<lparr>w_files = [], w_faults = (\<lambda>_. Ok)\<rparr>"

lemma ex_table:
  "table_entries ex_entries" "bloom_fits ex_floats n"
  "\<exists>meta w'. write_table ex_floats ''t'' \<lparr>op_BlockSize = 1, op_BloomFPRate = 0\<rparr> ex_entries ex_disk = (Inr meta, w')"
proof -
  show *: "table_entries ex_entries" "bloom_fits ex_floats n" for n
    by (simp_all add: table_entries_def keys_sorted_def entry_ok_def go_len_def ex_entries_def bloom_fits_def ex_floats_def)
  obtain r w' where "write_table ex_floats ''t'' \<lparr>op_BlockSize = 1, op_BloomFPRate = 0\<rparr> ex_entries ex_disk = (r, w')"
    by fastforce
  with write_table_spec(3) [OF * this]
  show "\<exists>meta w'. write_table ex_floats ''t'' \<lparr>op_BlockSize = 1, op_BloomFPRate = 0\<rparr> ex_entries ex_disk = (Inr meta, w')"
    by (auto simp: ex_disk_def)
qed

lemma short_concat:
  assumes "concat bs = [a, b]" "[] \<notin> set bs"
  shows "bs = [[a], [b]] \<or> bs = [[a, b]]"
proof -
  obtain x bs1 where 1: "bs = x # bs1" "x \<noteq> []" using assms by (cases bs) auto
  then show ?thesis
    using assms by (cases x; cases bs1) (auto simp: append_eq_Cons_conv Cons_eq_append_conv,
      metis list.exhaust list.set_intros(1))
qed

lemma ex_table_small:
  assumes "write_table ex_floats ''t'' \<lparr>op_BlockSize = 1, op_BloomFPRate = 0\<rparr> ex_entries ex_disk = (Inr meta, w')"
    "file_data w' ''t'' = Some d"
  shows "go_len d"
proof -
  obtain bf bs where d: "d = table_bytes bf bs" "concat bs = ex_entries" "[] \<notin> set bs" "bloom_inv bf"
    "bf_m bf = bf_m (newBloomFilter (ex_floats (op_BloomFPRate (withDefaults \<lparr>op_BlockSize = 1, op_BloomFPRate = 0\<rparr>)))
       (length ex_entries))"
    using write_table_spec(4) [OF ex_table(1,2) assms(1) refl] assms(2) by auto
  have "bf_m bf = 20" unfolding d(5) by (simp add: newBloomFilter_def bloomParams_def ex_floats_def ex_entries_def)
  then have bits: "length (bf_bits bf) = 3" using d(4) by (simp add: bloom_inv_def)
  have short: "bs = [[ex_entries ! 0], [ex_entries ! 1]] \<or> bs = [[ex_entries ! 0, ex_entries ! 1]]"
    using d(2,3) by (intro short_concat) (simp_all add: ex_entries_def)
  have uv: "length (PutUvarint n) = 1" if "n < 128" for n using that by (simp add: PutUvarint.simps)
  have "length (table_bytes bf bs) < 1000"
    using short bits uv
    by (auto simp: table_bytes_def Let_def blocks_bytes_def block_bytes_def checksummed_def enc_def encodeEntry_def
        ex_entries_def bloom_encode_def encodeIndex_def encode_index_entry_def footerSize_def)
  then show ?thesis by (simp add: d(1) go_len_def)
qed

theorem sstable_survives_power_loss_witness:
  "\<exists>meta w' r. write_table ex_floats ''t'' \<lparr>op_BlockSize = 1, op_BloomFPRate = 0\<rparr> ex_entries ex_disk = (Inr meta, w')
    \<and> OpenWithCache ''t'' (power_loss (\<lambda>_. 0) w') = (Inr r, power_loss (\<lambda>_. 0) w') \<and> rd_maxSeq r = 5
    \<and> fst (Reader_Get r [1] None (power_loss (\<lambda>_. 0) w')) = Inr (Some ([7], 4, False))
    \<and> fst (Reader_Get r [2] None (power_loss (\<lambda>_. 0) w')) = Inr (Some ([], 5, True))
    \<and> fst (Reader_Get r [3] None (power_loss (\<lambda>_. 0) w')) = Inr None"
proof -
  obtain meta w' where wt: "write_table ex_floats ''t'' \<lparr>op_BlockSize = 1, op_BloomFPRate = 0\<rparr> ex_entries ex_disk = (Inr meta, w')"
    using ex_table(3) by blast
  have small: "\<forall>d. file_data w' ''t'' = Some d \<longrightarrow> go_len d" using ex_table_small [OF wt] by blast
  from sstable_survives_power_loss [OF ex_table(1,2) wt small, of "\<lambda>_. 0"] obtain r where
    "OpenWithCache ''t'' (power_loss (\<lambda>_. 0) w') = (Inr r, power_loss (\<lambda>_. 0) w')" "rd_maxSeq r = max_seq ex_entries"
    "\<forall>key. Reader_Get r key None (power_loss (\<lambda>_. 0) w') = (Inr (found_of (lookup_entry ex_entries key)), None, power_loss (\<lambda>_. 0) w')"
    by blast
  with wt show ?thesis
    by (intro exI [of _ meta] exI [of _ w'] exI [of _ r]) (simp add: ex_entries_def max_seq_def found_of_def)
qed

text \<open>The lookups of a sequence of requests, each for a key in one of the tables, through one cache.\<close>

fun gets :: "tables \<Rightarrow> (string \<times> bytes) list \<Rightarrow> BlockCache option \<Rightarrow> world \<Rightarrow> (sst_error + found) list" where
  "gets T [] c w = []"
| "gets T ((p, key) # reqs) c w =
     (case T p of
        None \<Rightarrow> Inr None # gets T reqs c w
      | Some (bf, bs) \<Rightarrow>
          (case Reader_Get (reader_for p bf bs) key c w of (r, c, w) \<Rightarrow> r # gets T reqs c w))"

definition table_lookup :: "tables \<Rightarrow> string \<Rightarrow> bytes \<Rightarrow> found" where
  "table_lookup T p key = (case T p of None \<Rightarrow> None | Some (bf, bs) \<Rightarrow> found_of (lookup_entry (concat bs) key))"

lemma gets_correct:
  assumes "tables_in T w" "coherent (cached T) c"
  shows "list_all2 (\<lambda>(p, key) r. r = Inl ErrReadAt \<or> r = Inr (table_lookup T p key)) reqs (gets T reqs c w)"
  using assms
proof (induction T reqs c w rule: gets.induct)
  case (2 T p key reqs c w)
  show ?case
  proof (cases "T p")
    case None
    with 2 show ?thesis by (simp add: table_lookup_def)
  next
    case (Some t)
    obtain bf bs where t: "t = (bf, bs)" by fastforce
    obtain r c' w' where g: "Reader_Get (reader_for p bf bs) key c w = (r, c', w')" by (metis prod_cases3)
    note G = Reader_Get_spec [OF "2.prems"(1) Some [unfolded t] "2.prems"(2) g]
    have "tables_in T w'" using "2.prems"(1) tables_in_files [OF G(1)] by simp
    from "2.IH"(2) [OF Some t [symmetric] g [symmetric] refl this G(2)] Some t g G(3) show ?thesis by (auto simp: table_lookup_def)
  qed
qed simp

text \<open>
  C11. Lookups through a block cache that several tables share, of any size, in any order and with any read
  errors: each one fails with a read error or returns exactly what the table it asked has for the key. In particular the cache
  never serves a block of another table or of another offset, and no lookup panics.
\<close>

theorem shared_cache_lookups:
  assumes "tables_in T w"
  shows "list_all2 (\<lambda>(p, key) r. r = Inl ErrReadAt \<or> r = Inr (table_lookup T p key)) reqs
    (gets T reqs (Some (NewBlockCache n)) w)"
  by (rule gets_correct [OF assms coherent_new])

theorem shared_cache_lookups_witness:
  "\<exists>T w r1 r2. tables_in T w \<and> gets T [(''t'', [1]), (''t'', [1])] (Some (NewBlockCache 100)) w = [r1, r2]
     \<and> (r1 = Inl ErrReadAt \<or> r1 = Inr (Some ([7], 4, False))) \<and> (r2 = Inl ErrReadAt \<or> r2 = Inr (Some ([7], 4, False)))"
proof -
  obtain meta w where wt: "write_table ex_floats ''t'' \<lparr>op_BlockSize = 1, op_BloomFPRate = 0\<rparr> ex_entries ex_disk = (Inr meta, w)"
    using ex_table(3) by blast
  from write_table_spec(4) [OF ex_table(1,2) wt refl] ex_table_small [OF wt] obtain bf bs where
    t: "valid_table bf bs" "file_data w ''t'' = Some (table_bytes bf bs)" "concat bs = ex_entries"
    unfolding is_table_def by blast
  let ?T = "\<lambda>p. if p = ''t'' then Some (bf, bs) else None"
  have T: "tables_in ?T w" using t(1,2) by (simp add: tables_in_def)
  have "table_lookup ?T ''t'' [1] = Some ([7], 4, False)"
    using t(3) by (simp add: table_lookup_def found_of_def ex_entries_def)
  with shared_cache_lookups [OF T, of "[(''t'', [1]), (''t'', [1])]" 100] obtain r1 r2
    where "gets ?T [(''t'', [1]), (''t'', [1])] (Some (NewBlockCache 100)) w = [r1, r2]"
      "r1 = Inl ErrReadAt \<or> r1 = Inr (Some ([7], 4, False))" "r2 = Inl ErrReadAt \<or> r2 = Inr (Some ([7], 4, False))"
    by (auto simp: list_all2_Cons1 simp del: gets.simps)
  with T show ?thesis by blast
qed

lemma first_unsorted:
  assumes "\<not> keys_sorted es"
  shows "\<exists>pre e post. es = pre @ e # post \<and> keys_sorted pre \<and> pre \<noteq> [] \<and> de_key e \<le> de_key (last pre)"
  using assms
proof (induction es rule: rev_induct)
  case (snoc e es)
  show ?case
  proof (cases "keys_sorted es")
    case True
    with snoc.prems have "es \<noteq> []" "de_key e \<le> de_key (last es)" by (auto simp: keys_sorted_snoc)
    with True show ?thesis by blast
  next
    case False
    with snoc.IH obtain pre e' post where "es = pre @ e' # post" "keys_sorted pre" "pre \<noteq> []" "de_key e' \<le> de_key (last pre)"
      by blast
    then show ?thesis by (intro exI [of _ pre] exI [of _ e'] exI [of _ "post @ [e]"]) simp
  qed
qed simp

lemma add_entries_append:
  "add_entries (xs @ ys) wr w = (case add_entries xs wr w of
     (Some e, wr, w) \<Rightarrow> (Some e, wr, w) | (None, wr, w) \<Rightarrow> add_entries ys wr w)"
  by (induction xs arbitrary: wr w) (auto split: prod.splits option.splits)

text \<open>
  C14. Entries that are not in strictly increasing order of their keys never become a table: writing them
  returns an error, whatever else happens.
\<close>

theorem unsorted_entries_refused:
  assumes "\<not> keys_sorted es"
  shows "fst (write_table fl path opts es w) \<in> Inl ` {ErrSstCreate, ErrSstWrite, ErrDuplicateKey, ErrOutOfOrder}"
proof -
  obtain r1 w1 where n: "NewWriter path opts w = (r1, w1)" by fastforce
  obtain pre e post where es: "es = pre @ e # post" "keys_sorted pre" "pre \<noteq> []" "de_key e \<le> de_key (last pre)"
    using first_unsorted [OF assms] by blast
  show ?thesis
  proof (cases r1)
    case (Inl err)
    with NewWriter_result(1) [OF n] n show ?thesis by (simp add: write_table_def)
  next
    case (Inr wr)
    then have inv: "writer_inv path [] wr w1" "\<not> wr_closed wr" using NewWriter_spec(2) [OF n] by auto
    obtain r2 wr2 w2 where a: "add_entries pre wr w1 = (r2, wr2, w2)" by (metis prod_cases3)
    note I = add_entries_inv [OF inv _ a] and A = add_entries_touches(3) [OF a]
    show ?thesis
    proof (cases r2)
      case (Some err)
      with I es(2) n Inr a show ?thesis by (simp add: write_table_def es(1) add_entries_append)
    next
      case None
      with I es(2) have "writer_inv path pre wr2 w2" by simp
      from Writer_Add_refused [OF this _ es(3,4)] A inv(2) n Inr a None show ?thesis
        by (simp add: write_table_def es(1) add_entries_append)
    qed
  qed
qed

theorem unsorted_entries_refused_witness:
  "\<not> keys_sorted (rev ex_entries)
   \<and> fst (write_table ex_floats ''t'' \<lparr>op_BlockSize = 1, op_BloomFPRate = 0\<rparr> (rev ex_entries) ex_disk)
       \<in> Inl ` {ErrSstCreate, ErrSstWrite, ErrDuplicateKey, ErrOutOfOrder}"
proof -
  have "\<not> keys_sorted (rev ex_entries)" by (simp add: ex_entries_def keys_sorted_def)
  with unsorted_entries_refused [OF this] show ?thesis by blast
qed


definition ex_flipped :: world where
  "ex_flipped = \<lparr>w_files = [(''t'', \<lparr>fd_data = [9] @ [1] @ 3 # [] @ PutUint32 (crc32_Checksum ([1] @ 2 # [])) @ [], fd_synced = 0\<rparr>)],
     w_faults = (\<lambda>_. Ok)\<rparr>"


text \<open>
  C16. Opening a file of 56 bytes that ends with the magic number can panic: the lengths in the footer are not
  covered by a checksum, and the block to read is allocated before they are compared with the size of the file.
\<close>

theorem corrupt_footer_panics:
  "fst (OpenWithCache ''t'' \<lparr>w_files = [(''t'', \<lparr>fd_data = footer_bytes 0 4 0 (2 ^ 63) 0 0, fd_synced = 0\<rparr>)],
     w_faults = (\<lambda>_. Ok)\<rparr>) = Inl SstNoReturn"
proof -
  let ?w = "\<lparr>w_files = [(''t'', \<lparr>fd_data = footer_bytes 0 4 0 (2 ^ 63) 0 0, fd_synced = 0\<rparr>)], w_faults = (\<lambda>_. Ok)\<rparr>"
  have f: "file_data ?w ''t'' = Some ([] @ footer_bytes 0 4 0 (2 ^ 63) 0 0)" by (simp add: file_data_def)
  obtain r w' where rf: "read_footer ''t'' ?w = (r, w')" by fastforce
  have "r = Inr (footer_bytes 0 4 0 (2 ^ 63) 0 0)" "w' = ?w" using read_footer_spec(3) [OF f length_footer_bytes rf] by simp_all
  moreover have "open_blocks ''t'' (footer_bytes 0 4 0 (2 ^ 63) 0 0) ?w = (Inl SstNoReturn, ?w)"
    by (simp add: open_blocks_def footer_bytes_def Let_def and_then_def readChecksummed_def)
  ultimately show ?thesis using rf by (simp add: OpenWithCache_def close_on_error_def and_then_def)
qed

text \<open>
  C17. The smallest key reported for a table whose first key is the empty one is its second key: the writer takes
  an empty key for no key yet.
\<close>

theorem empty_key_not_minimum:
  assumes "table_entries (e1 # e2 # es)" "de_key e1 = []" "bloom_fits fl (length (e1 # e2 # es))"
    "write_table fl path opts (e1 # e2 # es) w = (Inr meta, w')"
  shows "me_MinKey meta = de_key e2 \<and> me_MinKey meta \<noteq> []"
proof -
  have "de_key e1 < de_key e2" using assms(1) by (simp add: table_entries_def keys_sorted_Cons)
  then have ne: "de_key e2 \<noteq> []" using assms(2) by (cases "de_key e2") simp_all
  have "meta = meta_of path (e1 # e2 # es) d" if "file_data w' path = Some d" for d
    using write_table_spec(4) [OF assms(1,3,4) refl] that by auto
  moreover have "\<exists>d. file_data w' path = Some d" using write_table_spec(4) [OF assms(1,3,4) refl] by blast
  ultimately show ?thesis using ne assms(2) by (auto simp: meta_of_def min_key_def)
qed

theorem empty_key_not_minimum_witness:
  "\<exists>meta w'. write_table ex_floats ''t'' \<lparr>op_BlockSize = 1, op_BloomFPRate = 0\<rparr>
     (\<lparr>de_key = [], de_value = [7], de_seq = 4, de_deleted = False\<rparr> # ex_entries ! 0 # []) ex_disk = (Inr meta, w')
   \<and> me_MinKey meta = [1]"
proof -
  let ?es = "\<lparr>de_key = [], de_value = [7], de_seq = 4, de_deleted = False\<rparr> # ex_entries ! 0 # []"
  let ?o = "\<lparr>op_BlockSize = 1, op_BloomFPRate = 0\<rparr>"
  have ok: "table_entries ?es" by (simp add: table_entries_def keys_sorted_def entry_ok_def go_len_def ex_entries_def)
  obtain r w' where wt: "write_table ex_floats ''t'' ?o ?es ex_disk = (r, w')" by fastforce
  from write_table_spec(3) [OF ok ex_table(2) this] obtain meta where "r = Inr meta" by (auto simp: ex_disk_def)
  with wt empty_key_not_minimum [OF ok _ ex_table(2), of "''t''" ?o ex_disk meta w'] show ?thesis by (simp add: ex_entries_def)
qed

end
