(* ===== verification/Engine_Files.thy ===== *)
theory Engine_Files
  imports Wal_Log Memtable Sst_Table
begin

text \<open>
  The directory of a store (\<open>src/engine/engine.go\<close>): names of numbered files, the restore marker, and
  the discovery of tables and logs. The modelled directory is the store's own, so a path joined with the
  directory is the name; subdirectories are not modelled.
\<close>

section \<open>Numbers in names\<close>

definition digit :: "nat \<Rightarrow> char" where
  "digit d = char_of (48 + d)"

fun decimal :: "nat \<Rightarrow> string" where
  "decimal n = (if n < 10 then [digit n] else decimal (n div 10) @ [digit (n mod 10)])"

declare decimal.simps [simp del]

definition pad :: "nat \<Rightarrow> string \<Rightarrow> string" where
  "pad n s = replicate (n - length s) CHR ''0'' @ s"

text \<open>\<open>fmt.Sprintf\<close> with \<open>%06d\<close> and \<open>strconv.Itoa\<close>.\<close>

definition Sprintf_06d :: "int \<Rightarrow> string" where
  "Sprintf_06d n = (if n < 0 then CHR ''-'' # pad 5 (decimal (nat (- n))) else pad 6 (decimal (nat n)))"

definition Itoa :: "int \<Rightarrow> string" where
  "Itoa n = (if n < 0 then CHR ''-'' # decimal (nat (- n)) else decimal (nat n))"

definition is_digit :: "char \<Rightarrow> bool" where
  "is_digit c \<longleftrightarrow> (48 :: nat) \<le> of_char c \<and> of_char c \<le> (57 :: nat)"

definition digits_value :: "string \<Rightarrow> nat" where
  "digits_value s = foldl (\<lambda>v c. 10 * v + (of_char c - 48)) 0 s"

text \<open>
  \<open>fmt.Sscanf\<close> with \<open>%06d\<close> followed by a literal suffix: a sign and digits, six characters at most; the
  rest must start with the suffix. A name with leading blanks is scanned too, and refused by the comparison
  that follows the scan.
\<close>

definition Sscanf_06d :: "string \<Rightarrow> string \<Rightarrow> int option" where
  "Sscanf_06d ext name =
     (let neg = (take 1 name = ''-''); sg = (if take 1 name \<in> {''-'', ''+''} then 1 else 0);
          ds = takeWhile is_digit (take (6 - sg) (drop sg name))
      in if ds \<noteq> [] \<and> take (length ext) (drop (sg + length ds) name) = ext
         then Some (if neg then - int (digits_value ds) else int (digits_value ds))
         else None)"

text \<open>\<open>strconv.Atoi (strings.TrimSpace ...)\<close>, for a 64-bit \<open>int\<close>; blanks are those of ASCII.\<close>

definition is_space :: "char \<Rightarrow> bool" where
  "is_space c \<longleftrightarrow> of_char c = (32 :: nat) \<or> ((9 :: nat) \<le> of_char c \<and> of_char c \<le> (13 :: nat))"

definition TrimSpace :: "string \<Rightarrow> string" where
  "TrimSpace s = rev (dropWhile is_space (rev (dropWhile is_space s)))"

definition Atoi :: "string \<Rightarrow> int option" where
  "Atoi s =
     (let neg = (take 1 s = ''-''); ds = (if take 1 s \<in> {''-'', ''+''} then drop 1 s else s)
      in if ds = [] \<or> \<not> list_all is_digit ds then None
         else if neg then (if digits_value ds \<le> 2 ^ 63 then Some (- int (digits_value ds)) else None)
         else if digits_value ds < 2 ^ 63 then Some (int (digits_value ds)) else None)"

definition string_bytes :: "string \<Rightarrow> bytes" where
  "string_bytes s = map (\<lambda>c. word_of_nat (of_char c)) s"

definition bytes_string :: "bytes \<Rightarrow> string" where
  "bytes_string bs = map (\<lambda>b. char_of (unat b)) bs"

section \<open>File names\<close>

definition wal_name :: "int \<Rightarrow> string" where
  "wal_name n = Sprintf_06d n @ ''.wal''"

definition sst_name :: "int \<Rightarrow> string" where
  "sst_name n = Sprintf_06d n @ ''.sst''"

definition restoreMarkerFileName :: string where
  "restoreMarkerFileName = ''RESTORE_MARKER''"

text \<open>The number of a file name with a suffix, if it has one and the number is not below \<open>min\<close>.\<close>

definition file_number :: "string \<Rightarrow> int \<Rightarrow> string \<Rightarrow> int option" where
  "file_number ext minValidSeq name =
     (case Sscanf_06d ext name of
        None \<Rightarrow> None
      | Some n \<Rightarrow>
          if Sprintf_06d n @ ext \<noteq> name then None
          else if n < minValidSeq then None
          else Some n)"

definition numbered_files :: "string \<Rightarrow> int \<Rightarrow> string list \<Rightarrow> int list" where
  "numbered_files ext minValidSeq names = sort (List.map_filter (file_number ext minValidSeq) names)"

datatype engine_error =
    ErrMkdir
  | ErrReadMarker
  | ErrBadMarker
  | ErrListDir
  | ErrOpenTable sst_error
  | ErrReplay wal_error
  | ErrOpenWal wal_error
  | ErrRelog wal_error
  | ErrRemoveWal
  | ErrMarkerWrite
  | ErrEngineClosed
  | ErrFlushFailed
  | ErrWalAppend wal_error
  | ErrStartFlush wal_error
  | ErrReadTable sst_error
  | ErrFlushInProgress
  | ErrBadSnapshot
  | ErrSnapshotTable sst_error
  | ErrCloseFile
  | EngineNoReturn

section \<open>The restore marker\<close>

definition readRestoreMarker :: "(engine_error, int) io" where
  "readRestoreMarker w =
     (case os_ReadFile restoreMarkerFileName w of
        (FileMissing, w) \<Rightarrow> (Inr 0, w)
      | (FileError, w) \<Rightarrow> (Inl ErrReadMarker, w)
      | (FileContents data, w) \<Rightarrow>
          (case Atoi (TrimSpace (bytes_string data)) of None \<Rightarrow> Inl ErrBadMarker | Some n \<Rightarrow> Inr n, w))"

definition markerTmp :: string where
  "markerTmp = restoreMarkerFileName @ ''.tmp''"

definition writeRestoreMarkerAtomically :: "int \<Rightarrow> world \<Rightarrow> bool \<times> world" where
  "writeRestoreMarkerAtomically minValidSeq w =
     (case os_Create markerTmp w of
        (False, w) \<Rightarrow> (False, w)
      | (True, w) \<Rightarrow>
          (case os_Write markerTmp (string_bytes (Itoa minValidSeq)) w of
             (_, False, w) \<Rightarrow> (False, snd (os_Remove markerTmp (snd (os_Close markerTmp w))))
           | (_, True, w) \<Rightarrow>
               (case os_Sync markerTmp w of
                  (False, w) \<Rightarrow> (False, snd (os_Remove markerTmp (snd (os_Close markerTmp w))))
                | (True, w) \<Rightarrow>
                    (case os_Close markerTmp w of
                       (False, w) \<Rightarrow> (False, snd (os_Remove markerTmp w))
                     | (True, w) \<Rightarrow> os_Rename markerTmp restoreMarkerFileName w))))"

section \<open>Discovery\<close>

type_synonym sstableEntry = "string \<times> Reader"

fun closeAll :: "sstableEntry list \<Rightarrow> world \<Rightarrow> world" where
  "closeAll [] w = w"
| "closeAll (e # es) w = closeAll es (snd (Reader_Close (snd e) w))"

text \<open>The loop over the numbers, from the highest down; \<open>acc\<close> has the tables opened so far.\<close>

fun open_tables :: "int list \<Rightarrow> sstableEntry list \<Rightarrow> uint64 \<Rightarrow> (engine_error, sstableEntry list \<times> uint64) io" where
  "open_tables [] acc maxSeq w = (Inr (acc, maxSeq), w)"
| "open_tables (n # ns) acc maxSeq w =
     (case OpenWithCache (sst_name n) w of
        (Inl e, w) \<Rightarrow> (Inl (ErrOpenTable e), closeAll acc w)
      | (Inr r, w) \<Rightarrow>
          open_tables ns (acc @ [(sst_name n, r)]) (if maxSeq < rd_maxSeq r then rd_maxSeq r else maxSeq) w)"

definition next_number :: "int list \<Rightarrow> int" where
  "next_number nums = (if nums = [] then 0 else last nums + 1)"

definition discoverSSTables :: "int \<Rightarrow> (engine_error, sstableEntry list \<times> int \<times> uint64) io" where
  "discoverSSTables minValidSeq w =
     (case os_ReadDir w of
        (None, w) \<Rightarrow> (Inl ErrListDir, w)
      | (Some names, w) \<Rightarrow>
          let nums = numbered_files ''.sst'' minValidSeq names
          in case open_tables (rev nums) [] 0 w of
               (Inl e, w) \<Rightarrow> (Inl e, w)
             | (Inr (sstables, maxSeq), w) \<Rightarrow> (Inr (sstables, next_number nums, maxSeq), w))"

definition discoverWALs :: "int \<Rightarrow> (engine_error, string list \<times> int) io" where
  "discoverWALs minValidSeq w =
     (case os_ReadDir w of
        (None, w) \<Rightarrow> (Inl ErrListDir, w)
      | (Some names, w) \<Rightarrow>
          let nums = numbered_files ''.wal'' minValidSeq names
          in (Inr (map wal_name nums, next_number nums), w))"

section \<open>Names and numbers\<close>

lemma of_char_digit [simp]: "d < 10 \<Longrightarrow> of_char (digit d) = (48 + d :: nat)"
  by (simp add: digit_def)

lemma is_digit_digit [simp]: "d < 10 \<Longrightarrow> is_digit (digit d)"
  by (simp add: is_digit_def)

lemma digits_value_snoc [simp]: "digits_value (s @ [c]) = 10 * digits_value s + (of_char c - 48)"
  by (simp add: digits_value_def)

lemma digits_value_zeros [simp]: "digits_value (replicate k CHR ''0'' @ s) = digits_value s"
proof -
  have "foldl (\<lambda>v c. 10 * v + (of_char c - 48)) 0 (replicate k CHR ''0'') = (0 :: nat)"
    by (induction k) simp_all
  then show ?thesis by (simp add: digits_value_def)
qed

lemma decimal_facts: "digits_value (decimal n) = n \<and> list_all is_digit (decimal n) \<and> decimal n \<noteq> []"
proof (induction n rule: decimal.induct)
  case (1 n)
  show ?case
  proof (cases "n < 10")
    case True
    then show ?thesis by (simp add: decimal.simps [of n] digits_value_def)
  next
    case False
    with 1 show ?thesis by (simp add: decimal.simps [of n])
  qed
qed

lemmas decimal_value [simp] = decimal_facts [THEN conjunct1]
lemmas decimal_digits = decimal_facts [THEN conjunct2, THEN conjunct1]
lemmas decimal_nonempty [simp] = decimal_facts [THEN conjunct2, THEN conjunct2]

lemma length_decimal: "n < 10 ^ Suc k \<Longrightarrow> length (decimal n) \<le> Suc k"
proof (induction k arbitrary: n)
  case (Suc k)
  show ?case
  proof (cases "n < 10")
    case False
    with Suc.prems have "n div 10 < 10 ^ Suc k" by (simp add: less_mult_imp_div_less)
    with Suc.IH False show ?thesis by (simp add: decimal.simps [of n])
  qed (simp add: decimal.simps [of n])
qed (simp add: decimal.simps)

lemma long_decimal: "10 ^ k \<le> n \<Longrightarrow> k < length (decimal n)"
proof (induction k arbitrary: n)
  case (Suc k)
  then have "10 ^ k \<le> n div 10" by (simp add: less_eq_div_iff_mult_less_eq)
  moreover have "\<not> n < 10" using Suc.prems by (simp add: not_less order.trans [rotated])
  ultimately show ?case using Suc.IH by (simp add: decimal.simps [of n])
qed simp

lemma padded_digits:
  assumes "0 \<le> n"
  shows "list_all is_digit (Sprintf_06d n)" "digits_value (Sprintf_06d n) = nat n" "Sprintf_06d n \<noteq> []"
  using assms decimal_digits [of "nat n"]
  by (auto simp: Sprintf_06d_def pad_def list_all_iff is_digit_def)

lemma length_Sprintf:
  assumes "0 \<le> n" "n < 1000000"
  shows "length (Sprintf_06d n) = 6"
proof -
  have "length (decimal (nat n)) \<le> 6" using length_decimal [of "nat n" 5] assms by simp
  with assms show ?thesis by (simp add: Sprintf_06d_def pad_def)
qed

lemma Sprintf_inj: "0 \<le> m \<Longrightarrow> 0 \<le> n \<Longrightarrow> Sprintf_06d m = Sprintf_06d n \<Longrightarrow> m = n"
  using padded_digits(2) [of m] padded_digits(2) [of n] by simp

lemma no_sign: "list_all is_digit s \<Longrightarrow> s \<noteq> [] \<Longrightarrow> take 1 (s @ t) \<notin> {''-'', ''+''}"
  by (cases s) (auto simp: is_digit_def)

lemma Sscanf_name:
  assumes "0 \<le> n" "n < 1000000"
  shows "Sscanf_06d ext (Sprintf_06d n @ ext) = Some n"
proof -
  let ?s = "Sprintf_06d n"
  note D = padded_digits [OF assms(1)]
  have sign: "take 1 (?s @ ext) \<notin> {''-'', ''+''}" using no_sign D(1,3) by blast
  have tw: "takeWhile is_digit ?s = ?s" using D(1) by (simp add: takeWhile_eq_all_conv list_all_iff)
  from sign D(2,3) assms length_Sprintf [OF assms] show ?thesis by (simp add: Sscanf_06d_def Let_def tw)
qed

lemma file_number_name:
  assumes "0 \<le> n" "n < 1000000"
  shows "file_number ext m (Sprintf_06d n @ ext) = (if n < m then None else Some n)"
  using Sscanf_name [OF assms] by (simp add: file_number_def)

lemma file_number_Some: "file_number ext m name = Some n \<Longrightarrow> name = Sprintf_06d n @ ext \<and> m \<le> n"
  by (auto simp: file_number_def split: option.splits if_splits)

text \<open>A file with a number of more than six digits is never discovered.\<close>

lemma file_number_large:
  assumes "1000000 \<le> n" "ext \<noteq> []" "\<not> is_digit (hd ext)"
  shows "file_number ext m (Sprintf_06d n @ ext) = None"
proof -
  let ?s = "Sprintf_06d n"
  note D = padded_digits [of n]
  have "10 ^ 6 \<le> nat n" using assms(1) by simp
  from long_decimal [OF this] have len: "6 < length ?s" using assms(1) by (simp add: Sprintf_06d_def pad_def)
  have sign: "take 1 (?s @ ext) \<notin> {''-'', ''+''}" using no_sign D assms(1) by simp
  have tw: "takeWhile is_digit (take 6 ?s) = take 6 ?s"
    using D(1) assms(1) by (auto simp: takeWhile_eq_all_conv list_all_iff dest: in_set_takeD)
  have "is_digit (hd (drop 6 ?s))"
    using len D(1) assms(1) by (simp add: hd_drop_conv_nth list_all_length)
  then have ne: "take (length ext) (drop 6 ?s @ ext) \<noteq> ext"
    using assms(2,3) len by (cases ext; cases "drop 6 ?s") auto
  have "Sscanf_06d ext (?s @ ext) = None" using sign len ne by (simp add: Sscanf_06d_def Let_def tw)
  then show ?thesis by (simp add: file_number_def)
qed

lemma name_distinct [simp]:
  "wal_name m \<noteq> sst_name n" "sst_name n \<noteq> wal_name m"
  "wal_name m \<noteq> restoreMarkerFileName" "sst_name m \<noteq> restoreMarkerFileName"
  "wal_name m \<noteq> markerTmp" "sst_name m \<noteq> markerTmp" "markerTmp \<noteq> restoreMarkerFileName"
proof -
  have l: "last (wal_name i) = CHR ''l''" "last (sst_name i) = CHR ''t''" for i by (simp_all add: wal_name_def sst_name_def)
  have r: "last restoreMarkerFileName = CHR ''R''" "last markerTmp = CHR ''p''" by (simp_all add: restoreMarkerFileName_def markerTmp_def)
  show "wal_name m \<noteq> sst_name n" using l [of m] l [of n] by auto
  then show "sst_name n \<noteq> wal_name m" by metis
  show "wal_name m \<noteq> restoreMarkerFileName" "sst_name m \<noteq> restoreMarkerFileName"
    "wal_name m \<noteq> markerTmp" "sst_name m \<noteq> markerTmp" "markerTmp \<noteq> restoreMarkerFileName" using l [of m] r by auto
qed

lemma name_inj:
  assumes "0 \<le> m" "0 \<le> n"
  shows "wal_name m = wal_name n \<longleftrightarrow> m = n" "sst_name m = sst_name n \<longleftrightarrow> m = n"
  using Sprintf_inj [OF assms] by (auto simp: wal_name_def sst_name_def)

lemma marker_roundtrip:
  assumes "0 \<le> n" "n < 2 ^ 63"
  shows "Atoi (TrimSpace (bytes_string (string_bytes (Itoa n)))) = Some n"
proof -
  let ?s = "decimal (nat n)"
  have s: "list_all is_digit ?s" "?s \<noteq> []" by (simp_all add: decimal_digits)
  have "bytes_string (string_bytes x) = x" for x :: string
    by (induction x) (simp_all add: bytes_string_def string_bytes_def)
  moreover have sp: "\<not> is_space c" if "is_digit c" for c using that by (auto simp: is_digit_def is_space_def)
  have "dropWhile is_space x = x" if "list_all is_digit x" for x
    using that sp by (cases x) auto
  then have "TrimSpace ?s = ?s" using s by (simp add: TrimSpace_def)
  moreover have "take 1 ?s \<notin> {''-'', ''+''}" using no_sign [OF s, of "[]"] by simp
  ultimately show ?thesis using assms s by (simp add: Itoa_def Atoi_def Let_def nat_less_iff)
qed

end
