(* ===== verification/Engine_Core.thy ===== *)
theory Engine_Core
  imports Engine_Files
begin

text \<open>
  The storage engine (\<open>src/engine/engine.go\<close>). The mutex makes every critical section one step; the flush
  goroutine is a job in the state that runs in two steps, \<open>run_write\<close> up to the installation of the new
  table and \<open>run_clean\<close> for the removal of the old log, between which other calls may run. The coin flips of
  the skip lists (\<open>rnd\<close>) come from a fixed seed, the same for every memtable. \<open>EngineNoReturn\<close> and an outer
  \<open>None\<close> stand for a call that panics or does not end.
\<close>

section \<open>State\<close>

record EngineOptions =
  eo_MemtableSizeThreshold :: int
  eo_SSTableBlockSize :: int
  eo_SSTableBloomFPRate :: real
  eo_BlockCacheSize :: int

definition defaultMemtableSizeMax :: int where
  "defaultMemtableSizeMax = 4 * 1024 * 1024"

definition defaultBlockCacheSize :: int where
  "defaultBlockCacheSize = 8 * 1024 * 1024"

definition engine_withDefaults :: "EngineOptions \<Rightarrow> EngineOptions" where
  "engine_withDefaults o0 =
     (let o1 = (if eo_MemtableSizeThreshold o0 \<le> 0 then o0\<lparr>eo_MemtableSizeThreshold := defaultMemtableSizeMax\<rparr> else o0)
      in if eo_BlockCacheSize o1 = 0 then o1\<lparr>eo_BlockCacheSize := defaultBlockCacheSize\<rparr> else o1)"

record Engine =
  e_opts :: EngineOptions
  e_w :: WAL
  e_mem :: Memtable
  e_immutable :: "Memtable option"
  e_job :: "(Memtable \<times> WAL \<times> int) option"
  e_cleaning :: "WAL list"
  e_flushErr :: bool
  e_cache :: "BlockCache option"
  e_sstables :: "sstableEntry list"
  e_nextSeq :: uint64
  e_nextFlushSeq :: int
  e_nextWALSeq :: int
  e_closed :: bool

record BatchOp =
  bo_Key :: bytes
  bo_Value :: bytes
  bo_Deleted :: bool

section \<open>Open\<close>

definition apply_wal_record :: "Record \<Rightarrow> Memtable \<times> uint64 \<Rightarrow> (Memtable \<times> uint64) option" where
  "apply_wal_record r s =
     (case s of (mem, maxSeq) \<Rightarrow>
        map_option (\<lambda>mem. (mem, if maxSeq < rec_SeqNum r then rec_SeqNum r else maxSeq))
          (if rec_Type r = RecordDelete then Memtable_Delete (rec_Key r) (rec_SeqNum r) mem
           else Memtable_Put (rec_Key r) (rec_Value r) (rec_SeqNum r) mem))"

fun replay_wals :: "string list \<Rightarrow> Memtable \<times> uint64 \<Rightarrow> (engine_error, Memtable \<times> uint64) io" where
  "replay_wals [] s w = (Inr s, w)"
| "replay_wals (p # ps) s w =
     (case Replay p w of
        (Inl e, w) \<Rightarrow> (Inl (ErrReplay e), w)
      | (Inr (recs, _), w) \<Rightarrow>
          (case fold_option apply_wal_record recs s of
             None \<Rightarrow> (Inl EngineNoReturn, w)
           | Some s \<Rightarrow> replay_wals ps s w))"

definition entry_record :: "entrySnapshot \<Rightarrow> Record" where
  "entry_record e = \<lparr>rec_SeqNum = es_seq e, rec_Type = (if es_deleted e then RecordDelete else RecordPut),
     rec_Key = es_key e, rec_Value = es_value e\<rparr>"

text \<open>Log the recovered memtable again; the records, if there are any, are one batch.\<close>

definition relog :: "Memtable \<Rightarrow> WAL \<Rightarrow> world \<Rightarrow> (engine_error + unit) \<times> WAL \<times> world" where
  "relog mem l w =
     (if Memtable_Len mem = 0 then (Inr (), l, w)
      else
        case NewIterator mem of
          None \<Rightarrow> (Inl EngineNoReturn, l, w)
        | Some it \<Rightarrow>
            (case AppendBatch (map entry_record (iterate (Iterator_SeekToFirst it))) l w of
               (Inl e, l, w) \<Rightarrow> (Inl (ErrRelog e), l, w)
             | (Inr _, l, w) \<Rightarrow> (Inr (), l, w)))"

fun remove_wals :: "string list \<Rightarrow> world \<Rightarrow> bool \<times> world" where
  "remove_wals [] w = (True, w)"
| "remove_wals (p # ps) w =
     (case os_Remove p w of (False, w) \<Rightarrow> (False, w) | (True, w) \<Rightarrow> remove_wals ps w)"

definition os_MkdirAll :: "world \<Rightarrow> bool \<times> world" where
  "os_MkdirAll w = (case next_outcome w of (Fail _, w) \<Rightarrow> (False, w) | (Ok, w) \<Rightarrow> (True, w))"

text \<open>The part of \<open>Open\<close> after the discovery of tables and logs; every error return closes what is open.\<close>

definition open_recover ::
  "(nat \<Rightarrow> bool) \<Rightarrow> EngineOptions \<Rightarrow> BlockCache option \<Rightarrow> sstableEntry list \<times> int \<times> uint64 \<Rightarrow> string list \<times> int
   \<Rightarrow> (engine_error, Engine) io" where
  "open_recover rnd opts cache tabs logs w =
     (case (tabs, logs) of ((sstables, nextFlushSeq, maxSeqFromTables), (walPaths, nextWALSeq)) \<Rightarrow>
        (case replay_wals walPaths (Memtable_New rnd, 0) w of
           (Inl e, w) \<Rightarrow> (Inl e, closeAll sstables w)
         | (Inr (mem, maxSeqFromWAL), w) \<Rightarrow>
             let nextSeq = (if maxSeqFromTables < maxSeqFromWAL then maxSeqFromWAL else maxSeqFromTables) + 1
             in case Open_log (wal_name nextWALSeq) True w of
                  (Inl e, w) \<Rightarrow> (Inl (ErrOpenWal e), closeAll sstables w)
                | (Inr l, w) \<Rightarrow>
                    (case relog mem l w of
                       (Inl e, l, w) \<Rightarrow> (Inl e, closeAll sstables (snd (snd (Close_log l w))))
                     | (Inr _, l, w) \<Rightarrow>
                         (case remove_wals walPaths w of
                            (False, w) \<Rightarrow> (Inl ErrRemoveWal, closeAll sstables (snd (snd (Close_log l w))))
                          | (True, w) \<Rightarrow>
                              (Inr \<lparr>e_opts = opts, e_w = l, e_mem = mem, e_immutable = None, e_job = None, e_cleaning = [],
                                    e_flushErr = False, e_cache = cache, e_sstables = sstables, e_nextSeq = nextSeq,
                                    e_nextFlushSeq = nextFlushSeq, e_nextWALSeq = nextWALSeq + 1, e_closed = False\<rparr>, w)))))"

definition Open_engine :: "(nat \<Rightarrow> bool) \<Rightarrow> EngineOptions \<Rightarrow> (engine_error, Engine) io" where
  "Open_engine rnd opts w =
     (let opts = engine_withDefaults opts
      in case os_MkdirAll w of
           (False, w) \<Rightarrow> (Inl ErrMkdir, w)
         | (True, w) \<Rightarrow>
             (case readRestoreMarker w of
                (Inl e, w) \<Rightarrow> (Inl e, w)
              | (Inr minValidSeq, w) \<Rightarrow>
                  let cache = Some (NewBlockCache (eo_BlockCacheSize opts))
                  in case discoverSSTables minValidSeq w of
                       (Inl e, w) \<Rightarrow> (Inl e, w)
                     | (Inr tabs, w) \<Rightarrow>
                         (case discoverWALs minValidSeq w of
                            (Inl e, w) \<Rightarrow> (Inl e, closeAll (fst tabs) w)
                          | (Inr logs, w) \<Rightarrow> open_recover rnd opts cache tabs logs w)))"

section \<open>Flushing\<close>

definition startFlushLocked :: "(nat \<Rightarrow> bool) \<Rightarrow> Engine \<Rightarrow> world \<Rightarrow> wal_error option \<times> Engine \<times> world" where
  "startFlushLocked rnd e w =
     (case Open_log (wal_name (e_nextWALSeq e)) True w of
        (Inl err, w) \<Rightarrow> (Some err, e, w)
      | (Inr newWAL, w) \<Rightarrow>
          (None, e\<lparr>e_nextWALSeq := e_nextWALSeq e + 1, e_immutable := Some (e_mem e), e_mem := Memtable_New rnd,
                   e_w := newWAL, e_nextFlushSeq := e_nextFlushSeq e + 1,
                   e_job := Some (e_mem e, e_w e, e_nextFlushSeq e)\<rparr>, w))"

definition entry_of :: "entrySnapshot \<Rightarrow> decodedEntry" where
  "entry_of e = \<lparr>de_key = es_key e, de_value = es_value e, de_seq = es_seq e, de_deleted = es_deleted e\<rparr>"

definition writer_options :: "EngineOptions \<Rightarrow> Sst_Writer.Options" where
  "writer_options opts = \<lparr>op_BlockSize = eo_SSTableBlockSize opts, op_BloomFPRate = eo_SSTableBloomFPRate opts\<rparr>"

definition writeSSTableFromMemtable :: "(real \<Rightarrow> floats) \<Rightarrow> Memtable \<Rightarrow> string \<Rightarrow> EngineOptions \<Rightarrow> (sst_error, Meta) io" where
  "writeSSTableFromMemtable fl mem path opts w =
     (case NewIterator mem of
        None \<Rightarrow> (Inl SstNoReturn, w)
      | Some it \<Rightarrow> write_table fl path (writer_options opts) (map entry_of (iterate (Iterator_SeekToFirst it))) w)"

text \<open>
  The flush goroutine. Its first step writes the table and installs it, or records the failure; in both cases
  the frozen memtable is dropped.
\<close>

definition run_write :: "(real \<Rightarrow> floats) \<Rightarrow> Engine \<Rightarrow> world \<Rightarrow> Engine \<times> world" where
  "run_write fl e w =
     (case e_job e of
        None \<Rightarrow> (e, w)
      | Some (frozen, frozenWAL, flushSeq) \<Rightarrow>
          let path = sst_name flushSeq
          in case writeSSTableFromMemtable fl frozen path (e_opts e) w of
               (Inl _, w) \<Rightarrow> (e\<lparr>e_flushErr := True, e_immutable := None, e_job := None\<rparr>, w)
             | (Inr _, w) \<Rightarrow>
                 (case OpenWithCache path w of
                    (Inl _, w) \<Rightarrow> (e\<lparr>e_flushErr := True, e_immutable := None, e_job := None\<rparr>, w)
                  | (Inr r, w) \<Rightarrow>
                      (e\<lparr>e_sstables := (path, r) # e_sstables e, e_immutable := None, e_job := None,
                         e_cleaning := e_cleaning e @ [frozenWAL]\<rparr>, w)))"

definition run_clean :: "nat \<Rightarrow> Engine \<Rightarrow> world \<Rightarrow> Engine \<times> world" where
  "run_clean i e w =
     (if length (e_cleaning e) \<le> i then (e, w)
      else
        let l = e_cleaning e ! i; e = e\<lparr>e_cleaning := take i (e_cleaning e) @ drop (Suc i) (e_cleaning e)\<rparr>
        in case Close_log l w of
             (Inl _, _, w) \<Rightarrow> (e\<lparr>e_flushErr := True\<rparr>, w)
           | (Inr _, _, w) \<Rightarrow>
               (case os_Remove (Path l) w of
                  (False, w) \<Rightarrow> (e\<lparr>e_flushErr := True\<rparr>, w)
                | (True, w) \<Rightarrow> (e, w)))"

text \<open>A whole run of the goroutine of the flush in progress.\<close>

definition runFlush :: "(real \<Rightarrow> floats) \<Rightarrow> Engine \<Rightarrow> world \<Rightarrow> Engine \<times> world" where
  "runFlush fl e w =
     (case run_write fl e w of
        (e', w) \<Rightarrow>
          if length (e_cleaning e) < length (e_cleaning e') then run_clean (length (e_cleaning e)) e' w else (e', w))"

definition waitForAnyFlushLocked :: "(real \<Rightarrow> floats) \<Rightarrow> Engine \<Rightarrow> world \<Rightarrow> engine_error option \<times> Engine \<times> world" where
  "waitForAnyFlushLocked fl e w =
     (if e_immutable e = None then (None, e, w)
      else
        case runFlush fl e w of (e, w) \<Rightarrow> (if e_closed e then Some ErrEngineClosed else None, e, w))"

section \<open>Writing\<close>

fun batch_records :: "uint64 \<Rightarrow> BatchOp list \<Rightarrow> Record list" where
  "batch_records seq [] = []"
| "batch_records seq (b # bs) =
     \<lparr>rec_SeqNum = seq, rec_Type = (if bo_Deleted b then RecordDelete else RecordPut), rec_Key = bo_Key b,
      rec_Value = bo_Value b\<rparr> # batch_records (seq + 1) bs"

fun apply_ops :: "uint64 \<Rightarrow> BatchOp list \<Rightarrow> Memtable \<Rightarrow> Memtable option" where
  "apply_ops seq [] mem = Some mem"
| "apply_ops seq (b # bs) mem =
     Option.bind (if bo_Deleted b then Memtable_Delete (bo_Key b) seq mem else Memtable_Put (bo_Key b) (bo_Value b) seq mem)
       (apply_ops (seq + 1) bs)"

definition ApplyBatch :: "(nat \<Rightarrow> bool) \<Rightarrow> (real \<Rightarrow> floats) \<Rightarrow> BatchOp list \<Rightarrow> Engine \<Rightarrow> world
    \<Rightarrow> engine_error option \<times> Engine \<times> world" where
  "ApplyBatch rnd fl ops e w =
     (case waitForAnyFlushLocked fl e w of
        (Some err, e, w) \<Rightarrow> (Some err, e, w)
      | (None, e, w) \<Rightarrow>
          if e_flushErr e then (Some ErrFlushFailed, e, w)
          else if ops = [] then (None, e, w)
          else
            let seq = e_nextSeq e; e = e\<lparr>e_nextSeq := seq + word_of_nat (length ops)\<rparr>
            in case AppendBatch (batch_records seq ops) (e_w e) w of
                 (Inl err, l, w) \<Rightarrow> (Some (ErrWalAppend err), e\<lparr>e_w := l\<rparr>, w)
               | (Inr _, l, w) \<Rightarrow>
                   (case apply_ops seq ops (e_mem e) of
                      None \<Rightarrow> (Some EngineNoReturn, e\<lparr>e_w := l\<rparr>, w)
                    | Some mem \<Rightarrow>
                        let e = e\<lparr>e_w := l, e_mem := mem\<rparr>
                        in if eo_MemtableSizeThreshold (e_opts e) \<le> Memtable_ApproxSize mem
                           then (case startFlushLocked rnd e w of
                                   (Some err, e, w) \<Rightarrow> (Some (ErrStartFlush err), e, w)
                                 | (None, e, w) \<Rightarrow> (None, e, w))
                           else (None, e, w)))"

definition Engine_Put :: "(nat \<Rightarrow> bool) \<Rightarrow> (real \<Rightarrow> floats) \<Rightarrow> bytes \<Rightarrow> bytes \<Rightarrow> Engine \<Rightarrow> world \<Rightarrow> engine_error option \<times> Engine \<times> world" where
  "Engine_Put rnd fl key val = ApplyBatch rnd fl [\<lparr>bo_Key = key, bo_Value = val, bo_Deleted = False\<rparr>]"

definition Engine_Delete :: "(nat \<Rightarrow> bool) \<Rightarrow> (real \<Rightarrow> floats) \<Rightarrow> bytes \<Rightarrow> Engine \<Rightarrow> world \<Rightarrow> engine_error option \<times> Engine \<times> world" where
  "Engine_Delete rnd fl key = ApplyBatch rnd fl [\<lparr>bo_Key = key, bo_Value = [], bo_Deleted = True\<rparr>]"

definition Engine_Flush :: "(nat \<Rightarrow> bool) \<Rightarrow> (real \<Rightarrow> floats) \<Rightarrow> Engine \<Rightarrow> world \<Rightarrow> engine_error option \<times> Engine \<times> world" where
  "Engine_Flush rnd fl e w =
     (if e_closed e then (Some ErrEngineClosed, e, w)
      else
        case waitForAnyFlushLocked fl e w of
          (Some err, e, w) \<Rightarrow> (Some err, e, w)
        | (None, e, w) \<Rightarrow>
            if e_flushErr e then (Some ErrFlushFailed, e, w)
            else if Memtable_Len (e_mem e) = 0 then (None, e, w)
            else
              (case startFlushLocked rnd e w of
                 (Some err, e, w) \<Rightarrow> (Some (ErrStartFlush err), e, w)
               | (None, e, w) \<Rightarrow>
                   (case runFlush fl e w of (e, w) \<Rightarrow> (if e_flushErr e then Some ErrFlushFailed else None, e, w))))"

section \<open>Reading\<close>

definition live :: "found \<Rightarrow> bytes option" where
  "live f = (case f of None \<Rightarrow> None | Some (v, _, deleted) \<Rightarrow> if deleted then None else Some v)"

fun get_tables :: "sstableEntry list \<Rightarrow> bytes \<Rightarrow> BlockCache option \<Rightarrow> world
    \<Rightarrow> (engine_error + found) \<times> BlockCache option \<times> world" where
  "get_tables [] key c w = (Inr None, c, w)"
| "get_tables ((p, r) # es) key c w =
     (case Reader_Get r key c w of
        (Inl err, c, w) \<Rightarrow> (Inl (ErrReadTable err), c, w)
      | (Inr (Some f), c, w) \<Rightarrow> (Inr (Some f), c, w)
      | (Inr None, c, w) \<Rightarrow> get_tables es key c w)"

definition Engine_Get :: "bytes \<Rightarrow> Engine \<Rightarrow> world \<Rightarrow> (engine_error + bytes option) \<times> Engine \<times> world" where
  "Engine_Get key e w =
     (if e_closed e then (Inl ErrEngineClosed, e, w)
      else
        case Memtable_Get key (e_mem e) of
          None \<Rightarrow> (Inl EngineNoReturn, e, w)
        | Some (Some f) \<Rightarrow> (Inr (live (Some f)), e, w)
        | Some None \<Rightarrow>
            (case (case e_immutable e of None \<Rightarrow> Some None | Some imm \<Rightarrow> Memtable_Get key imm) of
               None \<Rightarrow> (Inl EngineNoReturn, e, w)
             | Some (Some f) \<Rightarrow> (Inr (live (Some f)), e, w)
             | Some None \<Rightarrow>
                 (case get_tables (e_sstables e) key (e_cache e) w of
                    (Inl err, c, w) \<Rightarrow> (Inl err, e\<lparr>e_cache := c\<rparr>, w)
                  | (Inr f, c, w) \<Rightarrow> (Inr (live f), e\<lparr>e_cache := c\<rparr>, w))))"

record EngineStats =
  es_MemtableSize :: int
  es_MemtableEntries :: nat
  es_NumSSTables :: nat
  es_FlushInProgress :: bool

definition Engine_Stats :: "Engine \<Rightarrow> EngineStats" where
  "Engine_Stats e = \<lparr>es_MemtableSize = Memtable_ApproxSize (e_mem e), es_MemtableEntries = Memtable_Len (e_mem e),
     es_NumSSTables = length (e_sstables e), es_FlushInProgress = (e_immutable e \<noteq> None)\<rparr>"

section \<open>Closing\<close>

text \<open>\<open>flushWG.Wait()\<close>: every goroutine runs to its end.\<close>

fun clean_all :: "nat \<Rightarrow> Engine \<Rightarrow> world \<Rightarrow> Engine \<times> world" where
  "clean_all 0 e w = (e, w)"
| "clean_all (Suc n) e w = (case run_clean 0 e w of (e, w) \<Rightarrow> clean_all n e w)"

fun close_readers :: "sstableEntry list \<Rightarrow> world \<Rightarrow> bool \<times> world" where
  "close_readers [] w = (True, w)"
| "close_readers (e # es) w =
     (case Reader_Close (snd e) w of (ok, w) \<Rightarrow> (case close_readers es w of (ok', w) \<Rightarrow> (ok \<and> ok', w)))"

definition Close_begin_engine :: "Engine \<Rightarrow> Engine" where
  "Close_begin_engine e = e\<lparr>e_closed := True\<rparr>"

definition Close_end_engine :: "(real \<Rightarrow> floats) \<Rightarrow> Engine \<Rightarrow> world \<Rightarrow> engine_error option \<times> Engine \<times> world" where
  "Close_end_engine fl e w =
     (case run_write fl e w of (e, w) \<Rightarrow>
        (case clean_all (length (e_cleaning e)) e w of (e, w) \<Rightarrow>
           (case Close_log (e_w e) w of (r, l, w) \<Rightarrow>
              (case close_readers (e_sstables e) w of (ok, w) \<Rightarrow>
                 (if r \<noteq> Inr () \<or> \<not> ok then Some ErrCloseFile else None, e\<lparr>e_w := l\<rparr>, w)))))"

definition Engine_Close :: "(real \<Rightarrow> floats) \<Rightarrow> Engine \<Rightarrow> world \<Rightarrow> engine_error option \<times> Engine \<times> world" where
  "Engine_Close fl e w =
     (if e_closed e then (None, e, w) else Close_end_engine fl (Close_begin_engine e) w)"

end
