(* ===== verification/Engine_Snapshot.thy ===== *)
theory Engine_Snapshot
  imports Engine_Core
begin

text \<open>
  Snapshots of a store (\<open>Snapshot\<close> and \<open>RestoreSnapshot\<close> of \<open>src/engine/engine.go\<close>) and their format. The
  order in which Go visits a map is the parameter \<open>visit\<close>, which permutes the distinct keys.
\<close>

section \<open>Format\<close>

definition writeLenPrefixed :: "bytes \<Rightarrow> bytes" where
  "writeLenPrefixed b = PutUint32 (word_of_nat (length b)) @ b"

text \<open>The value and the bytes after it.\<close>

definition readLenPrefixed :: "bytes \<Rightarrow> (bytes \<times> bytes) option" where
  "readLenPrefixed data =
     (if length data < 4 then None
      else
        let n = Uint32 data; rest = drop 4 data
        in if (word_of_nat (length rest) :: uint32) < n then None
           else Some (take (unat n) rest, drop (unat n) rest))"

lemma readLenPrefixed_shorter: "readLenPrefixed data = Some (v, rest) \<Longrightarrow> length rest < length data"
  by (auto simp: readLenPrefixed_def Let_def split: if_splits)

type_synonym snapshotEntry = "bytes \<times> bytes"

function decodeSnapshotEntries :: "bytes \<Rightarrow> snapshotEntry list option" where
  "decodeSnapshotEntries data =
     (if data = [] then Some []
      else
        case readLenPrefixed data of
          None \<Rightarrow> None
        | Some (key, rest) \<Rightarrow>
            (case readLenPrefixed rest of
               None \<Rightarrow> None
             | Some (val, rest') \<Rightarrow> map_option (\<lambda>es. (key, val) # es) (decodeSnapshotEntries rest')))"
  by pat_completeness auto
termination
  by (relation "measure length") (auto dest!: readLenPrefixed_shorter)

declare decodeSnapshotEntries.simps [simp del]

definition encode_snapshot :: "snapshotEntry list \<Rightarrow> bytes" where
  "encode_snapshot es = concat (map (\<lambda>(k, v). writeLenPrefixed k @ writeLenPrefixed v) es)"

section \<open>Snapshot\<close>

definition memtable_keys :: "Memtable \<Rightarrow> bytes list option" where
  "memtable_keys m = map_option (\<lambda>it. map es_key (iterate (Iterator_SeekToFirst it))) (NewIterator m)"

text \<open>The keys of the tables; the error of an iterator is not looked at.\<close>

fun tables_keys :: "sstableEntry list \<Rightarrow> BlockCache option \<Rightarrow> world \<Rightarrow> bytes list \<times> BlockCache option \<times> world" where
  "tables_keys [] c w = ([], c, w)"
| "tables_keys ((p, r) # es) c w =
     (case iter_all r c w of (xs, it, c, w) \<Rightarrow>
        (case tables_keys es c w of (ks, c, w) \<Rightarrow> (map de_key xs @ ks, c, w)))"

fun snapshot_pairs :: "bytes list \<Rightarrow> Engine \<Rightarrow> world \<Rightarrow> (engine_error + bytes) \<times> Engine \<times> world" where
  "snapshot_pairs [] e w = (Inr [], e, w)"
| "snapshot_pairs (k # ks) e w =
     (case Engine_Get k e w of
        (Inl err, e, w) \<Rightarrow> (Inl err, e, w)
      | (Inr found, e, w) \<Rightarrow>
          (case snapshot_pairs ks e w of
             (Inl err, e, w) \<Rightarrow> (Inl err, e, w)
           | (Inr buf, e, w) \<Rightarrow>
               (Inr (case found of None \<Rightarrow> buf | Some v \<Rightarrow> writeLenPrefixed k @ writeLenPrefixed v @ buf), e, w)))"

definition Engine_Snapshot :: "(bytes list \<Rightarrow> bytes list) \<Rightarrow> Engine \<Rightarrow> world \<Rightarrow> (engine_error + bytes) \<times> Engine \<times> world" where
  "Engine_Snapshot visit e w =
     (if e_closed e then (Inl ErrEngineClosed, e, w)
      else
        case (memtable_keys (e_mem e), case e_immutable e of None \<Rightarrow> Some [] | Some m \<Rightarrow> memtable_keys m) of
          (Some ks1, Some ks2) \<Rightarrow>
            (case tables_keys (e_sstables e) (e_cache e) w of
               (ks3, c, w) \<Rightarrow> snapshot_pairs (visit (remdups (ks1 @ ks2 @ ks3))) (e\<lparr>e_cache := c\<rparr>) w)
        | _ \<Rightarrow> (Inl EngineNoReturn, e, w))"

section \<open>RestoreSnapshot\<close>

fun snapshot_entries :: "nat \<Rightarrow> snapshotEntry list \<Rightarrow> decodedEntry list" where
  "snapshot_entries i [] = []"
| "snapshot_entries i ((k, v) # es) =
     \<lparr>de_key = k, de_value = v, de_seq = word_of_nat (i + 1), de_deleted = False\<rparr> # snapshot_entries (Suc i) es"

fun remove_files :: "string list \<Rightarrow> world \<Rightarrow> world" where
  "remove_files [] w = w"
| "remove_files (p # ps) w = remove_files ps (snd (os_Remove p w))"

text \<open>After the marker is written: switch to the new table and log, and remove what they replace.\<close>

definition install_snapshot :: "(nat \<Rightarrow> bool) \<Rightarrow> int \<Rightarrow> Reader \<Rightarrow> WAL \<Rightarrow> Engine \<Rightarrow> world \<Rightarrow> Engine \<times> world" where
  "install_snapshot rnd newSeq reader newWAL e w =
     (let oldSSTables = e_sstables e; oldWALPath = Path (e_w e);
          e = e\<lparr>e_sstables := [(sst_name newSeq, reader)], e_w := newWAL, e_mem := Memtable_New rnd,
                e_nextFlushSeq := newSeq + 1, e_nextWALSeq := newSeq + 1, e_flushErr := False\<rparr>
      in (e, snd (os_Remove oldWALPath (remove_files (map fst oldSSTables) (closeAll oldSSTables w)))))"

definition RestoreSnapshot :: "(nat \<Rightarrow> bool) \<Rightarrow> (real \<Rightarrow> floats) \<Rightarrow> bytes \<Rightarrow> Engine \<Rightarrow> world \<Rightarrow> engine_error option \<times> Engine \<times> world" where
  "RestoreSnapshot rnd fl data e w =
     (if e_closed e then (Some ErrEngineClosed, e, w)
      else if e_immutable e \<noteq> None then (Some ErrFlushInProgress, e, w)
      else
        case decodeSnapshotEntries data of
          None \<Rightarrow> (Some ErrBadSnapshot, e, w)
        | Some entries \<Rightarrow>
            let newSeq = max (e_nextFlushSeq e) (e_nextWALSeq e); path = sst_name newSeq
            in case write_table fl path (writer_options (e_opts e)) (snapshot_entries 0 (sort_key fst entries)) w of
                 (Inl err, w) \<Rightarrow> (Some (ErrSnapshotTable err), e, w)
               | (Inr _, w) \<Rightarrow>
                   (case OpenWithCache path w of
                      (Inl err, w) \<Rightarrow> (Some (ErrSnapshotTable err), e, w)
                    | (Inr reader, w) \<Rightarrow>
                        (case Open_log (wal_name newSeq) True w of
                           (Inl err, w) \<Rightarrow> (Some (ErrOpenWal err), e, snd (Reader_Close reader w))
                         | (Inr newWAL, w) \<Rightarrow>
                             (case writeRestoreMarkerAtomically newSeq w of
                                (False, w) \<Rightarrow>
                                  (Some ErrMarkerWrite, e, snd (Reader_Close reader (snd (snd (Close_log newWAL w)))))
                              | (True, w) \<Rightarrow>
                                  (case install_snapshot rnd newSeq reader newWAL e w of (e, w) \<Rightarrow> (None, e, w))))))"

end
