(* ===== verification/Engine_Refine.thy ===== *)
theory Engine_Refine
  imports Engine_Snapshot
begin

text \<open>
  The engine as a map: an abstraction of its layers (memtable, frozen memtable, tables from new to old), an
  invariant of its state, and what every operation does to the abstract map.
\<close>

section \<open>Writes of a batch\<close>

type_synonym kv = "bytes \<Rightarrow> bytes option"

definition kv_apply :: "BatchOp list \<Rightarrow> kv \<Rightarrow> kv" where
  "kv_apply ops M = fold (\<lambda>b M. M(bo_Key b := if bo_Deleted b then None else Some (bo_Value b))) ops M"

fun ops_writes :: "uint64 \<Rightarrow> BatchOp list \<Rightarrow> mutation list" where
  "ops_writes seq [] = []"
| "ops_writes seq (b # bs) =
     (if bo_Deleted b then WDelete (bo_Key b) seq else WPut (bo_Key b) (bo_Value b) seq) # ops_writes (seq + 1) bs"

definition rec_write :: "Record \<Rightarrow> mutation" where
  "rec_write r = (if rec_Type r = RecordDelete then WDelete (rec_Key r) (rec_SeqNum r)
     else WPut (rec_Key r) (rec_Value r) (rec_SeqNum r))"

lemma batch_records_writes: "map rec_write (batch_records seq ops) = ops_writes seq ops"
  by (induction seq ops rule: batch_records.induct) (simp_all add: rec_write_def RecordDelete_def RecordPut_def)

lemma apply_ops_writes: "apply_ops seq ops = apply_writes Memtable_Put Memtable_Delete (ops_writes seq ops)"
proof (induction ops arbitrary: seq)
  case (Cons b bs)
  then show ?case by (intro ext) simp
qed auto

lemma apply_ops_wf:
  "mt_wf m \<Longrightarrow> \<exists>m'. apply_ops seq ops m = Some m' \<and> mt_wf m' \<and> mt_entries m' = upd_writes (ops_writes seq ops) (mt_entries m)"
  unfolding apply_ops_writes by (rule mt.writes_return)

lemma live_simps [simp]: "live None = None" "live (Some (v, q, d)) = (if d then None else Some v)"
  by (simp_all add: live_def)

text \<open>One layer over another.\<close>

definition over :: "found \<Rightarrow> found \<Rightarrow> found" where
  "over a b = (case a of None \<Rightarrow> b | Some _ \<Rightarrow> a)"

lemma over_simps [simp]: "over None b = b" "over (Some x) b = Some x" "over a None = a"
  by (simp_all add: over_def split: option.split)

lemma over_assoc: "over (over a b) c = over a (over b c)"
  by (cases a) simp_all

text \<open>A batch over any lower layers is the batch applied to the abstract map.\<close>

lemma upd_writes_Cons: "upd_writes (w # ws) es = upd_writes ws (upd_sorted (write_key w) (write_stored w) es)"
  by (simp add: upd_writes_def)

lemma live_batch:
  "(\<lambda>k. live (over (map_of (upd_writes (ops_writes seq ops) es) k) (low k)))
     = kv_apply ops (\<lambda>k. live (over (map_of es k) (low k)))"
proof (induction seq ops arbitrary: es rule: ops_writes.induct)
  case (1 seq)
  show ?case by (simp add: upd_writes_def kv_apply_def)
next
  case (2 seq b bs)
  let ?w = "if bo_Deleted b then WDelete (bo_Key b) seq else WPut (bo_Key b) (bo_Value b) seq"
  have "(\<lambda>k. live (over (map_of (upd_sorted (write_key ?w) (write_stored ?w) es) k) (low k)))
      = (\<lambda>k. live (over (map_of es k) (low k)))(bo_Key b := if bo_Deleted b then None else Some (bo_Value b))"
    by (rule ext) simp
  then show ?case by (simp only: ops_writes.simps upd_writes_Cons 2 kv_apply_def fold_Cons comp_def)
qed

section \<open>Memtables and the tables written from them\<close>

definition mem_table :: "Memtable \<Rightarrow> decodedEntry list" where
  "mem_table m = (case NewIterator m of None \<Rightarrow> [] | Some it \<Rightarrow> map entry_of (it_entries it))"

lemma mem_table_entries:
  "map (\<lambda>e. (de_key e, de_value e, de_seq e, de_deleted e)) (mem_table m) = mt_entries m"
  by (simp add: mem_table_def mt_entries_def entry_of_def es_entry_def comp_def split: option.split)

lemma lookup_entry_map_of:
  "found_of (lookup_entry es k) = map_of (map (\<lambda>e. (de_key e, de_value e, de_seq e, de_deleted e)) es) k"
  by (induction es) (simp_all add: found_of_def)

lemma mem_table_lookup: "found_of (lookup_entry (mem_table m) k) = map_of (mt_entries m) k"
  by (simp add: lookup_entry_map_of mem_table_entries)

lemma mem_table_keys: "map de_key (mem_table m) = map fst (mt_entries m)"
  by (simp add: comp_def flip: mem_table_entries)

lemma mem_table_sorted: "mt_wf m \<Longrightarrow> keys_sorted (mem_table m)"
  using mt_entries_sorted [of m] by (simp add: keys_sorted_def mem_table_keys sorted_keys_def)

lemma NewIterator_wf: "mt_wf m \<Longrightarrow> \<exists>it. NewIterator m = Some it"
  using NewIterator_inv(1) by (auto simp: mt_wf_def)

lemma length_mem_table: "mt_wf m \<Longrightarrow> length (mem_table m) = Memtable_Len m"
  using arg_cong [OF mem_table_entries, of length m] by (simp add: Memtable_Len_wf)

lemma writeSSTable_eq:
  assumes "mt_wf m"
  shows "writeSSTableFromMemtable fl m path opts = write_table fl path (writer_options opts) (mem_table m)"
  using NewIterator_wf [OF assms]
  by (auto simp: writeSSTableFromMemtable_def mem_table_def iterate_SeekToFirst fun_eq_iff)

section \<open>The invariant and the abstraction\<close>

definition mem_ok :: "Memtable \<Rightarrow> bool" where
  "mem_ok m \<longleftrightarrow> mt_wf m \<and> (\<forall>e \<in> set (mem_table m). entry_ok e)"

definition is_wal :: "WAL \<Rightarrow> bool" where
  "is_wal l \<longleftrightarrow> (\<exists>i. Path l = wal_name i)"

text \<open>
  \<open>T\<close> gives the contents of the tables. The job of a running flush owns a number that no table has; logs
  and tables have different names.
\<close>

definition job_ok :: "tables \<Rightarrow> int \<Rightarrow> Memtable option \<Rightarrow> (Memtable \<times> WAL \<times> int) option \<Rightarrow> bool" where
  "job_ok T next imm job \<longleftrightarrow>
     (case job of None \<Rightarrow> imm = None
      | Some (m, l, n) \<Rightarrow> imm = Some m \<and> mem_ok m \<and> is_wal l \<and> 0 \<le> n \<and> n < next \<and> T (sst_name n) = None)"

definition engine_ok :: "tables \<Rightarrow> Engine \<Rightarrow> world \<Rightarrow> bool" where
  "engine_ok T e w \<longleftrightarrow>
     mem_ok (e_mem e)
     \<and> job_ok T (e_nextFlushSeq e) (e_immutable e) (e_job e)
     \<and> (\<forall>(p, r) \<in> set (e_sstables e). \<exists>bf bs. T p = Some (bf, bs) \<and> r = reader_for p bf bs)
     \<and> tables_in T w \<and> coherent (cached T) (e_cache e)
     \<and> (\<forall>p. T p \<noteq> None \<longrightarrow> (\<exists>i. p = sst_name i \<and> 0 \<le> i \<and> i < e_nextFlushSeq e))
     \<and> 0 \<le> e_nextFlushSeq e \<and> (\<forall>l \<in> set (e_w e # e_cleaning e). is_wal l)"

primrec tables_layer :: "tables \<Rightarrow> sstableEntry list \<Rightarrow> bytes \<Rightarrow> found" where
  "tables_layer T [] k = None"
| "tables_layer T (s # ss) k = over (table_lookup T (fst s) k) (tables_layer T ss k)"

definition e_lookup :: "tables \<Rightarrow> Engine \<Rightarrow> bytes \<Rightarrow> found" where
  "e_lookup T e k =
     over (map_of (mt_entries (e_mem e)) k)
       (over (case e_immutable e of None \<Rightarrow> None | Some m \<Rightarrow> map_of (mt_entries m) k) (tables_layer T (e_sstables e) k))"

definition e_abs :: "tables \<Rightarrow> Engine \<Rightarrow> kv" where
  "e_abs T e k = live (e_lookup T e k)"

section \<open>Reading\<close>

lemma get_tables_spec:
  assumes "tables_in T w" "coherent (cached T) c" "\<forall>(p, r) \<in> set ss. \<exists>bf bs. T p = Some (bf, bs) \<and> r = reader_for p bf bs"
    "get_tables ss key c w = (r, c', w')"
  shows "w_files w' = w_files w \<and> coherent (cached T) c'
    \<and> (r = Inr (tables_layer T ss key) \<or> r = Inl (ErrReadTable ErrReadAt))
    \<and> (w_faults w = (\<lambda>_. Ok) \<longrightarrow> r = Inr (tables_layer T ss key) \<and> w' = w)"
  using assms
proof (induction ss key c w rule: get_tables.induct)
  case (2 p rd es key c w)
  obtain bf bs where t: "T p = Some (bf, bs)" "rd = reader_for p bf bs" using "2.prems"(3) by auto
  obtain r1 c1 w1 where g: "Reader_Get rd key c w = (r1, c1, w1)" by (metis prod_cases3)
  have look: "found_of (lookup_entry (concat bs) key) = table_lookup T p key" by (simp add: table_lookup_def t(1))
  note G = Reader_Get_spec [OF "2.prems"(1) t(1) "2.prems"(2) g [unfolded t(2)], unfolded look]
  have T1: "tables_in T w1" using "2.prems"(1) tables_in_files [OF G(1)] by simp
  consider (err) "r1 = Inl ErrReadAt" | (hit) f where "r1 = Inr (Some f)" "table_lookup T p key = Some f"
    | (miss) "r1 = Inr None" "table_lookup T p key = None"
    using G(3) by (cases "table_lookup T p key") auto
  then show ?case
  proof cases
    case err
    with "2.prems"(4) g G show ?thesis by auto
  next
    case hit
    with "2.prems"(4) g G show ?thesis by auto
  next
    case miss
    with "2.prems"(4) g have rest: "get_tables es key c1 w1 = (r, c', w')" by simp
    have "\<forall>(p, r) \<in> set es. \<exists>bf bs. T p = Some (bf, bs) \<and> r = reader_for p bf bs" using "2.prems"(3) by simp
    note R = "2.IH" [OF g [symmetric] miss(1) refl refl T1 G(2) this rest]
    have "w_faults w = (\<lambda>_. Ok) \<longrightarrow> w1 = w" using G(4) by blast
    with R G(1) miss show ?thesis by auto
  qed
qed auto

lemma Engine_Get_ok:
  assumes ok: "engine_ok T e w" and get: "Engine_Get key e w = (r, e', w')" and open': "\<not> e_closed e"
  shows "engine_ok T e' w'" "\<exists>c. e' = e\<lparr>e_cache := c\<rparr>" "w_files w' = w_files w"
    "r = Inr (e_abs T e key) \<or> r = Inl (ErrReadTable ErrReadAt)"
    "w_faults w = (\<lambda>_. Ok) \<Longrightarrow> r = Inr (e_abs T e key) \<and> w' = w"
proof -
  let ?imm = "case e_immutable e of None \<Rightarrow> None | Some m \<Rightarrow> map_of (mt_entries m) key"
  have mem: "Memtable_Get key (e_mem e) = Some (map_of (mt_entries (e_mem e)) key)"
    using ok by (simp add: engine_ok_def mem_ok_def Memtable_Get_wf)
  have imm: "(case e_immutable e of None \<Rightarrow> Some None | Some m \<Rightarrow> Memtable_Get key m) = Some ?imm"
    using ok by (auto simp: engine_ok_def job_ok_def mem_ok_def Memtable_Get_wf split: option.splits)
  obtain r1 c1 w1 where g: "get_tables (e_sstables e) key (e_cache e) w = (r1, c1, w1)" by (metis prod_cases3)
  have "tables_in T w" "coherent (cached T) (e_cache e)"
    "\<forall>(p, r) \<in> set (e_sstables e). \<exists>bf bs. T p = Some (bf, bs) \<and> r = reader_for p bf bs" using ok by (simp_all add: engine_ok_def)
  note G = get_tables_spec [OF this g]
  have ok': "engine_ok T (e\<lparr>e_cache := c1\<rparr>) w1"
    using ok G tables_in_files [of w1 w T] by (simp add: engine_ok_def)
  have self: "\<exists>c. e = e\<lparr>e_cache := c\<rparr>" by (intro exI [of _ "e_cache e"]) simp
  have all: "engine_ok T e' w' \<and> (\<exists>c. e' = e\<lparr>e_cache := c\<rparr>) \<and> w_files w' = w_files w
    \<and> (r = Inr (e_abs T e key) \<or> r = Inl (ErrReadTable ErrReadAt)) \<and> (w_faults w = (\<lambda>_. Ok) \<longrightarrow> r = Inr (e_abs T e key) \<and> w' = w)"
  proof (cases "over (map_of (mt_entries (e_mem e)) key) ?imm")
    case (Some f)
    then have "e_lookup T e key = Some f" by (simp add: e_lookup_def flip: over_assoc)
    moreover have "Engine_Get key e w = (Inr (live (Some f)), e, w)"
      using Some open' mem imm by (cases "map_of (mt_entries (e_mem e)) key") (simp_all add: Engine_Get_def)
    ultimately show ?thesis using get ok self by (auto simp: e_abs_def)
  next
    case None
    then have "map_of (mt_entries (e_mem e)) key = None" "?imm = None"
      by (cases "map_of (mt_entries (e_mem e)) key", simp_all)+
    then have "e_lookup T e key = tables_layer T (e_sstables e) key"
      "Engine_Get key e w = (case r1 of Inl err \<Rightarrow> (Inl err, e\<lparr>e_cache := c1\<rparr>, w1) | Inr f \<Rightarrow> (Inr (live f), e\<lparr>e_cache := c1\<rparr>, w1))"
      using open' mem imm g by (simp_all add: Engine_Get_def e_lookup_def split: sum.split)
    with get G ok' show ?thesis by (auto simp: e_abs_def)
  qed
  then show "engine_ok T e' w'" "\<exists>c. e' = e\<lparr>e_cache := c\<rparr>" "w_files w' = w_files w"
    "r = Inr (e_abs T e key) \<or> r = Inl (ErrReadTable ErrReadAt)"
    "w_faults w = (\<lambda>_. Ok) \<Longrightarrow> r = Inr (e_abs T e key) \<and> w' = w" by blast+
qed

section \<open>Files the operations touch\<close>

lemma only_touches_files: "w_files w' = w_files w \<Longrightarrow> only_touches p w w'"
  by (simp add: only_touches_def)

lemma tables_in_touches:
  assumes "tables_in T w" "only_touches p w w'" "T p = None"
  shows "tables_in T w'"
  using assms by (auto simp: tables_in_def only_touches_def file_data_def) (metis option.distinct(1))

lemma append_records_touches:
  "append_records recs l w = (ok, l', w') \<Longrightarrow> Path l' = Path l \<and> only_touches (Path l) w w'"
  using append_records_extends [of recs l w ok l' w'] by (auto simp: extends_def only_touches_def)

lemma AppendBatch_touches:
  assumes "AppendBatch recs l w = (r, l', w')"
  shows "Path l' = Path l" "only_touches (Path l) w w'"
proof -
  obtain ok l1 w1 where a: "append_records recs l w = (ok, l1, w1)" by (metis prod_cases3)
  obtain ok2 b w2 where f: "bufio_Flush (wal_writer l1) w1 = (ok2, b, w2)" by (metis prod_cases3)
  obtain ok3 w3 where s: "os_Sync (bw_path b) w2 = (ok3, w3)" by fastforce
  note A = append_records_touches [OF a] and F = bufio_Flush_holds(1,2) [OF f] and S = os_Sync_files(3) [OF s]
  have p: "bw_path b = Path l" "bw_path (wal_writer l1) = Path l" using A F by (simp_all add: Path_def)
  have t: "only_touches (Path l) w w1" "only_touches (Path l) w w2" "only_touches (Path l) w w3"
    using A F S p by (simp_all add: only_touches_def)
  show "Path l' = Path l" using assms AppendBatch_settings(1) by blast
  have "w' \<in> {w, w1, w2, w3}"
    using assms a f s by (auto simp: AppendBatch_def split: if_splits bool.splits)
  with t show "only_touches (Path l) w w'" by auto
qed

lemma readChecksummed_files: "readChecksummed p off len w = (r, w') \<Longrightarrow> w_files w' = w_files w"
  by (auto simp: readChecksummed_def Let_def dest: os_read_files(3) split: if_splits prod.splits option.splits)

lemma OpenWithCache_files:
  assumes "OpenWithCache p w = (r, w')"
  shows "w_files w' = w_files w"
proof -
  have same: "w_files (snd (and_then m f w)) = w_files w"
    if "\<And>w. w_files (snd (m w)) = w_files w" "\<And>x w. w_files (snd (f x w)) = w_files w"
    for m :: "(sst_error, 'a) io" and f :: "'a \<Rightarrow> (sst_error, 'b) io" and w
    using that by (auto simp: and_then_def split: prod.splits sum.splits) (metis snd_conv)+
  have rc: "w_files (snd (readChecksummed p off len w)) = w_files w" for off len w
    using readChecksummed_files by (metis prod.collapse)
  have rf: "w_files (snd (read_footer p w)) = w_files w" for w
    by (auto simp: read_footer_def dest!: os_read_files(2,3) split: prod.splits option.splits)
  have ob: "w_files (snd (open_blocks p f w)) = w_files w" for f w
    unfolding open_blocks_def Let_def by (simp add: same rc)
  have cl: "w_files (snd (os_Close p w)) = w_files w" for w using os_Close_files by (metis prod.collapse)
  have "w_files (snd (close_on_error p (and_then (read_footer p) (open_blocks p)) w)) = w_files w" for w
    using same [of "read_footer p" "open_blocks p" w] rf ob cl
    by (auto simp: close_on_error_def split: prod.splits sum.splits)
  then show ?thesis
    using assms by (auto simp: OpenWithCache_def dest!: os_read_files(1) split: prod.splits bool.splits) (metis snd_conv)
qed

lemma Open_log_touches:
  assumes "Open_log p sync w = (r, w')"
  shows "only_touches p w w'" "r = Inr l \<Longrightarrow> Path l = p"
  using assms Open_log_files [of p sync w _ w'] Open_log_failed_files [of p sync w _ w']
  by (cases r; auto simp: only_touches_def)+

lemma Close_log_touches:
  assumes "Close_log l w = (r, l', w')"
  shows "only_touches (Path l) w w'"
  using Close_log_files(1) [OF assms] by (auto simp: only_touches_def)

lemma os_Remove_touches:
  assumes "os_Remove p w = (ok, w')"
  shows "only_touches p w w'"
  using os_Remove_files(1) [OF assms] by (auto simp: only_touches_def)

section \<open>Writing\<close>

lemma tables_layer_cong: "(\<forall>s \<in> set ss. T' (fst s) = T (fst s)) \<Longrightarrow> tables_layer T' ss k = tables_layer T ss k"
  by (induction ss) (simp_all add: table_lookup_def)

lemma coherent_mono: "coherent R c \<Longrightarrow> (\<And>k d. R k d \<Longrightarrow> R' k d) \<Longrightarrow> coherent R' c"
  by (auto simp: coherent_def)

lemma wal_not_table: "engine_ok T e w \<Longrightarrow> is_wal l \<Longrightarrow> T (Path l) = None"
  unfolding engine_ok_def is_wal_def by (metis name_distinct(1) not_None_eq)

text \<open>
  Tables are smaller than \<open>2^63\<close> bytes, the largest size an \<open>int64\<close> offset can address; this and the size of
  the Bloom filter are asked of the table that a flush in progress writes.
\<close>

definition flush_fits :: "(real \<Rightarrow> floats) \<Rightarrow> Engine \<Rightarrow> world \<Rightarrow> bool" where
  "flush_fits fl e w \<longleftrightarrow>
     (\<forall>m l n. e_job e = Some (m, l, n) \<longrightarrow> bloom_fits fl (Memtable_Len m)
        \<and> (\<forall>d. file_data (snd (run_write fl e w)) (sst_name n) = Some d \<longrightarrow> go_len d))"

lemma run_write_cases:
  assumes ok: "engine_ok T e w" and fits: "flush_fits fl e w" and rw: "run_write fl e w = (e', w')"
  obtains (idle) "e_job e = None" "e' = e" "w' = w"
    | (failed) "e_job e \<noteq> None" "e' = e\<lparr>e_flushErr := True, e_immutable := None, e_job := None\<rparr>" "tables_in T w'"
    | (installed) m l n bf bs where "e_job e = Some (m, l, n)" "concat bs = mem_table m" "tables_in (T(sst_name n \<mapsto> (bf, bs))) w'"
        "e' = e\<lparr>e_sstables := (sst_name n, reader_for (sst_name n) bf bs) # e_sstables e, e_immutable := None, e_job := None,
            e_cleaning := e_cleaning e @ [l]\<rparr>"
        "only_touches (sst_name n) w w'" "file_synced w' (sst_name n) = map_option length (file_data w' (sst_name n))"
proof (cases "e_job e")
  case None
  with rw have "e' = e" "w' = w" by (simp_all add: run_write_def)
  with None show thesis by (rule that(1))
next
  case (Some j)
  obtain m l n where j: "j = (m, l, n)" by (metis prod_cases3)
  let ?p = "sst_name n"
  have J: "e_immutable e = Some m" "mem_ok m" "T ?p = None" using ok Some j by (simp_all add: engine_ok_def job_ok_def)
  obtain r1 w1 where wt: "write_table fl ?p (writer_options (e_opts e)) (mem_table m) w = (r1, w1)" by fastforce
  obtain r2 w2 where op: "OpenWithCache ?p w1 = (r2, w2)" by fastforce
  have es: "table_entries (mem_table m)" "bloom_fits fl (length (mem_table m))"
    using J(1,2) fits Some j by (simp_all add: table_entries_def mem_ok_def mem_table_sorted length_mem_table flush_fits_def)
  note W = write_table_spec [OF es wt]
  have T1: "tables_in T w1" using ok W(1) J(3) by (auto simp: engine_ok_def intro: tables_in_touches)
  have run: "run_write fl e w = (case r1 of Inl _ \<Rightarrow> (e\<lparr>e_flushErr := True, e_immutable := None, e_job := None\<rparr>, w1)
      | Inr _ \<Rightarrow> (case r2 of Inl _ \<Rightarrow> (e\<lparr>e_flushErr := True, e_immutable := None, e_job := None\<rparr>, w2)
        | Inr r \<Rightarrow> (e\<lparr>e_sstables := (?p, r) # e_sstables e, e_immutable := None, e_job := None,
            e_cleaning := e_cleaning e @ [l]\<rparr>, w2)))"
    using Some j J(2) wt op by (simp add: run_write_def writeSSTable_eq mem_ok_def Let_def split: sum.split)
  have files: "w_files w2 = w_files w1" by (rule OpenWithCache_files [OF op])
  show thesis
  proof (cases "\<exists>meta r. r1 = Inr meta \<and> r2 = Inr r")
    case False
    then have e': "e' = e\<lparr>e_flushErr := True, e_immutable := None, e_job := None\<rparr>" "w_files w' = w_files w1"
      using run rw files by (auto split: sum.splits)
    with T1 tables_in_files [OF e'(2)] Some show thesis by (intro that(2)) simp_all
  next
    case True
    then obtain meta rd where r: "r1 = Inr meta" "r2 = Inr rd" by blast
    have w': "w' = w2" using run rw r by simp
    obtain d where d: "file_data w1 ?p = Some d" "go_len d \<longrightarrow> is_table d (mem_table m)" "file_synced w1 ?p = Some (length d)"
      using W(4) [OF r(1)] by blast
    then have "go_len d" using fits rw files w' Some j by (simp add: flush_fits_def file_data_def)
    with d(2) obtain bf bs where b: "valid_table bf bs" "d = table_bytes bf bs" "concat bs = mem_table m"
      unfolding is_table_def by blast
    have rd: "rd = reader_for ?p bf bs" using OpenWithCache_spec(2) [OF d(1) [unfolded b(2)] b(1) op] r(2) by auto
    show thesis
    proof (rule that(3))
      show "e_job e = Some (m, l, n)" "concat bs = mem_table m" using Some j b(3) by simp_all
      show "tables_in (T(?p \<mapsto> (bf, bs))) w'" using T1 d(1) b files w' by (auto simp: tables_in_def file_data_def)
      show "e' = e\<lparr>e_sstables := (?p, reader_for ?p bf bs) # e_sstables e, e_immutable := None, e_job := None,
          e_cleaning := e_cleaning e @ [l]\<rparr>" using run rw r rd by simp
      show "only_touches ?p w w'" using W(1) files w' by (simp add: only_touches_def)
      show "file_synced w' ?p = map_option length (file_data w' ?p)"
        using d(1,3) files w' by (auto simp: file_synced_def file_data_def)
    qed
  qed
qed

text \<open>A table that is new to the engine changes nothing for the other tables and their cached blocks.\<close>

lemma engine_ok_installed:
  assumes ok: "engine_ok T e w" and job: "e_job e = Some (m, l, n)" and bs: "concat bs = mem_table m"
    and T': "T' = T(sst_name n \<mapsto> (bf, bs))" "tables_in T' w'"
    and e': "e' = e\<lparr>e_sstables := (sst_name n, reader_for (sst_name n) bf bs) # e_sstables e, e_immutable := None, e_job := None,
        e_cleaning := e_cleaning e @ [l]\<rparr>"
  shows "engine_ok T' e' w'" "e_lookup T' e' = e_lookup T e" "table_lookup T' (sst_name n) k = map_of (mt_entries m) k"
    "T q \<noteq> None \<Longrightarrow> T' q = T q"
proof -
  have J: "e_immutable e = Some m" "is_wal l" "0 \<le> n" "n < e_nextFlushSeq e" "T (sst_name n) = None"
    using ok job by (simp_all add: engine_ok_def job_ok_def)
  show sub: "T' q = T q" if "T q \<noteq> None" for q using that J(5) by (auto simp: T'(1))
  have "cached T' k x" if "cached T k x" for k x using that sub unfolding cached_def by (metis option.distinct(1))
  then have c: "coherent (cached T') (e_cache e)" using ok coherent_mono by (metis engine_ok_def)
  have old: "\<forall>(p, r) \<in> set (e_sstables e). \<exists>bf bs. T p = Some (bf, bs) \<and> r = reader_for p bf bs" using ok by (simp add: engine_ok_def)
  then have old': "\<forall>(p, r) \<in> set (e_sstables e). \<exists>bf bs. T' p = Some (bf, bs) \<and> r = reader_for p bf bs"
    using sub by fastforce
  have names: "T' p \<noteq> None \<longrightarrow> (\<exists>i. p = sst_name i \<and> 0 \<le> i \<and> i < e_nextFlushSeq e)" for p
    using ok J(3,4) by (auto simp: engine_ok_def T'(1))
  have new: "T' (sst_name n) = Some (bf, bs)" by (simp add: T'(1))
  show "engine_ok T' e' w'" using ok T'(2) c old' names J(2) new by (simp add: engine_ok_def job_ok_def e')
  have "tables_layer T' (e_sstables e) k = tables_layer T (e_sstables e) k" for k
    using old sub by (intro tables_layer_cong) fastforce
  moreover show look: "table_lookup T' (sst_name n) k = map_of (mt_entries m) k" for k
    using bs by (simp add: table_lookup_def new mem_table_lookup)
  ultimately show "e_lookup T' e' = e_lookup T e" using J(1) by (simp add: e' e_lookup_def fun_eq_iff)
qed

lemma run_write_ok:
  assumes ok: "engine_ok T e w" and fits: "flush_fits fl e w" and rw: "run_write fl e w = (e', w')"
  shows "\<exists>T'. engine_ok T' e' w' \<and> e_immutable e' = None \<and> (\<not> e_flushErr e' \<longrightarrow> e_lookup T' e' = e_lookup T e)"
  using ok fits rw
proof (cases rule: run_write_cases)
  case idle
  with ok have "e_immutable e = None" by (simp add: engine_ok_def job_ok_def)
  with ok idle show ?thesis by blast
next
  case failed
  with ok show ?thesis by (intro exI [of _ T]) (simp add: engine_ok_def job_ok_def)
next
  case (installed m l n bf bs)
  from engine_ok_installed(1,2) [OF ok installed(1,2) refl installed(3,4)] installed(4) show ?thesis by auto
qed

lemma run_clean_touches:
  assumes "run_clean i e w = (e', w')" "i < length (e_cleaning e)"
  shows "only_touches (Path (e_cleaning e ! i)) w w'"
proof -
  let ?l = "e_cleaning e ! i"
  obtain r1 l1 w1 where c: "Close_log ?l w = (r1, l1, w1)" by (metis prod_cases3)
  obtain ok2 w2 where r: "os_Remove (Path ?l) w1 = (ok2, w2)" by fastforce
  have "w' = w1 \<or> w' = w2" using assms c r by (auto simp: run_clean_def Let_def split: sum.splits bool.splits)
  then show ?thesis using Close_log_touches [OF c] os_Remove_touches [OF r] only_touches_trans by blast
qed

lemma run_clean_ok:
  assumes ok: "engine_ok T e w" and rc: "run_clean i e w = (e', w')"
  shows "engine_ok T e' w'" "e_lookup T e' = e_lookup T e"
    "e_job e' = e_job e" "e_immutable e' = e_immutable e" "e_closed e' = e_closed e"
    "e_flushErr e \<Longrightarrow> e_flushErr e'" "e_w e' = e_w e"
proof -
  have "engine_ok T e' w' \<and> e_lookup T e' = e_lookup T e \<and> e_job e' = e_job e
    \<and> e_immutable e' = e_immutable e \<and> e_closed e' = e_closed e \<and> (e_flushErr e \<longrightarrow> e_flushErr e') \<and> e_w e' = e_w e"
  proof (cases "length (e_cleaning e) \<le> i")
    case True
    with rc ok show ?thesis by (simp add: run_clean_def)
  next
    case False
    let ?l = "e_cleaning e ! i" and ?c = "take i (e_cleaning e) @ drop (Suc i) (e_cleaning e)"
    have l: "is_wal ?l" using ok False by (simp add: engine_ok_def)
    have e': "\<exists>fe. e' = e\<lparr>e_cleaning := ?c, e_flushErr := fe\<rparr> \<and> (e_flushErr e \<longrightarrow> fe)"
      using rc False
      by (auto simp: run_clean_def Let_def split: sum.splits bool.splits prod.splits intro: exI [of _ True] exI [of _ "e_flushErr e"])
    have t: "only_touches (Path ?l) w w'" using run_clean_touches [OF rc] False by simp
    have T: "tables_in T w'" using ok t wal_not_table [OF ok l] tables_in_touches by (auto simp: engine_ok_def)
    have cl: "\<forall>l \<in> set ?c. is_wal l" using ok by (auto simp: engine_ok_def dest: in_set_takeD in_set_dropD)
    from e' obtain fe where fe: "e' = e\<lparr>e_cleaning := ?c, e_flushErr := fe\<rparr>" "e_flushErr e \<longrightarrow> fe" by blast
    have "engine_ok T e' w'" using ok T cl by (simp add: fe(1) engine_ok_def)
    moreover have "e_lookup T e' = e_lookup T e" by (simp add: fe(1) e_lookup_def fun_eq_iff)
    ultimately show ?thesis using fe by simp
  qed
  then show "engine_ok T e' w'" "e_lookup T e' = e_lookup T e"
    "e_job e' = e_job e" "e_immutable e' = e_immutable e" "e_closed e' = e_closed e"
    "e_flushErr e \<Longrightarrow> e_flushErr e'" "e_w e' = e_w e" by blast+
qed

lemma run_write_keeps:
  assumes "run_write fl e w = (e', w')"
  shows "e_mem e' = e_mem e" "e_w e' = e_w e" "e_closed e' = e_closed e" "e_nextSeq e' = e_nextSeq e" "e_opts e' = e_opts e"
    "e_nextWALSeq e' = e_nextWALSeq e" "e_nextFlushSeq e' = e_nextFlushSeq e" "e_flushErr e \<Longrightarrow> e_flushErr e'"
  using assms by (auto simp: run_write_def Let_def split: option.splits prod.splits sum.splits)

lemma run_clean_keeps:
  assumes "run_clean i e w = (e', w')"
  shows "e_mem e' = e_mem e" "e_w e' = e_w e" "e_closed e' = e_closed e" "e_nextSeq e' = e_nextSeq e" "e_opts e' = e_opts e"
    "e_nextWALSeq e' = e_nextWALSeq e" "e_nextFlushSeq e' = e_nextFlushSeq e" "e_flushErr e \<Longrightarrow> e_flushErr e'"
  using assms by (auto simp: run_clean_def Let_def split: if_splits prod.splits sum.splits bool.splits)

lemma runFlush_ok:
  assumes ok: "engine_ok T e w" and fits: "flush_fits fl e w" and rf: "runFlush fl e w = (e', w')"
  shows "\<exists>T'. engine_ok T' e' w' \<and> e_immutable e' = None \<and> (\<not> e_flushErr e' \<longrightarrow> e_lookup T' e' = e_lookup T e)"
proof -
  obtain e1 w1 where rw: "run_write fl e w = (e1, w1)" by fastforce
  show ?thesis
  proof (cases "length (e_cleaning e) < length (e_cleaning e1)")
    case False
    with rf rw have "e' = e1" "w' = w1" by (simp_all add: runFlush_def)
    with run_write_ok [OF ok fits rw] show ?thesis by simp
  next
    case True
    with rf rw have rc: "run_clean (length (e_cleaning e)) e1 w1 = (e', w')" by (simp add: runFlush_def)
    from run_write_ok [OF ok fits rw] obtain T' where T': "engine_ok T' e1 w1" "e_immutable e1 = None"
      "\<not> e_flushErr e1 \<longrightarrow> e_lookup T' e1 = e_lookup T e" by blast
    note C = run_clean_ok [OF T'(1) rc]
    have "\<not> e_flushErr e' \<longrightarrow> e_lookup T' e' = e_lookup T e" using T'(3) C(2,6) by auto
    with C(1,4) T'(2) show ?thesis by auto
  qed
qed

section \<open>The state relation\<close>

text \<open>The engine stands for the map \<open>M\<close>; after a failed flush (\<open>e_flushErr\<close>) only the invariant is left.\<close>

definition stands_for :: "kv \<Rightarrow> Engine \<Rightarrow> world \<Rightarrow> bool" where
  "stands_for M e w \<longleftrightarrow> (\<exists>T. engine_ok T e w \<and> (\<not> e_flushErr e \<longrightarrow> e_abs T e = M))"

definition ops_fit :: "BatchOp list \<Rightarrow> bool" where
  "ops_fit ops \<longleftrightarrow> (\<forall>b \<in> set ops. go_len (bo_Key b) \<and> go_len (bo_Value b))"

definition write_fits :: "mutation \<Rightarrow> bool" where
  "write_fits x \<longleftrightarrow> go_len (write_key x) \<and> go_len (fst (write_stored x))"

lemma ops_fit_writes: "ops_fit ops \<Longrightarrow> \<forall>x \<in> set (ops_writes seq ops). write_fits x"
  by (induction seq ops rule: ops_writes.induct) (auto simp: ops_fit_def write_fits_def go_len_def)

lemma mem_ok_entries: "mem_ok m \<longleftrightarrow> mt_wf m \<and> (\<forall>x \<in> set (mt_entries m). go_len (fst x) \<and> go_len (fst (snd x)))"
  by (auto simp: mem_ok_def entry_ok_def simp flip: mem_table_entries)

lemma mem_ok_New: "mem_ok (Memtable_New rnd)"
  by (simp add: mem_ok_entries mt_wf_New)

lemma set_upd_sorted_sub: "set (upd_sorted k v ps) \<subseteq> insert (k, v) (set ps)"
  by (induction k v ps rule: upd_sorted.induct) auto

lemma upd_writes_fit:
  assumes "\<forall>x \<in> set ws. write_fits x" "\<forall>x \<in> set es. go_len (fst x) \<and> go_len (fst (snd x))"
  shows "\<forall>x \<in> set (upd_writes ws es). go_len (fst x) \<and> go_len (fst (snd x))"
  using assms
proof (induction ws arbitrary: es)
  case (Cons y ws)
  have "\<forall>x \<in> set (upd_sorted (write_key y) (write_stored y) es). go_len (fst x) \<and> go_len (fst (snd x))"
    using Cons.prems set_upd_sorted_sub [of "write_key y" "write_stored y" es] by (auto simp: write_fits_def)
  then show ?case unfolding upd_writes_Cons using Cons.prems(1) by (intro Cons.IH) simp_all
qed (simp add: upd_writes_def)

lemma mem_ok_writes:
  assumes "mem_ok m" "\<forall>x \<in> set ws. write_fits x"
  shows "\<exists>m'. apply_writes Memtable_Put Memtable_Delete ws m = Some m' \<and> mem_ok m' \<and> mt_entries m' = upd_writes ws (mt_entries m)"
  using mt.writes_return [of m ws] upd_writes_fit [OF assms(2)] assms(1) by (metis mem_ok_entries)

lemma run_clean_stands:
  "stands_for M e w \<Longrightarrow> run_clean i e w = (e', w') \<Longrightarrow> stands_for M e' w'"
  unfolding stands_for_def e_abs_def using run_clean_ok(1,2,6) by metis

lemma run_write_stands:
  assumes "stands_for M e w" "flush_fits fl e w" "run_write fl e w = (e', w')"
  shows "stands_for M e' w'" "e_immutable e' = None"
  using assms run_write_ok [of _ e w fl e' w'] run_write_keeps(8) [of fl e w e' w']
  unfolding stands_for_def e_abs_def by metis+

lemma runFlush_stands:
  assumes "stands_for M e w" "flush_fits fl e w" "runFlush fl e w = (e', w')"
  shows "stands_for M e' w'" "e_immutable e' = None" "e_flushErr e \<Longrightarrow> e_flushErr e'" "e_mem e' = e_mem e" "e_closed e' = e_closed e"
proof -
  show keeps: "e_flushErr e \<Longrightarrow> e_flushErr e'" "e_mem e' = e_mem e" "e_closed e' = e_closed e"
    using assms(3) run_write_keeps run_clean_keeps unfolding runFlush_def
    by (auto split: prod.splits if_splits)
  show "stands_for M e' w'" "e_immutable e' = None"
    using assms runFlush_ok [of _ e w fl e' w'] keeps(1) unfolding stands_for_def e_abs_def by metis+
qed

lemma wait_stands:
  assumes "stands_for M e w" "flush_fits fl e w" "waitForAnyFlushLocked fl e w = (r, e', w')"
  shows "stands_for M e' w'" "e_immutable e' = None" "e_closed e' = e_closed e" "e_mem e' = e_mem e"
    "r \<noteq> None \<longleftrightarrow> e_immutable e \<noteq> None \<and> e_closed e"
  using assms runFlush_stands [of M e w fl] by (auto simp: waitForAnyFlushLocked_def split: if_splits prod.splits)

lemma startFlush_ok:
  assumes ok: "engine_ok T e w" and idle: "e_immutable e = None" and sf: "startFlushLocked rnd e w = (r, e', w')"
  shows "engine_ok T e' w'" "e_lookup T e' = e_lookup T e"
proof -
  let ?p = "wal_name (e_nextWALSeq e)"
  obtain r1 w1 where op: "Open_log ?p True w = (r1, w1)" by fastforce
  note O = Open_log_touches [OF op]
  have w': "w' = w1" using sf op by (auto simp: startFlushLocked_def split: sum.splits)
  have no: "T ?p = None" using ok unfolding engine_ok_def by (metis name_distinct(1) not_None_eq)
  have T1: "tables_in T w1" using ok O(1) no by (auto simp: engine_ok_def intro: tables_in_touches)
  have "engine_ok T e' w' \<and> e_lookup T e' = e_lookup T e"
  proof (cases r1)
    case (Inl x)
    with sf op have "e' = e" by (auto simp: startFlushLocked_def)
    with ok T1 w' show ?thesis by (auto simp: engine_ok_def)
  next
    case (Inr l)
    with sf op have e': "e' = e\<lparr>e_nextWALSeq := e_nextWALSeq e + 1, e_immutable := Some (e_mem e), e_mem := Memtable_New rnd,
        e_w := l, e_nextFlushSeq := e_nextFlushSeq e + 1, e_job := Some (e_mem e, e_w e, e_nextFlushSeq e)\<rparr>"
      by (auto simp: startFlushLocked_def)
    have l: "is_wal l" using O(2) [of l] Inr by (auto simp: is_wal_def)
    have fresh: "T (sst_name (e_nextFlushSeq e)) = None"
      using ok name_inj(2) unfolding engine_ok_def by (metis less_irrefl not_None_eq)
    have "\<exists>i. p = sst_name i \<and> 0 \<le> i \<and> i < e_nextFlushSeq e + 1" if "T p \<noteq> None" for p
      using that ok unfolding engine_ok_def by (metis zless_add1_eq)
    then have "engine_ok T e' w1"
      using ok T1 l fresh by (simp add: e' engine_ok_def job_ok_def mem_ok_New)
    then show ?thesis by (simp add: w' e' e_lookup_def idle fun_eq_iff mt_wf_New)
  qed
  then show "engine_ok T e' w'" "e_lookup T e' = e_lookup T e" by blast+
qed

lemma startFlush_stands:
  assumes st: "stands_for M e w" and idle: "e_immutable e = None" and sf: "startFlushLocked rnd e w = (r, e', w')"
  shows "stands_for M e' w'" "e_flushErr e' = e_flushErr e" "r \<noteq> None \<Longrightarrow> e' = e"
    "r = None \<Longrightarrow> e_immutable e' = Some (e_mem e) \<and> e_closed e' = e_closed e"
proof -
  show "r \<noteq> None \<Longrightarrow> e' = e" "r = None \<Longrightarrow> e_immutable e' = Some (e_mem e) \<and> e_closed e' = e_closed e" and
    fe: "e_flushErr e' = e_flushErr e"
    using sf by (auto simp: startFlushLocked_def split: sum.splits prod.splits)
  show "stands_for M e' w'" using st startFlush_ok [OF _ idle sf] fe unfolding stands_for_def e_abs_def by metis
qed

lemma apply_ops_stands:
  assumes "stands_for M e w" "e_immutable e = None" "ops_fit ops"
  shows "\<exists>mem. apply_ops seq ops (e_mem e) = Some mem \<and> stands_for (kv_apply ops M) (e\<lparr>e_mem := mem\<rparr>) w"
proof -
  obtain T where T: "engine_ok T e w" "\<not> e_flushErr e \<longrightarrow> e_abs T e = M" using assms(1) by (auto simp: stands_for_def)
  obtain mem where m: "apply_ops seq ops (e_mem e) = Some mem" "mem_ok mem"
      "mt_entries mem = upd_writes (ops_writes seq ops) (mt_entries (e_mem e))"
    using mem_ok_writes [OF _ ops_fit_writes [OF assms(3)], of "e_mem e" seq] T(1) unfolding engine_ok_def apply_ops_writes by blast
  have "engine_ok T (e\<lparr>e_mem := mem\<rparr>) w" using T(1) m(2) by (simp add: engine_ok_def)
  moreover have "e_abs T e = (\<lambda>k. live (over (map_of (mt_entries (e_mem e)) k) (tables_layer T (e_sstables e) k)))"
    "e_abs T (e\<lparr>e_mem := mem\<rparr>)
       = (\<lambda>k. live (over (map_of (upd_writes (ops_writes seq ops) (mt_entries (e_mem e))) k) (tables_layer T (e_sstables e) k)))"
    by (simp_all add: fun_eq_iff e_abs_def e_lookup_def assms(2) m(3))
  then have "e_abs T (e\<lparr>e_mem := mem\<rparr>) = kv_apply ops (e_abs T e)" by (simp only: live_batch)
  ultimately show ?thesis using m(1) T(2) by (auto simp: stands_for_def)
qed

text \<open>
  A batch takes effect when it succeeds, and also when the only error is that the next flush could not be
  started; every other error leaves the map as it was.
\<close>

definition applied :: "engine_error option \<Rightarrow> bool" where
  "applied r \<longleftrightarrow> (case r of None \<Rightarrow> True | Some (ErrStartFlush _) \<Rightarrow> True | _ \<Rightarrow> False)"

lemma wait_keeps:
  assumes "waitForAnyFlushLocked fl e w = (r, e', w')"
  shows "e_w e' = e_w e" "r = None \<or> r = Some ErrEngineClosed"
  using assms run_write_keeps run_clean_keeps unfolding waitForAnyFlushLocked_def runFlush_def
  by (auto split: prod.splits if_splits)

lemma AppendBatch_stands:
  assumes "stands_for M e w" "AppendBatch recs (e_w e) w = (r, l, w')"
  shows "stands_for M (e\<lparr>e_nextSeq := q, e_w := l\<rparr>) w'"
proof -
  obtain T where T: "engine_ok T e w" "\<not> e_flushErr e \<longrightarrow> e_abs T e = M" using assms(1) by (auto simp: stands_for_def)
  note A = AppendBatch_touches [OF assms(2)]
  have l: "is_wal (e_w e)" "is_wal l" using T(1) A(1) by (simp_all add: engine_ok_def is_wal_def)
  have "tables_in T w'" using T(1) A(2) wal_not_table [OF T(1) l(1)] by (auto simp: engine_ok_def intro: tables_in_touches)
  then have "engine_ok T (e\<lparr>e_nextSeq := q, e_w := l\<rparr>) w'" using T(1) l(2) by (simp add: engine_ok_def)
  moreover have "e_abs T (e\<lparr>e_nextSeq := q, e_w := l\<rparr>) = e_abs T e" by (simp add: fun_eq_iff e_abs_def e_lookup_def)
  ultimately show ?thesis using T(2) by (auto simp: stands_for_def)
qed

text \<open>What happens to a batch once no flush is running and none has failed.\<close>

definition apply_rest :: "(nat \<Rightarrow> bool) \<Rightarrow> BatchOp list \<Rightarrow> Engine \<Rightarrow> world \<Rightarrow> engine_error option \<times> Engine \<times> world" where
  "apply_rest rnd ops e w =
     (case AppendBatch (batch_records (e_nextSeq e) ops) (e_w e) w of
        (Inl err, l, w) \<Rightarrow> (Some (ErrWalAppend err), e\<lparr>e_nextSeq := e_nextSeq e + word_of_nat (length ops), e_w := l\<rparr>, w)
      | (Inr _, l, w) \<Rightarrow>
          (case apply_ops (e_nextSeq e) ops (e_mem e) of
             None \<Rightarrow> (Some EngineNoReturn, e\<lparr>e_nextSeq := e_nextSeq e + word_of_nat (length ops), e_w := l\<rparr>, w)
           | Some mem \<Rightarrow>
               let e = e\<lparr>e_nextSeq := e_nextSeq e + word_of_nat (length ops), e_w := l, e_mem := mem\<rparr>
               in if eo_MemtableSizeThreshold (e_opts e) \<le> Memtable_ApproxSize mem
                  then (case startFlushLocked rnd e w of
                          (Some err, e, w) \<Rightarrow> (Some (ErrStartFlush err), e, w)
                        | (None, e, w) \<Rightarrow> (None, e, w))
                  else (None, e, w)))"

lemma ApplyBatch_eq:
  "ApplyBatch rnd fl ops e w =
     (case waitForAnyFlushLocked fl e w of
        (Some err, e, w) \<Rightarrow> (Some err, e, w)
      | (None, e, w) \<Rightarrow>
          if e_flushErr e then (Some ErrFlushFailed, e, w)
          else if ops = [] then (None, e, w) else apply_rest rnd ops e w)"
  by (simp add: ApplyBatch_def apply_rest_def Let_def split: prod.split option.split)

lemma apply_rest_stands:
  assumes st: "stands_for M e w" "e_immutable e = None" and fit: "ops_fit ops" and ar: "apply_rest rnd ops e w = (r, e', w')"
  shows "stands_for (if applied r then kv_apply ops M else M) e' w'" "r \<noteq> Some EngineNoReturn"
proof -
  let ?q = "e_nextSeq e + word_of_nat (length ops)"
  obtain r2 l w2 where ap: "AppendBatch (batch_records (e_nextSeq e) ops) (e_w e) w = (r2, l, w2)" by (metis prod_cases3)
  note s2 = AppendBatch_stands [OF st(1) ap, of ?q]
  obtain mem where m: "apply_ops (e_nextSeq e) ops (e_mem e) = Some mem"
      and s3: "stands_for (kv_apply ops M) (e\<lparr>e_nextSeq := ?q, e_w := l, e_mem := mem\<rparr>) w2"
    using apply_ops_stands [OF s2 _ fit, of "e_nextSeq e"] st(2) by auto
  obtain r4 e4 w4 where sf: "startFlushLocked rnd (e\<lparr>e_nextSeq := ?q, e_w := l, e_mem := mem\<rparr>) w2 = (r4, e4, w4)"
    by (metis prod_cases3)
  have s4: "stands_for (kv_apply ops M) e4 w4" by (rule startFlush_stands(1) [OF s3 _ sf]) (simp add: st(2))
  consider (err) err where "(r, e', w') = (Some (ErrWalAppend err), e\<lparr>e_nextSeq := ?q, e_w := l\<rparr>, w2)"
    | (fl) "(r, e', w') = (map_option ErrStartFlush r4, e4, w4)"
    | (ok) "(r, e', w') = (None, e\<lparr>e_nextSeq := ?q, e_w := l, e_mem := mem\<rparr>, w2)"
    using ar ap m sf by (auto simp: apply_rest_def Let_def split: sum.splits if_splits option.splits)
  then have "stands_for (if applied r then kv_apply ops M else M) e' w' \<and> r \<noteq> Some EngineNoReturn"
  proof cases
    case err with s2 show ?thesis by (simp add: applied_def)
  next
    case fl with s4 show ?thesis by (auto simp: applied_def split: option.split)
  next
    case ok with s3 show ?thesis by (simp add: applied_def)
  qed
  then show "stands_for (if applied r then kv_apply ops M else M) e' w'" "r \<noteq> Some EngineNoReturn" by simp_all
qed

lemma ApplyBatch_stands:
  assumes st: "stands_for M e w" and fits: "flush_fits fl e w" "ops_fit ops"
    and ab: "ApplyBatch rnd fl ops e w = (r, e', w')"
  shows "stands_for (if applied r then kv_apply ops M else M) e' w'" "r \<noteq> Some EngineNoReturn"
proof -
  obtain r1 e1 w1 where wt: "waitForAnyFlushLocked fl e w = (r1, e1, w1)" by (metis prod_cases3)
  note k = wait_keeps [OF wt]
  have eq: "(r, e', w') = (if r1 \<noteq> None then (r1, e1, w1) else if e_flushErr e1 then (Some ErrFlushFailed, e1, w1)
      else if ops = [] then (None, e1, w1) else apply_rest rnd ops e1 w1)"
    using ab wt by (cases r1) (auto simp: ApplyBatch_eq)
  have s1: "stands_for M e1 w1" "e_immutable e1 = None" using wait_stands [OF st fits(1) wt] by blast+
  have "stands_for (if applied r then kv_apply ops M else M) e' w' \<and> r \<noteq> Some EngineNoReturn"
  proof (cases "r1 \<noteq> None \<or> e_flushErr e1 \<or> ops = []")
    case True
    with eq k(2) s1(1) show ?thesis by (auto simp: applied_def kv_apply_def split: if_splits)
  next
    case False
    with eq have "apply_rest rnd ops e1 w1 = (r, e', w')" by simp
    from apply_rest_stands [OF s1 fits(2) this] show ?thesis by simp
  qed
  then show "stands_for (if applied r then kv_apply ops M else M) e' w'" "r \<noteq> Some EngineNoReturn" by simp_all
qed

lemma Engine_Flush_stands:
  assumes st: "stands_for M e w" and fits: "flush_fits fl e w"
    "\<And>r1 e1 w1 r2 e2 w2. waitForAnyFlushLocked fl e w = (r1, e1, w1) \<Longrightarrow> startFlushLocked rnd e1 w1 = (r2, e2, w2) \<Longrightarrow> flush_fits fl e2 w2"
    and ef: "Engine_Flush rnd fl e w = (r, e', w')"
  shows "stands_for M e' w'" "r = None \<Longrightarrow> \<not> e_flushErr e' \<and> e_immutable e' = None \<and> Memtable_Len (e_mem e') = 0"
proof -
  obtain r1 e1 w1 where wt: "waitForAnyFlushLocked fl e w = (r1, e1, w1)" by (metis prod_cases3)
  obtain r2 e2 w2 where sf: "startFlushLocked rnd e1 w1 = (r2, e2, w2)" by (metis prod_cases3)
  obtain e3 w3 where rf: "runFlush fl e2 w2 = (e3, w3)" by fastforce
  have s1: "stands_for M e1 w1" "e_immutable e1 = None" using wait_stands [OF st fits(1) wt] by blast+
  have s2: "stands_for M e2 w2" by (rule startFlush_stands(1) [OF s1 sf])
  note s3 = runFlush_stands [OF s2 fits(2) [OF wt sf] rf]
  have m2: "r2 = None \<longrightarrow> e_mem e2 = Memtable_New rnd" using sf by (auto simp: startFlushLocked_def split: sum.splits prod.splits)
  have all: "stands_for M e' w' \<and> (r = None \<longrightarrow> \<not> e_flushErr e' \<and> e_immutable e' = None \<and> Memtable_Len (e_mem e') = 0)"
  proof (cases "e_closed e \<or> r1 \<noteq> None \<or> e_flushErr e1 \<or> Memtable_Len (e_mem e1) = 0")
    case True
    with ef wt st s1 show ?thesis by (cases r1) (auto simp: Engine_Flush_def split: if_splits)
  next
    case False
    with ef wt sf rf s2 s3 m2 show ?thesis
      by (cases r2) (auto simp: Engine_Flush_def Memtable_Len_wf mt_wf_New)
  qed
  then show "stands_for M e' w'" "r = None \<Longrightarrow> \<not> e_flushErr e' \<and> e_immutable e' = None \<and> Memtable_Len (e_mem e') = 0" by auto
qed

end
