(* ===== verification/Engine_Recovery.thy ===== *)
theory Engine_Recovery
  imports Engine_Refine
begin

text \<open>
  Recovery of the storage engine (\<open>Open\<close> of \<open>src/engine/engine.go\<close>). A disk is described by the numbers
  of its tables and logs and by what each of them holds; \<open>Open\<close> on a working disk returns an engine that
  stands for the logs, in the order of their numbers, over the tables, newest first. The invariant
  \<open>durable\<close> says that the files of a running engine are such a description of the map it stands for, and it
  is kept by every operation as long as no flush fails and the logs of finished flushes are removed in the
  order of the flushes.
\<close>

section \<open>Numbered files\<close>

definition on_disk :: "string \<Rightarrow> int \<Rightarrow> world \<Rightarrow> int set" where
  "on_disk ext mv w = {n. mv \<le> n \<and> n < 1000000 \<and> map_of (w_files w) (Sprintf_06d n @ ext) \<noteq> None}"

lemma set_map_filter: "set (List.map_filter f xs) = {y. \<exists>x \<in> set xs. f x = Some y}"
  by (auto simp: List.map_filter_def) force

lemma distinct_filtered:
  "distinct xs \<Longrightarrow> (\<And>x y z. f x = Some z \<Longrightarrow> f y = Some z \<Longrightarrow> x = y) \<Longrightarrow> distinct (List.map_filter f xs)"
  by (induction xs) (auto simp: List.map_filter_simps set_map_filter split: option.split)

lemma numbered_on_disk:
  assumes "0 \<le> mv" "ext \<noteq> []" "\<not> is_digit (hd ext)"
  shows "numbered_files ext mv (remdups (map fst (w_files w))) = sorted_list_of_set (on_disk ext mv w)"
    and "finite (on_disk ext mv w)"
proof -
  let ?ns = "List.map_filter (file_number ext mv) (remdups (map fst (w_files w)))"
  have small: "n < 1000000" if "file_number ext mv x = Some n" for x n
    using that file_number_Some [OF that] file_number_large [of n ext mv] assms(2,3) by force
  have "set ?ns = on_disk ext mv w"
  proof (intro set_eqI iffI)
    fix n
    assume "n \<in> set ?ns"
    then obtain x where "x \<in> fst ` set (w_files w)" "file_number ext mv x = Some n" by (auto simp: set_map_filter)
    with file_number_Some [OF this(2)] small [OF this(2)] show "n \<in> on_disk ext mv w" by (auto simp: on_disk_def map_of_eq_None_iff)
  next
    fix n
    assume n: "n \<in> on_disk ext mv w"
    then have "file_number ext mv (Sprintf_06d n @ ext) = Some n"
      using file_number_name [of n ext mv] assms(1) by (simp add: on_disk_def)
    moreover have "Sprintf_06d n @ ext \<in> fst ` set (w_files w)" using n by (simp add: on_disk_def map_of_eq_None_iff)
    ultimately show "n \<in> set ?ns" unfolding set_map_filter set_remdups set_map by blast
  qed
  then show "finite (on_disk ext mv w)" by (metis List.finite_set)
  have "distinct ?ns" by (rule distinct_filtered) (auto dest: file_number_Some)
  then show "numbered_files ext mv (remdups (map fst (w_files w))) = sorted_list_of_set (on_disk ext mv w)"
    using \<open>set ?ns = on_disk ext mv w\<close> unfolding numbered_files_def by (metis sorted_list_of_set_sort_remdups distinct_remdups_id)
qed

section \<open>Replaying the logs\<close>

text \<open>\<open>replays d recs\<close>: a replay of a file with the bytes \<open>d\<close>, on a working disk, returns \<open>recs\<close>.\<close>

definition replays :: "bytes \<Rightarrow> Record list \<Rightarrow> bool" where
  "replays d recs \<longleftrightarrow> (\<exists>st t. replayFrom (plain_source d) (int (length d)) = (Inr (recs, st), t))"

abbreviation works :: "world \<Rightarrow> bool" where
  "works w \<equiv> w_faults w = (\<lambda>_. Ok)"

lemma Replay_disk:
  assumes "works w" "file_data w p = Some d" "replays d recs"
  shows "\<exists>st w'. Replay p w = (Inr (recs, st), w') \<and> works w' \<and> only_touches p w w' \<and> map_of (w_files w') p \<noteq> None"
proof -
  obtain st t where r: "replayFrom (plain_source d) (int (length d)) = (Inr (recs, st), t)" using assms(3) by (auto simp: replays_def)
  show ?thesis unfolding Replay_faultless [OF assms(1,2) r] using assms(1,2)
    by (auto simp: only_touches_def set_file_def update_conv' file_data_def split: option.split)
qed

definition log_entries :: "Record list \<Rightarrow> (bytes \<times> stored) list" where
  "log_entries recs = upd_writes (map rec_write recs) []"

lemma rec_write_fits: "encodable r \<Longrightarrow> write_fits (rec_write r)"
  by (auto simp: rec_write_def write_fits_def encodable_def go_len_def)

lemma apply_record:
  "apply_wal_record r (m, q) = map_option (\<lambda>m. (m, if q < rec_SeqNum r then rec_SeqNum r else q))
     (apply_writes Memtable_Put Memtable_Delete [rec_write r] m)"
proof -
  have "apply_writes Memtable_Put Memtable_Delete [] = Some" by (rule ext) simp
  then show ?thesis by (simp add: apply_wal_record_def rec_write_def)
qed

lemma apply_records:
  assumes "mem_ok m" "\<forall>r \<in> set recs. encodable r"
  shows "\<exists>m' q'. fold_option apply_wal_record recs (m, q) = Some (m', q') \<and> mem_ok m'
    \<and> mt_entries m' = upd_writes (map rec_write recs) (mt_entries m)"
  using assms
proof (induction recs arbitrary: m q)
  case (Cons r recs)
  obtain m1 where m1: "apply_writes Memtable_Put Memtable_Delete [rec_write r] m = Some m1" "mem_ok m1"
      "mt_entries m1 = upd_writes [rec_write r] (mt_entries m)"
    using mem_ok_writes [OF Cons.prems(1), of "[rec_write r]"] Cons.prems(2) by (auto simp: rec_write_fits)
  from Cons.IH [OF m1(2)] Cons.prems(2) show ?case
    unfolding fold_option.simps apply_record m1(1) using m1(3) by (simp add: upd_writes_def)
qed (simp add: upd_writes_def)

lemma upd_writes_append: "upd_writes (xs @ ys) es = upd_writes ys (upd_writes xs es)"
  by (simp add: upd_writes_def)

lemma only_touches_data: "only_touches p w w' \<Longrightarrow> q \<noteq> p \<Longrightarrow> file_data w' q = file_data w q"
  by (simp add: only_touches_def file_data_def)

lemma replay_wals_disk:
  assumes "works w" "mem_ok m" "distinct ps"
    and "\<forall>p \<in> set ps. \<exists>d. file_data w p = Some d \<and> replays d (L p) \<and> (\<forall>r \<in> set (L p). encodable r)"
  shows "\<exists>m' q' w'. replay_wals ps (m, q) w = (Inr (m', q'), w') \<and> mem_ok m'
    \<and> mt_entries m' = upd_writes (map rec_write (concat (map L ps))) (mt_entries m) \<and> works w'
    \<and> (\<forall>p. p \<notin> set ps \<longrightarrow> map_of (w_files w') p = map_of (w_files w) p) \<and> (\<forall>p \<in> set ps. map_of (w_files w') p \<noteq> None)"
  using assms
proof (induction ps arbitrary: m q w)
  case (Cons p ps)
  obtain d where d: "file_data w p = Some d" "replays d (L p)" "\<forall>r \<in> set (L p). encodable r" using Cons.prems(4) by auto
  obtain st w1 where w1: "Replay p w = (Inr (L p, st), w1)" "works w1" "only_touches p w w1" "map_of (w_files w1) p \<noteq> None"
    using Replay_disk [OF Cons.prems(1) d(1,2)] by blast
  obtain m1 q1 where m1: "fold_option apply_wal_record (L p) (m, q) = Some (m1, q1)" "mem_ok m1"
      "mt_entries m1 = upd_writes (map rec_write (L p)) (mt_entries m)"
    using apply_records [OF Cons.prems(2) d(3)] by blast
  have "\<forall>x \<in> set ps. \<exists>d. file_data w1 x = Some d \<and> replays d (L x) \<and> (\<forall>r \<in> set (L x). encodable r)"
    using Cons.prems(3,4) only_touches_data [OF w1(3)] by (metis distinct.simps(2) list.set_intros(2))
  from Cons.IH [OF w1(2) m1(2) _ this, of q1] Cons.prems(3) obtain m' q' w' where
    R: "replay_wals ps (m1, q1) w1 = (Inr (m', q'), w')" "mem_ok m'"
      "mt_entries m' = upd_writes (map rec_write (concat (map L ps))) (mt_entries m1)" "works w'"
      "\<forall>x. x \<notin> set ps \<longrightarrow> map_of (w_files w') x = map_of (w_files w1) x" "\<forall>x \<in> set ps. map_of (w_files w') x \<noteq> None"
    by auto
  have "replay_wals (p # ps) (m, q) w = (Inr (m', q'), w')" using w1(1) m1(1) R(1) by simp
  moreover have "\<forall>x. x \<notin> set (p # ps) \<longrightarrow> map_of (w_files w') x = map_of (w_files w) x"
    using R(5) w1(3) by (simp add: only_touches_def)
  moreover have "\<forall>x \<in> set (p # ps). map_of (w_files w') x \<noteq> None" using R(5,6) w1(4) by auto
  ultimately show ?case using R(2,3,4) m1(3) by (auto simp: upd_writes_append)
qed (simp add: upd_writes_def)

lemma remove_wals_disk:
  assumes "works w" "distinct ps" "\<forall>p \<in> set ps. map_of (w_files w) p \<noteq> None"
  shows "\<exists>w'. remove_wals ps w = (True, w') \<and> works w' \<and> (\<forall>p. map_of (w_files w') p = (if p \<in> set ps then None else map_of (w_files w) p))"
  using assms
proof (induction ps arbitrary: w)
  case (Cons p ps)
  let ?w = "w\<lparr>w_files := AList.delete p (w_files w)\<rparr>"
  have r: "os_Remove p w = (True, ?w)" using Cons.prems by (simp add: os_Remove_def)
  have "works ?w" "\<forall>x \<in> set ps. map_of (w_files ?w) x \<noteq> None" using Cons.prems by (auto simp: delete_conv')
  from Cons.IH [OF this(1) _ this(2)] Cons.prems(2) r show ?case by (auto simp: delete_conv')
qed simp

definition table_reader :: "tables \<Rightarrow> int \<Rightarrow> sstableEntry" where
  "table_reader T n = (sst_name n, case T (sst_name n) of Some (bf, bs) \<Rightarrow> reader_for (sst_name n) bf bs)"

lemma open_tables_disk:
  assumes "works w" "tables_in T w" "\<forall>n \<in> set ns. T (sst_name n) \<noteq> None"
  shows "\<exists>q'. open_tables ns acc q w = (Inr (acc @ map (table_reader T) ns, q'), w)"
  using assms
proof (induction ns arbitrary: acc q)
  case (Cons n ns)
  obtain bf bs where t: "T (sst_name n) = Some (bf, bs)" using Cons.prems(3) by auto
  then have "file_data w (sst_name n) = Some (table_bytes bf bs)" "valid_table bf bs" using Cons.prems(2) by (auto simp: tables_in_def)
  from OpenWithCache_spec(3) [OF this _ Cons.prems(1)] have "OpenWithCache (sst_name n) w = (Inr (reader_for (sst_name n) bf bs), w)"
    by (metis prod.exhaust)
  moreover have "table_reader T n = (sst_name n, reader_for (sst_name n) bf bs)" by (simp add: table_reader_def t)
  ultimately show ?case
    using Cons.IH [of "acc @ [table_reader T n]" "if q < rd_maxSeq (reader_for (sst_name n) bf bs) then rd_maxSeq (reader_for (sst_name n) bf bs) else q"]
      Cons.prems by simp
qed simp

section \<open>Logging the recovered memtable again\<close>

lemma upd_writes_sorted:
  "sorted_keys (map (\<lambda>x. (write_key x, write_stored x)) ws) \<Longrightarrow> upd_writes ws [] = map (\<lambda>x. (write_key x, write_stored x)) ws"
proof (induction ws rule: rev_induct)
  case (snoc x ws)
  have "upd_sorted (write_key x) (write_stored x) (map (\<lambda>x. (write_key x, write_stored x)) ws @ [])
      = map (\<lambda>x. (write_key x, write_stored x)) ws @ [(write_key x, write_stored x)]"
    using snoc.prems by (intro upd_sorted_split(1)) (auto simp: sorted_keys_append)
  with snoc show ?case by (simp add: upd_writes_append sorted_keys_append) (simp add: upd_writes_def)
qed (simp add: upd_writes_def)

lemma set_upd_writes: "set (upd_writes ws es) \<subseteq> set es \<union> set (map (\<lambda>x. (write_key x, write_stored x)) ws)"
proof (induction ws arbitrary: es)
  case (Cons x ws)
  show ?case unfolding upd_writes_Cons
    using Cons [of "upd_sorted (write_key x) (write_stored x) es"] set_upd_sorted_sub [of "write_key x" "write_stored x" es] by auto
qed (simp add: upd_writes_def)

text \<open>The records that stand for a sorted list of entries.\<close>

definition entry_rec :: "bytes \<times> stored \<Rightarrow> Record" where
  "entry_rec x = (case x of (k, v, q, d) \<Rightarrow>
     \<lparr>rec_SeqNum = q, rec_Type = (if d then RecordDelete else RecordPut), rec_Key = k, rec_Value = v\<rparr>)"

lemma rec_write_entry: "rec_write (entry_rec (write_key y, write_stored y)) = y"
  by (cases y) (simp_all add: entry_rec_def rec_write_def RecordDelete_def RecordPut_def)

lemma encodable_entry: "encodable r \<Longrightarrow> encodable (entry_rec (write_key (rec_write r), write_stored (rec_write r)))"
  by (simp add: entry_rec_def rec_write_def encodable_def)

lemma log_entries_from: "x \<in> set (log_entries recs) \<Longrightarrow> \<exists>r \<in> set recs. x = (write_key (rec_write r), write_stored (rec_write r))"
  using set_upd_writes [of "map rec_write recs" "[]"] by (auto simp: log_entries_def)

lemma log_entries_relogged:
  assumes "sorted_keys (log_entries recs)"
  shows "log_entries (map entry_rec (log_entries recs)) = log_entries recs"
proof -
  have "(write_key (rec_write (entry_rec x)), write_stored (rec_write (entry_rec x))) = x" if "x \<in> set (log_entries recs)" for x
    using log_entries_from [OF that] by (auto simp: rec_write_entry)
  then have "map (\<lambda>x. (write_key (rec_write (entry_rec x)), write_stored (rec_write (entry_rec x)))) (log_entries recs) = log_entries recs"
    by (intro map_idI)
  then show ?thesis
    using assms upd_writes_sorted [of "map rec_write (map entry_rec (log_entries recs))"] by (simp add: log_entries_def comp_def)
qed

lemma entry_rec_encodable:
  assumes "\<forall>r \<in> set recs. encodable r"
  shows "\<forall>r \<in> set (map entry_rec (log_entries recs)). encodable r"
  using assms by (auto simp: encodable_entry dest!: log_entries_from)

lemma iterate_records:
  assumes "mt_wf m"
  shows "\<exists>it. NewIterator m = Some it \<and> map entry_record (iterate (Iterator_SeekToFirst it)) = map entry_rec (mt_entries m)"
  using NewIterator_wf [OF assms]
  by (auto simp: iterate_SeekToFirst mt_entries_def entry_record_def entry_rec_def es_entry_def)

lemma append_records_healthy:
  assumes "healthy (wal_writer l) w" "append_records recs l w = (ok, l', w')"
  shows "ok \<and> healthy (wal_writer l') w'"
  using assms
proof (induction recs l w rule: append_records.induct)
  case (2 r recs l w)
  obtain ok1 b w1 where b: "bufio_Write (encode r) (wal_writer l) w = (ok1, b, w1)" by (metis prod_cases3)
  from bufio_Write_healthy [OF "2.prems"(1) b] have "ok1" "healthy b w1" by simp_all
  with "2.IH" [OF b [symmetric] _ refl] "2.prems"(2) b show ?case by simp
qed simp

lemma AppendBatch_works:
  assumes "clean_log l" "\<not> wal_closed l" "works w"
  shows "\<exists>l' w'. AppendBatch recs l w = (Inr (), l', w') \<and> works w' \<and> clean_log l'"
proof -
  obtain ok l1 w1 where a: "append_records recs l w = (ok, l1, w1)" by (metis prod_cases3)
  obtain ok2 b w2 where f: "bufio_Flush (wal_writer l1) w1 = (ok2, b, w2)" by (metis prod_cases3)
  have h: "healthy (wal_writer l) w" using assms by (simp add: healthy_def clean_log_def)
  note A = append_records_healthy [OF h a]
  note F = bufio_Flush_healthy [OF _ f]
  obtain ok3 w3 where s: "os_Sync (bw_path b) w2 = (ok3, w3)" by fastforce
  have "works w2 \<Longrightarrow> ok3 \<and> works w3" using s by (auto simp: os_Sync_def set_file_def split: option.splits)
  with A F bufio_Flush_ok_empty [of "wal_writer l1" w1 b w2] f s a assms show ?thesis
    by (auto simp: AppendBatch_def healthy_def clean_log_def)
qed

lemma relog_works:
  assumes m: "mt_wf m" "mt_entries m = log_entries recs" "\<forall>r \<in> set recs. encodable r"
    and l: "clean_log l" "\<not> wal_closed l" "wal_syncOnWrite l" "log_file (Path l) w []" and w: "works w"
  shows "\<exists>l' w' recs'. relog m l w = (Inr (), l', w') \<and> works w' \<and> clean_log l' \<and> \<not> wal_closed l' \<and> wal_syncOnWrite l'
    \<and> Path l' = Path l \<and> only_touches (Path l) w w' \<and> log_file (Path l) w' recs' \<and> log_entries recs' = log_entries recs
    \<and> (\<forall>r \<in> set recs'. encodable r)"
proof (cases "Memtable_Len m = 0")
  case True
  then have "log_entries recs = []" using m(1,2) by (simp add: Memtable_Len_wf)
  with True l w show ?thesis by (intro exI [of _ l] exI [of _ w] exI [of _ "[]"]) (auto simp: relog_def log_entries_def upd_writes_def)
next
  case False
  let ?rs = "map entry_rec (mt_entries m)"
  obtain it where it: "NewIterator m = Some it" "map entry_record (iterate (Iterator_SeekToFirst it)) = ?rs"
    using iterate_records [OF m(1)] by blast
  obtain l' w' where a: "AppendBatch ?rs l w = (Inr (), l', w')" "works w'" "clean_log l'" using AppendBatch_works [OF l(1,2) w] by blast
  have enc: "\<forall>r \<in> set ?rs. encodable r" using entry_rec_encodable [OF m(3)] m(2) by simp
  have "log_entries ?rs = log_entries recs"
    using mt_entries_sorted [OF m(1)] m(2) log_entries_relogged by simp
  moreover have "log_file (Path l) w' ?rs" using append_ok [OF a(1) l(1,2,4) enc l(3)] by simp
  moreover have "relog m l w = (Inr (), l', w')" using False it a(1) by (simp add: relog_def)
  ultimately show ?thesis
    using a AppendBatch_touches [OF a(1)] AppendBatch_settings [OF a(1)] l(2,3) enc by blast
qed

section \<open>Opening the engine\<close>

text \<open>
  The disk that \<open>Open\<close> finds: a marker that makes \<open>mv\<close> the first valid number, the tables \<open>T\<close>, and for each
  log \<open>n\<close> the records \<open>L n\<close> that its replay returns.
\<close>

definition first_valid :: "world \<Rightarrow> int option" where
  "first_valid w =
     (case file_data w restoreMarkerFileName of None \<Rightarrow> Some 0 | Some d \<Rightarrow> Atoi (TrimSpace (bytes_string d)))"

definition wal_numbers :: "int \<Rightarrow> world \<Rightarrow> int list" where
  "wal_numbers mv w = sorted_list_of_set (on_disk ''.wal'' mv w)"

definition sst_numbers :: "int \<Rightarrow> world \<Rightarrow> int list" where
  "sst_numbers mv w = sorted_list_of_set (on_disk ''.sst'' mv w)"

definition store_disk :: "int \<Rightarrow> tables \<Rightarrow> (int \<Rightarrow> Record list) \<Rightarrow> world \<Rightarrow> bool" where
  "store_disk mv T L w \<longleftrightarrow>
     0 \<le> mv \<and> first_valid w = Some mv \<and> tables_in T w
     \<and> (mv = 0 \<or> sst_numbers mv w \<noteq> [] \<and> wal_numbers mv w \<noteq> [])
     \<and> file_synced w restoreMarkerFileName = map_option length (file_data w restoreMarkerFileName)
     \<and> (\<forall>p. T p \<noteq> None \<longleftrightarrow> (\<exists>n \<in> on_disk ''.sst'' mv w. p = sst_name n))
     \<and> (\<forall>n \<in> on_disk ''.sst'' mv w. file_synced w (sst_name n) = map_option length (file_data w (sst_name n)))
     \<and> (\<forall>n \<in> on_disk ''.wal'' mv w. (\<exists>d. file_data w (wal_name n) = Some d \<and> replays d (L n)) \<and> (\<forall>r \<in> set (L n). encodable r))"

lemma discover_works:
  assumes "works w" "store_disk mv T L w"
  shows "readRestoreMarker w = (Inr mv, w)"
    "\<exists>q. discoverSSTables mv w = (Inr (map (table_reader T) (rev (sst_numbers mv w)), next_number (sst_numbers mv w), q), w)"
    "discoverWALs mv w = (Inr (map wal_name (wal_numbers mv w), next_number (wal_numbers mv w)), w)"
proof -
  have mv: "0 \<le> mv" "first_valid w = Some mv" using assms(2) by (simp_all add: store_disk_def)
  show "readRestoreMarker w = (Inr mv, w)"
    using assms(1) mv(2) by (auto simp: readRestoreMarker_def first_valid_def split: option.splits)
  have n: "numbered_files ''.sst'' mv (remdups (map fst (w_files w))) = sst_numbers mv w"
    "numbered_files ''.wal'' mv (remdups (map fst (w_files w))) = wal_numbers mv w" "finite (on_disk ''.sst'' mv w)"
    using numbered_on_disk [OF mv(1)] by (simp_all add: sst_numbers_def wal_numbers_def is_digit_def)
  have "\<forall>n \<in> set (rev (sst_numbers mv w)). T (sst_name n) \<noteq> None" using assms(2) n(3) by (auto simp: store_disk_def sst_numbers_def)
  from open_tables_disk [OF assms(1) _ this, of "[]" 0] obtain q where
    "open_tables (rev (sst_numbers mv w)) [] 0 w = (Inr (map (table_reader T) (rev (sst_numbers mv w)), q), w)"
    using assms(2) by (auto simp: store_disk_def)
  then show "\<exists>q. discoverSSTables mv w = (Inr (map (table_reader T) (rev (sst_numbers mv w)), next_number (sst_numbers mv w), q), w)"
    using assms(1) n(1) by (simp add: discoverSSTables_def Let_def)
  show "discoverWALs mv w = (Inr (map wal_name (wal_numbers mv w), next_number (wal_numbers mv w)), w)"
    using assms(1) n(2) by (simp add: discoverWALs_def Let_def)
qed

text \<open>\<open>wal_only w w'\<close>: no file but logs changed.\<close>

definition wal_only :: "world \<Rightarrow> world \<Rightarrow> bool" where
  "wal_only w w' \<longleftrightarrow> (\<forall>q. (\<forall>n. q \<noteq> wal_name n) \<longrightarrow> map_of (w_files w') q = map_of (w_files w) q)"

lemma wal_onlyI: "only_touches (wal_name n) w w' \<Longrightarrow> wal_only w w'"
  by (simp add: wal_only_def only_touches_def)

lemma wal_only_trans: "wal_only w w' \<Longrightarrow> wal_only w' w'' \<Longrightarrow> wal_only w w''"
  by (simp add: wal_only_def)

lemma wal_only_files:
  assumes "wal_only w w'"
  shows "map_of (w_files w') (sst_name n) = map_of (w_files w) (sst_name n)" "first_valid w' = first_valid w"
    "on_disk ''.sst'' mv w' = on_disk ''.sst'' mv w" "map_of (w_files w') restoreMarkerFileName = map_of (w_files w) restoreMarkerFileName"
proof -
  have q: "map_of (w_files w') q = map_of (w_files w) q" if "\<And>n. wal_name n \<noteq> q" for q using assms that by (metis wal_only_def)
  show sst: "map_of (w_files w') (sst_name n) = map_of (w_files w) (sst_name n)" for n by (rule q) simp
  show "map_of (w_files w') restoreMarkerFileName = map_of (w_files w) restoreMarkerFileName" by (rule q) simp
  then show "first_valid w' = first_valid w" by (simp add: first_valid_def file_data_def)
  show "on_disk ''.sst'' mv w' = on_disk ''.sst'' mv w" using sst by (simp add: on_disk_def sst_name_def)
qed

section \<open>The files of a running engine\<close>

text \<open>
  The tables are \<open>ts\<close>, newest first, and the logs are those of finished flushes that still have to be removed
  (\<open>cl\<close>), that of the flush in progress (\<open>jb\<close>) and the current one (\<open>cur\<close>), each with its number and its
  records. All of them are durable, and each says what the memtable or table it stands for holds.
\<close>

type_synonym log = "int \<times> Record list"

definition names_ok :: "int \<Rightarrow> tables \<Rightarrow> int list \<Rightarrow> int list \<Rightarrow> int \<Rightarrow> int \<Rightarrow> world \<Rightarrow> bool" where
  "names_ok mv T ts ns nf nw w \<longleftrightarrow>
     0 \<le> mv \<and> first_valid w = Some mv
     \<and> file_synced w restoreMarkerFileName = map_option length (file_data w restoreMarkerFileName)
     \<and> on_disk ''.sst'' mv w = set ts \<and> sorted_wrt (>) ts \<and> (\<forall>n \<in> set ts. n < nf) \<and> (mv = 0 \<or> ts \<noteq> []) \<and> 0 \<le> nf
     \<and> (\<forall>p. T p \<noteq> None \<longleftrightarrow> (\<exists>n \<in> set ts. p = sst_name n))
     \<and> (\<forall>n \<in> set ts. file_synced w (sst_name n) = map_option length (file_data w (sst_name n)))
     \<and> on_disk ''.wal'' mv w = set ns \<and> sorted_wrt (<) ns \<and> (\<forall>n \<in> set ns. n < nw) \<and> ns \<noteq> []"

definition files_ok :: "int \<Rightarrow> tables \<Rightarrow> int list \<Rightarrow> log list \<Rightarrow> int \<Rightarrow> int \<Rightarrow> world \<Rightarrow> bool" where
  "files_ok mv T ts logs nf nw w \<longleftrightarrow>
     names_ok mv T ts (map fst logs) nf nw w \<and> (\<forall>x \<in> set logs. log_file (wal_name (fst x)) w (snd x))"

definition job_log :: "(Memtable \<times> WAL \<times> int) option \<Rightarrow> log list \<Rightarrow> int list \<Rightarrow> bool" where
  "job_log job jb ts \<longleftrightarrow>
     (case job of None \<Rightarrow> jb = []
      | Some (m, l, n) \<Rightarrow> (\<exists>x. jb = [x] \<and> Path l = wal_name (fst x) \<and> clean_log l \<and> \<not> wal_closed l \<and> mt_entries m = log_entries (snd x))
          \<and> (\<forall>t \<in> set ts. t < n) \<and> n < 1000000)"

definition durable :: "int \<Rightarrow> tables \<Rightarrow> int list \<Rightarrow> log list \<Rightarrow> log list \<Rightarrow> log \<Rightarrow> Engine \<Rightarrow> world \<Rightarrow> bool" where
  "durable mv T ts cl jb cur e w \<longleftrightarrow>
     engine_ok T e w \<and> files_ok mv T ts (cl @ jb @ [cur]) (e_nextFlushSeq e) (e_nextWALSeq e) w
     \<and> map fst (e_sstables e) = map sst_name ts
     \<and> map Path (e_cleaning e) = map (wal_name \<circ> fst) cl
     \<and> (\<forall>l \<in> set (e_cleaning e). clean_log l \<and> \<not> wal_closed l)
     \<and> job_log (e_job e) jb ts
     \<and> Path (e_w e) = wal_name (fst cur) \<and> clean_log (e_w e) \<and> \<not> wal_closed (e_w e) \<and> wal_syncOnWrite (e_w e)
     \<and> mt_entries (e_mem e) = log_entries (snd cur)
     \<and> length cl \<le> length ts
     \<and> (\<forall>i < length cl. \<forall>k. table_lookup T (sst_name (ts ! i)) k = map_of (log_entries (snd (rev cl ! i))) k)"

lemma Open_log_works: "works w \<Longrightarrow> \<exists>l w'. Open_log p sync w = (Inr l, w') \<and> works w'"
  by (auto simp: Open_log_def os_OpenAppend_def set_file_def split: option.split)

lemma next_number_above: "sorted ns \<Longrightarrow> n \<in> set ns \<Longrightarrow> n < next_number ns"
  by (cases ns rule: rev_cases) (auto simp: next_number_def sorted_append)

lemma next_number_nonneg: "\<forall>n \<in> set ns. 0 \<le> n \<Longrightarrow> 0 \<le> next_number ns"
  by (cases ns rule: rev_cases) (auto simp: next_number_def)

lemma numbers_facts:
  assumes "0 \<le> mv"
  shows "set (wal_numbers mv w) = on_disk ''.wal'' mv w" "set (sst_numbers mv w) = on_disk ''.sst'' mv w"
    "sorted (wal_numbers mv w)" "sorted_wrt (<) (sst_numbers mv w)" "distinct (wal_numbers mv w)"
  using numbered_on_disk(2) [OF assms, of "''.wal''" w] numbered_on_disk(2) [OF assms, of "''.sst''" w]
  by (simp_all add: wal_numbers_def sst_numbers_def is_digit_def strict_sorted_list_of_set)

lemma on_disk_wal: "n \<in> on_disk ''.wal'' mv w \<longleftrightarrow> mv \<le> n \<and> n < 1000000 \<and> map_of (w_files w) (wal_name n) \<noteq> None"
  by (simp add: on_disk_def wal_name_def)

lemma on_disk_sst: "n \<in> on_disk ''.sst'' mv w \<longleftrightarrow> mv \<le> n \<and> n < 1000000 \<and> map_of (w_files w) (sst_name n) \<noteq> None"
  by (simp add: on_disk_def sst_name_def)

lemma replay_numbered:
  assumes w: "works w" and inj: "inj_on wal_name (set ws)" and dist: "distinct ws"
    and logs: "\<forall>i \<in> set ws. (\<exists>d. file_data w (wal_name i) = Some d \<and> replays d (L i)) \<and> (\<forall>r \<in> set (L i). encodable r)"
  shows "\<exists>m q w1. replay_wals (map wal_name ws) (Memtable_New rnd, 0) w = (Inr (m, q), w1) \<and> mem_ok m
    \<and> mt_entries m = log_entries (concat (map L ws)) \<and> works w1
    \<and> (\<forall>p. p \<notin> wal_name ` set ws \<longrightarrow> map_of (w_files w1) p = map_of (w_files w) p)
    \<and> (\<forall>p \<in> wal_name ` set ws. map_of (w_files w1) p \<noteq> None)"
proof -
  define Lp where "Lp = L \<circ> the_inv_into (set ws) wal_name"
  have Lp: "Lp (wal_name i) = L i" if "i \<in> set ws" for i using that inj by (simp add: Lp_def the_inv_into_f_f)
  have "\<forall>p \<in> set (map wal_name ws). \<exists>d. file_data w p = Some d \<and> replays d (Lp p) \<and> (\<forall>r \<in> set (Lp p). encodable r)"
    using logs Lp by auto
  moreover have "map Lp (map wal_name ws) = map L ws" using Lp by simp
  ultimately show ?thesis
    using replay_wals_disk [OF w mem_ok_New, of "map wal_name ws" Lp rnd 0] inj dist
    by (simp only: distinct_map list.set_map mt_wf_New log_entries_def simp_thms)
qed

lemma next_above_valid:
  assumes "store_disk mv T L w"
  shows "mv \<le> next_number (wal_numbers mv w)" "mv \<le> next_number (sst_numbers mv w)"
proof -
  have mv: "0 \<le> mv" "mv = 0 \<or> sst_numbers mv w \<noteq> [] \<and> wal_numbers mv w \<noteq> []" using assms by (auto simp: store_disk_def)
  note N = numbers_facts [OF mv(1), of w]
  have "mv \<le> next_number ns" if "\<forall>n \<in> set ns. mv \<le> n" "mv = 0 \<or> ns \<noteq> []" for ns
    using that mv(1) by (cases ns rule: rev_cases) (auto simp: next_number_def)
  with N(1,2) mv(2) show "mv \<le> next_number (wal_numbers mv w)" "mv \<le> next_number (sst_numbers mv w)"
    by (auto simp: on_disk_def)
qed

text \<open>The steps of \<open>open_recover\<close> on a working disk.\<close>

lemma recover_works:
  assumes w: "works w" and disk: "store_disk mv T L w" and small: "next_number (wal_numbers mv w) < 1000000"
  defines "ws \<equiv> wal_numbers mv w" and "n \<equiv> next_number (wal_numbers mv w)"
  obtains m q l l' recs w1 w2 w3 w4 where
    "replay_wals (map wal_name ws) (Memtable_New rnd, 0) w = (Inr (m, q), w1)" "Open_log (wal_name n) True w1 = (Inr l, w2)"
    "relog m l w2 = (Inr (), l', w3)" "remove_wals (map wal_name ws) w3 = (True, w4)"
    "mem_ok m" "mt_entries m = log_entries recs" "log_entries recs = log_entries (concat (map L ws))"
    "works w4" "wal_only w w4" "clean_log l'" "\<not> wal_closed l'" "wal_syncOnWrite l'" "Path l' = wal_name n"
    "log_file (wal_name n) w4 recs" "on_disk ''.wal'' mv w4 = {n}"
proof -
  note above_mv = next_above_valid [OF disk]
  have mv: "0 \<le> mv" "mv \<le> n" using disk above_mv by (simp_all add: store_disk_def n_def)
  note N = numbers_facts [OF mv(1), of w]
  have ws: "set ws = on_disk ''.wal'' mv w" "distinct ws" using N by (simp_all add: ws_def)
  have nonneg: "0 \<le> i" if "i \<in> set ws" for i using that mv(1) by (simp add: ws(1) on_disk_wal)
  have above: "i < n" if "i \<in> set ws" for i using that next_number_above [OF N(3)] by (simp add: ws_def n_def)
  have inj: "inj_on wal_name (set ws)" using name_inj(1) nonneg by (meson inj_onI)
  have fresh: "wal_name n \<notin> wal_name ` set ws" using above name_inj(1) nonneg mv by force
  have none: "map_of (w_files w) (wal_name n) = None" 
  proof (rule ccontr)
    assume "map_of (w_files w) (wal_name n) \<noteq> None"
    then have "n \<in> set ws" using mv small by (simp add: ws(1) on_disk_wal n_def)
    then show False using above by blast
  qed
  have logs: "\<forall>i \<in> set ws. (\<exists>d. file_data w (wal_name i) = Some d \<and> replays d (L i)) \<and> (\<forall>r \<in> set (L i). encodable r)"
    using disk ws(1) by (simp add: store_disk_def)
  obtain m q w1 where
    R: "replay_wals (map wal_name ws) (Memtable_New rnd, 0) w = (Inr (m, q), w1)" "mem_ok m" "mt_entries m = log_entries (concat (map L ws))"
      "works w1" "\<forall>p. p \<notin> wal_name ` set ws \<longrightarrow> map_of (w_files w1) p = map_of (w_files w) p"
      "\<forall>p \<in> wal_name ` set ws. map_of (w_files w1) p \<noteq> None"
    using replay_numbered [OF w inj ws(2) logs] by blast
  have enc: "\<forall>r \<in> set (concat (map L ws)). encodable r" using disk ws(1) by (auto simp: store_disk_def)
  obtain l w2 where O: "Open_log (wal_name n) True w1 = (Inr l, w2)" "works w2" using Open_log_works [OF R(4)] by blast
  have "map_of (w_files w1) (wal_name n) = None" using R(5) fresh none by auto
  note OL = Open_log_files(3-7) [OF O(1)] Open_log_touches(1) [OF O(1)]
  have lf: "log_file (Path l) w2 []" using OL(1,5) \<open>map_of (w_files w1) (wal_name n) = None\<close> by simp
  have "mt_wf m" using R(2) by (simp add: mem_ok_def)
  from relog_works [OF this R(3) enc OL(2,3) _ lf O(2)] OL(4,5) obtain l' w3 recs where
    G: "relog m l w2 = (Inr (), l', w3)" "works w3" "clean_log l'" "\<not> wal_closed l'" "wal_syncOnWrite l'" "Path l' = wal_name n"
      "only_touches (wal_name n) w2 w3" "log_file (wal_name n) w3 recs" "log_entries recs = log_entries (concat (map L ws))"
    by auto
  have "\<forall>p \<in> set (map wal_name ws). map_of (w_files w3) p \<noteq> None"
    using R(6) fresh OL(6) G(7) unfolding only_touches_def by (metis list.set_map)
  from remove_wals_disk [OF G(2) _ this] obtain w4 where
    D: "remove_wals (map wal_name ws) w3 = (True, w4)" "works w4"
      "\<forall>p. map_of (w_files w4) p = (if p \<in> set (map wal_name ws) then None else map_of (w_files w3) p)"
    using inj ws(2) by (auto simp: distinct_map)
  have files: "map_of (w_files w4) p = (if p \<in> wal_name ` set ws then None else map_of (w_files w) p)" if "p \<noteq> wal_name n" for p
    using that D(3) G(7) OL(6) R(5) by (simp add: only_touches_def)
  have "wal_only w w4" using files by (auto simp: wal_only_def)
  moreover have lf4: "log_file (wal_name n) w4 recs" using G(8) D(3) fresh log_file_cong [of w4 "wal_name n" w3] by auto
  moreover have "on_disk ''.wal'' mv w4 = {n}"
  proof (intro set_eqI iffI)
    fix i
    assume i: "i \<in> on_disk ''.wal'' mv w4"
    show "i \<in> {n}"
    proof (rule ccontr)
      assume "i \<notin> {n}"
      then have "wal_name i \<noteq> wal_name n" using name_inj(1) [of i n] i mv by (auto simp: on_disk_wal)
      with files i have "i \<in> set ws" "wal_name i \<notin> wal_name ` set ws" by (auto simp: ws(1) on_disk_wal split: if_splits)
      then show False by blast
    qed
  next
    fix i
    assume "i \<in> {n}"
    with lf4 mv small show "i \<in> on_disk ''.wal'' mv w4" by (auto simp: on_disk_wal log_file_def file_data_def n_def)
  qed
  moreover have "mt_entries m = log_entries recs" using R(3) G(9) by simp
  ultimately show thesis using that R(1,2) O(1) G D(1,2) by blast
qed

lemma Open_works:
  assumes w: "works w" and disk: "store_disk mv T L w" and small: "next_number (wal_numbers mv w) < 1000000"
  shows "\<exists>e w' recs. Open_engine rnd opts w = (Inr e, w') \<and> works w'
    \<and> durable mv T (rev (sst_numbers mv w)) [] [] (next_number (wal_numbers mv w), recs) e w'
    \<and> log_entries recs = log_entries (concat (map L (wal_numbers mv w)))
    \<and> e_opts e = engine_withDefaults opts \<and> \<not> e_closed e \<and> \<not> e_flushErr e
    \<and> e_nextWALSeq e = next_number (wal_numbers mv w) + 1 \<and> e_nextFlushSeq e = next_number (sst_numbers mv w)"
proof -
  let ?ws = "wal_numbers mv w" and ?ss = "sst_numbers mv w" and ?n = "next_number (wal_numbers mv w)" and ?o = "engine_withDefaults opts"
  obtain q0 where dis: "readRestoreMarker w = (Inr mv, w)" "discoverWALs mv w = (Inr (map wal_name ?ws, ?n), w)"
    "discoverSSTables mv w = (Inr (map (table_reader T) (rev ?ss), next_number ?ss, q0), w)"
    using discover_works [OF w disk] by blast
  obtain m q l l' recs w1 w2 w3 w4 where
    R: "replay_wals (map wal_name ?ws) (Memtable_New rnd, 0) w = (Inr (m, q), w1)" "Open_log (wal_name ?n) True w1 = (Inr l, w2)"
      "relog m l w2 = (Inr (), l', w3)" "remove_wals (map wal_name ?ws) w3 = (True, w4)"
    and M: "mem_ok m" "mt_entries m = log_entries recs" "log_entries recs = log_entries (concat (map L ?ws))"
    and W: "works w4" "wal_only w w4" "clean_log l'" "\<not> wal_closed l'" "wal_syncOnWrite l'" "Path l' = wal_name ?n"
      "log_file (wal_name ?n) w4 recs" "on_disk ''.wal'' mv w4 = {?n}"
    by (rule recover_works [OF w disk small])
  obtain seq where o: "Open_engine rnd opts w = (Inr \<lparr>e_opts = ?o, e_w = l', e_mem = m, e_immutable = None, e_job = None,
      e_cleaning = [], e_flushErr = False, e_cache = Some (NewBlockCache (eo_BlockCacheSize ?o)),
      e_sstables = map (table_reader T) (rev ?ss), e_nextSeq = seq, e_nextFlushSeq = next_number ?ss,
      e_nextWALSeq = ?n + 1, e_closed = False\<rparr>, w4)" (is "_ = (Inr ?e, _)")
    using w dis R by (simp add: Open_engine_def open_recover_def os_MkdirAll_def Let_def)
  have mv: "0 \<le> mv" "mv \<le> ?n" "mv \<le> next_number ?ss" "first_valid w = Some mv"
    using disk next_above_valid [OF disk] by (simp_all add: store_disk_def)
  note N = numbers_facts [OF mv(1), of w]
  have T: "(T p \<noteq> None) = (\<exists>n \<in> set ?ss. p = sst_name n)" for p using disk by (simp add: store_disk_def N(2))
  have below: "i < next_number ?ss" "0 \<le> i" if "i \<in> set ?ss" for i
    using that next_number_above N(4) mv(1) by (auto simp: strict_sorted_iff N(2) on_disk_sst)
  note F = wal_only_files [OF W(2)]
  have tin: "tables_in T w4" using disk T F(1) unfolding store_disk_def tables_in_def file_data_def by (metis not_None_eq)
  have "\<forall>(p, r) \<in> set (map (table_reader T) (rev ?ss)). \<exists>bf bs. T p = Some (bf, bs) \<and> r = reader_for p bf bs"
    using T by (auto simp: table_reader_def) (metis (no_types, lifting) T case_prod_conv option.exhaust option.simps(5) surj_pair)
  moreover have "\<exists>i. p = sst_name i \<and> 0 \<le> i \<and> i < next_number ?ss" if "T p \<noteq> None" for p using that T below by blast
  moreover have "0 \<le> next_number ?ss" using mv(1,3) by simp
  ultimately have "engine_ok T ?e w4"
    using M(1) tin W(6) by (simp add: engine_ok_def job_ok_def coherent_new is_wal_def) blast
  moreover have "files_ok mv T (rev ?ss) [(?n, recs)] (next_number ?ss) (?n + 1) w4"
    using mv T F W(7,8) below(1) N(2,4) disk
    by (simp add: files_ok_def names_ok_def sorted_wrt_rev store_disk_def file_data_def file_synced_def) blast
  ultimately have "durable mv T (rev ?ss) [] [] (?n, recs) ?e w4"
    using W(3-6) M(2) by (simp add: durable_def job_log_def table_reader_def comp_def)
  with o W(1) M(3) show ?thesis by auto
qed

section \<open>What is recovered\<close>

lemma log_entries_append:
  "map_of (log_entries (xs @ ys)) k = over (map_of (log_entries ys) k) (map_of (log_entries xs) k)"
  by (simp add: log_entries_def upd_writes_append map_of_upd_writes [of "map rec_write ys"] map_add_def over_def split: option.split)

lemma over_idem: "over a (over a b) = over a b"
  by (cases a) simp_all

text \<open>Logs of finished flushes, replayed again, are hidden in the tables made of them.\<close>

lemma stale_logs_hidden:
  assumes "length cl \<le> length ss"
    and "\<forall>i < length cl. table_lookup T (fst (ss ! i)) k = map_of (log_entries (snd (rev cl ! i))) k"
  shows "over (map_of (log_entries (concat (map snd cl))) k) (tables_layer T ss k) = tables_layer T ss k"
proof -
  have "tables_layer T ss k = over (map_of (log_entries (concat (map snd cl))) k) (tables_layer T (drop (length cl) ss) k)"
    using assms
  proof (induction cl arbitrary: ss rule: rev_induct)
    case Nil
    then show ?case by (simp add: log_entries_def upd_writes_def)
  next
    case (snoc x cl)
    then obtain s ss' where ss: "ss = s # ss'" by (cases ss) auto
    have "\<forall>i < length cl. table_lookup T (fst (ss' ! i)) k = map_of (log_entries (snd (rev cl ! i))) k"
      using snoc.prems(2) ss by force
    moreover have "table_lookup T (fst s) k = map_of (log_entries (snd x)) k" using snoc.prems(2) ss by force
    ultimately show ?case using snoc.IH [of ss'] snoc.prems(1) ss by (simp add: log_entries_append over_assoc)
  qed
  then show ?thesis by (simp add: over_idem)
qed

section \<open>Loss of power\<close>

lemma power_loss_names: "(map_of (w_files (power_loss keep w)) p = None) = (map_of (w_files w) p = None)"
  by (simp add: power_loss_def Let_def map_of_map_kv)

lemma power_loss_data:
  "file_synced w p = map_option length (file_data w p) \<Longrightarrow> file_data (power_loss keep w) p = file_data w p"
  by (cases "map_of (w_files w) p") (auto simp: power_loss_def Let_def map_of_map_kv file_data_def file_synced_def)

lemma on_disk_power_loss [simp]: "on_disk ext mv (power_loss keep w) = on_disk ext mv w"
  by (simp add: on_disk_def power_loss_names)

lemma log_file_replays:
  assumes "log_file p w recs"
  shows "\<exists>d. file_data (power_loss keep w) p = Some d \<and> replays d recs"
  using assms replayFrom_complete [of recs "concat (map encode recs)"] power_loss_data [of w p keep]
  by (auto simp: log_file_def replays_def)

lemma power_loss_store_disk:
  assumes names: "names_ok mv T ts (map fst logs) nf nw w" and T: "tables_in T w"
    and logs: "\<forall>x \<in> set logs. (\<exists>d. file_data (power_loss keep w) (wal_name (fst x)) = Some d \<and> replays d (snd x)) \<and> (\<forall>r \<in> set (snd x). encodable r)"
  shows "store_disk mv T (\<lambda>n. the (map_of logs n)) (power_loss keep w)"
    "rev (sst_numbers mv (power_loss keep w)) = ts" "wal_numbers mv (power_loss keep w) = map fst logs"
    "concat (map (\<lambda>n. the (map_of logs n)) (map fst logs)) = concat (map snd logs)"
proof -
  note D = names [unfolded names_ok_def]
  let ?w = "power_loss keep w"
  have dist: "distinct (map fst logs)" using D strict_sorted_iff by blast
  show num: "rev (sst_numbers mv ?w) = ts" "wal_numbers mv ?w = map fst logs"
  proof -
    have uniq: "sorted_list_of_set (set xs) = xs" if "sorted_wrt (<) xs" for xs :: "int list"
      using that by (simp add: sorted_list_of_set_sort_remdups strict_sorted_iff distinct_remdups_id sorted_sort_id)
    have "sorted_wrt (<) (rev ts)" using D by (simp add: sorted_wrt_rev)
    from uniq [OF this] show "rev (sst_numbers mv ?w) = ts" using D by (simp add: sst_numbers_def)
    show "wal_numbers mv ?w = map fst logs" using D uniq [of "map fst logs"] by (simp add: wal_numbers_def)
  qed
  have of': "the (map_of logs (fst x)) = snd x" if "x \<in> set logs" for x
    using map_of_is_SomeI [OF dist, of "fst x" "snd x"] that by simp
  then show "concat (map (\<lambda>n. the (map_of logs n)) (map fst logs)) = concat (map snd logs)"
    by (metis (no_types, lifting) comp_apply map_eq_conv map_map)
  have data: "file_data ?w (sst_name n) = file_data w (sst_name n)" if "n \<in> set ts" for n
    using that D by (intro power_loss_data) auto
  have "tables_in T ?w" using T D data unfolding tables_in_def by (metis not_None_eq)
  moreover have m: "file_data ?w restoreMarkerFileName = file_data w restoreMarkerFileName" using D by (intro power_loss_data) auto
  then have "first_valid ?w = Some mv" using D by (simp add: first_valid_def)
  ultimately show "store_disk mv T (\<lambda>n. the (map_of logs n)) ?w"
    using D num logs of' by (auto simp: store_disk_def file_synced_power_loss)
qed

end
