(* ===== verification/Engine_Crash.thy ===== *)
theory Engine_Crash
  imports Engine_Recovery
begin

text \<open>
  The storage engine against its specification, a map from keys to values: every operation keeps \<open>durable\<close>
  as long as no flush fails, the engine answers like the map, and after a loss of power at any time \<open>Open\<close>
  brings back the map, with a prefix of the batch that was being written.
\<close>

section \<open>The map and the files\<close>

lemma tables_layer_fst: "map fst ss = map fst ss' \<Longrightarrow> tables_layer T ss k = tables_layer T ss' k"
proof (induction ss arbitrary: ss')
  case (Cons s ss)
  then obtain t tt where "ss' = t # tt" "fst t = fst s" "map fst ss = map fst tt" by (cases ss') auto
  with Cons.IH [of tt] show ?case by simp
qed simp

lemma durable_lookup:
  assumes "durable mv T ts cl jb cur e w"
  shows "e_lookup T e k = over (map_of (log_entries (concat (map snd (jb @ [cur])))) k) (tables_layer T (e_sstables e) k)"
proof (cases "e_job e")
  case None
  with assms show ?thesis by (simp add: durable_def engine_ok_def job_ok_def job_log_def e_lookup_def)
next
  case (Some j)
  obtain m l n where "j = (m, l, n)" by (metis prod_cases3)
  with Some assms show ?thesis
    by (auto simp: durable_def engine_ok_def job_ok_def job_log_def e_lookup_def log_entries_append over_assoc)
qed

lemma durable_cong:
  assumes "map_of (w_files w') = map_of (w_files w)"
  shows "durable mv T ts cl jb cur e w' = durable mv T ts cl jb cur e w"
  by (simp add: durable_def engine_ok_def tables_in_def files_ok_def names_ok_def log_file_def file_data_def
      file_synced_def on_disk_def first_valid_def assms)

text \<open>What \<open>Open\<close> finds after a loss of power, when \<open>extra\<close> is what of an unfinished batch reached the current log.\<close>

lemma reopen:
  assumes d: "durable mv T ts cl jb cur e w" and names: "names_ok mv T ts (map fst (cl @ jb @ [cur])) nf nw w1"
    and T: "tables_in T w1" and old: "\<forall>x \<in> set (cl @ jb). log_file (wal_name (fst x)) w1 (snd x)"
    and cur: "file_data (power_loss keep w1) (wal_name (fst cur)) = Some b" "replays b (snd cur @ extra)"
      "\<forall>r \<in> set (snd cur @ extra). encodable r"
    and small: "fst cur + 1 < 1000000"
  shows "\<exists>e' w' recs. Open_engine rnd opts (power_loss keep w1) = (Inr e', w') \<and> works w'
    \<and> durable mv T ts [] [] (fst cur + 1, recs) e' w' \<and> \<not> e_closed e' \<and> \<not> e_flushErr e'
    \<and> e_opts e' = engine_withDefaults opts \<and> (\<forall>k. e_lookup T e' k = over (map_of (log_entries extra) k) (e_lookup T e k))
    \<and> e_nextWALSeq e' = fst cur + 2 \<and> e_nextFlushSeq e' \<le> nf"
proof -
  let ?logs = "cl @ jb @ [(fst cur, snd cur @ extra)]" and ?w = "power_loss keep w1"
  have names': "names_ok mv T ts (map fst ?logs) nf nw w1" using names by simp
  have "\<forall>x \<in> set ?logs. (\<exists>d. file_data ?w (wal_name (fst x)) = Some d \<and> replays d (snd x)) \<and> (\<forall>r \<in> set (snd x). encodable r)"
    using old cur log_file_replays [of _ w1 _ keep] by (auto simp: log_file_def)
  note P = power_loss_store_disk [OF names' T this]
  have P2: "sst_numbers mv ?w = rev ts" using P(2) by auto
  have n: "next_number (map fst ?logs) = fst cur + 1" by (simp add: next_number_def)
  from Open_works [OF _ P(1), of rnd opts] small obtain e' w' recs where
    O: "Open_engine rnd opts ?w = (Inr e', w')" "works w'" "durable mv T ts [] [] (fst cur + 1, recs) e' w'"
      "log_entries recs = log_entries (concat (map snd ?logs))" "e_opts e' = engine_withDefaults opts" "\<not> e_closed e'" "\<not> e_flushErr e'" "e_nextWALSeq e' = fst cur + 2"
      "e_nextFlushSeq e' = next_number (rev ts)"
    unfolding P(3,4) P2 n by auto
  have "next_number (rev ts) \<le> nf" using names by (cases ts) (auto simp: names_ok_def next_number_def)
  have "e_lookup T e' k = over (map_of (log_entries extra) k) (e_lookup T e k)" for k
  proof -
    have ss: "map fst (e_sstables e) = map sst_name ts" "map fst (e_sstables e') = map sst_name ts"
      using d O(3) by (simp_all add: durable_def)
    then have "length ts = length (e_sstables e)" by (metis length_map)
    moreover from this have "fst (e_sstables e ! i) = sst_name (ts ! i)" if "i < length ts" for i
      using that ss(1) by (metis nth_map)
    ultimately have D: "length cl \<le> length (e_sstables e)"
      "\<forall>i < length cl. table_lookup T (fst (e_sstables e ! i)) k = map_of (log_entries (snd (rev cl ! i))) k"
      using d by (simp_all add: durable_def)
    have "map_of (log_entries recs) k = over (map_of (log_entries extra) k)
        (over (map_of (log_entries (concat (map snd (jb @ [cur])))) k) (map_of (log_entries (concat (map snd cl))) k))"
      unfolding O(4) by (simp add: log_entries_append over_assoc)
    then show ?thesis
      using stale_logs_hidden [OF D] tables_layer_fst [of "e_sstables e'" "e_sstables e" T k] ss
      by (simp add: durable_lookup [OF O(3)] durable_lookup [OF d] over_assoc)
  qed
  with O \<open>next_number (rev ts) \<le> nf\<close> show ?thesis by metis
qed

section \<open>What the steps keep\<close>

lemma names_ok_wal:
  assumes "names_ok mv T ts ns nf nw w" "wal_only w w'" "on_disk ''.wal'' mv w' = set ns'" "sorted_wrt (<) ns'"
    "\<forall>n \<in> set ns'. n < nw'" "ns' \<noteq> []"
  shows "names_ok mv T ts ns' nf nw' w'"
  using assms(1,3-6) by (simp add: names_ok_def wal_only_files [OF assms(2)] file_data_def file_synced_def)

lemma names_ok_nonneg:
  assumes "names_ok mv T ts ns nf nw w"
  shows "n \<in> set ns \<Longrightarrow> 0 \<le> n \<and> n < 1000000" "n \<in> set ts \<Longrightarrow> 0 \<le> n \<and> n < 1000000" "distinct ns"
    "sorted_wrt (<) ns" "n \<in> set ns \<Longrightarrow> mv \<le> n \<and> n < nw" "on_disk ''.wal'' mv w = set ns" "0 \<le> mv"
proof -
  have D: "0 \<le> mv" "on_disk ''.wal'' mv w = set ns" "on_disk ''.sst'' mv w = set ts" "sorted_wrt (<) ns"
    using assms by (simp_all add: names_ok_def)
  show "n \<in> set ns \<Longrightarrow> 0 \<le> n \<and> n < 1000000" "n \<in> set ts \<Longrightarrow> 0 \<le> n \<and> n < 1000000"
    using D(1) by (auto simp: on_disk_def simp flip: D(2,3))
  show "distinct ns" using D(4) by (simp add: strict_sorted_iff)
  show "sorted_wrt (<) ns" "on_disk ''.wal'' mv w = set ns" "0 \<le> mv" by (fact D)+
  show "n \<in> set ns \<Longrightarrow> mv \<le> n \<and> n < nw" using assms by (simp add: names_ok_def on_disk_def set_eq_iff) blast
qed

lemma wal_name_neq: "names_ok mv T ts ns nf nw w \<Longrightarrow> a \<in> set ns \<Longrightarrow> 0 \<le> b \<Longrightarrow> a \<noteq> b \<Longrightarrow> wal_name a \<noteq> wal_name b"
  using names_ok_nonneg(1) name_inj(1) by blast

lemma logs_untouched:
  assumes "names_ok mv T ts (map fst logs) nf nw w" "\<forall>x \<in> set logs. log_file (wal_name (fst x)) w (snd x)"
    "only_touches (wal_name n) w w'" "0 \<le> n" "x \<in> set logs" "fst x \<noteq> n"
  shows "log_file (wal_name (fst x)) w' (snd x)"
proof -
  have "wal_name (fst x) \<noteq> wal_name n" using wal_name_neq [OF assms(1) _ assms(4,6)] assms(5) by simp
  then show ?thesis using assms(2,3,5) log_file_cong [of w' "wal_name (fst x)" w] by (simp add: only_touches_def)
qed

text \<open>The numbers of the logs on disk when one log file is created, written or removed.\<close>

lemma on_disk_touched:
  assumes "only_touches (wal_name n) w w'" "0 \<le> n" "0 \<le> mv"
  shows "on_disk ''.wal'' mv w' =
    (if n \<in> on_disk ''.wal'' mv w' then insert n (on_disk ''.wal'' mv w) else on_disk ''.wal'' mv w - {n})"
proof -
  have "x \<in> on_disk ''.wal'' mv w' \<longleftrightarrow> x \<in> on_disk ''.wal'' mv w" if "x \<noteq> n" for x
  proof (cases "mv \<le> x")
    case True
    with assms(2,3) that have "wal_name x \<noteq> wal_name n" using name_inj(1) [of x n] by simp
    with assms(1) show ?thesis by (simp add: on_disk_wal only_touches_def)
  qed (simp add: on_disk_wal)
  then have "on_disk ''.wal'' mv w' - {n} = on_disk ''.wal'' mv w - {n}" by blast
  then show ?thesis by (simp only: split: if_split) blast
qed

lemma on_disk_log:
  assumes "only_touches (wal_name n) w w'" "0 \<le> mv" "mv \<le> n" "n < 1000000"
  shows "map_of (w_files w') (wal_name n) \<noteq> None \<Longrightarrow> on_disk ''.wal'' mv w' = insert n (on_disk ''.wal'' mv w)"
    "map_of (w_files w') (wal_name n) = None \<Longrightarrow> on_disk ''.wal'' mv w' = on_disk ''.wal'' mv w - {n}"
  using on_disk_touched [OF assms(1) _ assms(2)] assms(2-4) on_disk_wal [of n mv w'] by simp_all

lemma durable_Get:
  assumes "durable mv T ts cl jb cur e w" "Engine_Get k e w = (r, e', w')" "\<not> e_closed e"
  shows "durable mv T ts cl jb cur e' w'" "e_lookup T e' = e_lookup T e"
proof -
  have ok: "engine_ok T e w" using assms(1) by (simp add: durable_def)
  note G = Engine_Get_ok [OF ok assms(2,3)]
  obtain c where c: "e' = e\<lparr>e_cache := c\<rparr>" using G(2) by blast
  have "durable mv T ts cl jb cur e w'" using assms(1) durable_cong [of w' w] G(3) by simp
  with G(1) c show "durable mv T ts cl jb cur e' w'" by (simp add: durable_def)
  show "e_lookup T e' = e_lookup T e" by (simp add: c e_lookup_def fun_eq_iff)
qed

text \<open>A change of the current log only, which stays on disk.\<close>

lemma current_touched:
  assumes d: "durable mv T ts cl jb cur e w" and touch: "only_touches (wal_name (fst cur)) w w'"
    and ex: "file_data w' (wal_name (fst cur)) = Some x"
  shows "names_ok mv T ts (map fst (cl @ jb @ [cur])) (e_nextFlushSeq e) (e_nextWALSeq e) w'"
    "\<forall>x \<in> set (cl @ jb). log_file (wal_name (fst x)) w' (snd x)" "tables_in T w'"
proof -
  note D = d [unfolded durable_def files_ok_def]
  let ?logs = "cl @ jb @ [cur]"
  have N: "names_ok mv T ts (map fst ?logs) (e_nextFlushSeq e) (e_nextWALSeq e) w" using D by blast
  note M = names_ok_nonneg [OF N]
  have "fst x \<noteq> fst cur" if "x \<in> set (cl @ jb)" for x using that M(3) by (auto simp: rev_image_eqI)
  then show "\<forall>x \<in> set (cl @ jb). log_file (wal_name (fst x)) w' (snd x)"
    using logs_untouched [OF N _ touch] D M(1) [of "fst cur"] by simp
  show "names_ok mv T ts (map fst ?logs) (e_nextFlushSeq e) (e_nextWALSeq e) w'"
  proof (rule names_ok_wal [OF N wal_onlyI [OF touch]])
    have "map_of (w_files w') (wal_name (fst cur)) \<noteq> None" using ex by (auto simp: file_data_def)
    then show "on_disk ''.wal'' mv w' = set (map fst ?logs)"
      using on_disk_log(1) [OF touch M(7)] M(1,5) [of "fst cur"] M(6) by (simp add: insert_absorb)
    show "sorted_wrt (<) (map fst ?logs)" by (rule M(4))
    show "\<forall>n \<in> set (map fst ?logs). n < e_nextWALSeq e" using M(5) by blast
  qed simp
  have "is_wal (e_w e)" "Path (e_w e) = wal_name (fst cur)" using D by (auto simp: is_wal_def)
  then show "tables_in T w'" using D touch wal_not_table [of T e w "e_w e"] by (auto simp: engine_ok_def intro: tables_in_touches)
qed

lemma durable_closed_log:
  assumes d: "durable mv T ts cl jb cur e w" and c: "Close_log (e_w e) w = (r, l, w')"
  shows "durable mv T ts cl jb cur e w'"
proof -
  note D = d [unfolded durable_def files_ok_def]
  have touch: "only_touches (wal_name (fst cur)) w w'" using Close_log_touches [OF c] D by simp
  have cur: "log_file (wal_name (fst cur)) w' (snd cur)" using D Close_log_files(2) [OF c] by simp
  then have "\<exists>x. file_data w' (wal_name (fst cur)) = Some x" by (auto simp: log_file_def)
  then obtain x where "file_data w' (wal_name (fst cur)) = Some x" ..
  note F = current_touched [OF d touch this]
  have "engine_ok T e w'" using D F(3) by (simp add: engine_ok_def)
  with D F cur show ?thesis by (auto simp: durable_def files_ok_def)
qed

lemma append_files:
  assumes d: "durable mv T ts cl jb cur e w" and ap: "AppendBatch recs (e_w e) w = (res, l, w')" and recs: "\<forall>r \<in> set recs. encodable r"
  shows "names_ok mv T ts (map fst (cl @ jb @ [cur])) (e_nextFlushSeq e) (e_nextWALSeq e) w'"
    "\<forall>x \<in> set (cl @ jb). log_file (wal_name (fst x)) w' (snd x)" "tables_in T w'"
    "\<exists>x. file_data w' (wal_name (fst cur)) = Some x"
proof -
  note D = d [unfolded durable_def files_ok_def]
  have touch: "only_touches (wal_name (fst cur)) w w'" using AppendBatch_touches(2) [OF ap] D by simp
  show ex: "\<exists>x. file_data w' (wal_name (fst cur)) = Some x" using AppendBatch_file [OF ap _ _ _ recs] D by fastforce
  then obtain x where "file_data w' (wal_name (fst cur)) = Some x" ..
  note F = current_touched [OF d touch this]
  show "names_ok mv T ts (map fst (cl @ jb @ [cur])) (e_nextFlushSeq e) (e_nextWALSeq e) w'"
    "\<forall>x \<in> set (cl @ jb). log_file (wal_name (fst x)) w' (snd x)" "tables_in T w'" by (fact F)+
qed

lemma durable_append:
  assumes d: "durable mv T ts cl jb cur e w" and ap: "AppendBatch recs (e_w e) w = (Inr (), l, w')"
    and recs: "\<forall>r \<in> set recs. encodable r" and m: "mem_ok m" "mt_entries m = upd_writes (map rec_write recs) (mt_entries (e_mem e))"
  shows "durable mv T ts cl jb (fst cur, snd cur @ recs) (e\<lparr>e_nextSeq := q, e_w := l, e_mem := m\<rparr>) w'"
proof -
  note D = d [unfolded durable_def files_ok_def] and A = AppendBatch_settings [OF ap] and F = append_files [OF d ap recs]
  have cur: "log_file (wal_name (fst cur)) w' (snd cur @ recs)"
    using append_ok [OF ap _ _ _ recs] D by auto
  with F(1,2) have "files_ok mv T ts (cl @ jb @ [(fst cur, snd cur @ recs)]) (e_nextFlushSeq e) (e_nextWALSeq e) w'"
    by (auto simp: files_ok_def)
  moreover have "engine_ok T (e\<lparr>e_nextSeq := q, e_w := l, e_mem := m\<rparr>) w'"
    using D F(3) m(1) A(1) by (auto simp: engine_ok_def is_wal_def)
  ultimately show ?thesis using D A m(2) by (simp add: durable_def log_entries_def upd_writes_append)
qed

lemma durable_idle: "durable mv T ts cl jb cur e w \<Longrightarrow> e_immutable e = None \<Longrightarrow> e_job e = None \<and> jb = []"
  by (auto simp: durable_def engine_ok_def job_ok_def job_log_def split: option.splits)

lemma durable_startFlush:
  assumes d: "durable mv T ts cl jb cur e w" and idle: "e_immutable e = None" and sf: "startFlushLocked rnd e w = (r, e', w')"
    and num: "e_nextWALSeq e < 1000000" "e_nextFlushSeq e < 1000000"
  shows "\<exists>jb cur. durable mv T ts cl jb cur e' w'" "e_lookup T e' = e_lookup T e"
proof -
  note D = d [unfolded durable_def files_ok_def]
  have jb: "e_job e = None" "jb = []" using durable_idle [OF d idle] by simp_all
  let ?n = "e_nextWALSeq e" and ?p = "wal_name (e_nextWALSeq e)"
  obtain r1 w1 where op: "Open_log ?p True w = (r1, w1)" by fastforce
  have "(\<exists>jb cur. durable mv T ts cl jb cur e' w') \<and> e_lookup T e' = e_lookup T e"
  proof (cases r1)
    case (Inl x)
    with sf op have e': "e' = e" "w' = w1" by (auto simp: startFlushLocked_def)
    have "map_of (w_files w1) = map_of (w_files w)" using Open_log_failed_files [OF op [unfolded Inl]] by (rule ext)
    then have "durable mv T ts cl jb cur e w1" using d durable_cong by blast
    with e' show ?thesis by blast
  next
    case (Inr l)
    let ?logs = "cl @ [cur] @ [(?n, [])]"
    have e': "e' = e\<lparr>e_nextWALSeq := ?n + 1, e_immutable := Some (e_mem e), e_mem := Memtable_New rnd, e_w := l,
        e_nextFlushSeq := e_nextFlushSeq e + 1, e_job := Some (e_mem e, e_w e, e_nextFlushSeq e)\<rparr>" and w': "w' = w1"
      using sf op Inr by (auto simp: startFlushLocked_def)
    have N: "names_ok mv T ts (map fst (cl @ [cur])) (e_nextFlushSeq e) ?n w" using D jb by simp
    note M = names_ok_nonneg [OF N]
    have below: "fst x < ?n" if "x \<in> set (cl @ [cur])" for x using M(5) [of "fst x"] that by auto
    have mv: "0 \<le> mv" "mv \<le> ?n" "0 \<le> ?n" using M(5) [of "fst cur"] M(7) by simp_all
    have "?n \<notin> on_disk ''.wal'' mv w" unfolding M(6) using M(5) by blast
    then have none: "map_of (w_files w) ?p = None" using mv num(1) by (simp add: on_disk_wal)
    note O = Open_log_files [OF op [unfolded Inr]] Open_log_touches(1) [OF op]
    have new: "log_file ?p w1 []" using O(3) none by blast
    have old: "log_file (wal_name (fst x)) w1 (snd x)" if "x \<in> set (cl @ [cur])" for x
      using that D jb(2) logs_untouched [OF N _ O(8) mv(3) that] below [OF that] by simp
    have "names_ok mv T ts (map fst ?logs) (e_nextFlushSeq e) (?n + 1) w1"
    proof (rule names_ok_wal [OF N wal_onlyI [OF O(8)]])
      show "on_disk ''.wal'' mv w1 = set (map fst ?logs)"
        using on_disk_log(1) [OF O(8) mv(1,2) num(1)] new M(6) by (auto simp: log_file_def file_data_def)
      have ms: "map fst ?logs = map fst (cl @ [cur]) @ [?n]" by simp
      show "sorted_wrt (<) (map fst ?logs)" unfolding ms sorted_wrt_append using M(4,5) by simp
      show "\<forall>n \<in> set (map fst ?logs). n < ?n + 1" 
      proof
        fix n
        assume "n \<in> set (map fst ?logs)"
        then have "n = ?n \<or> n < ?n" unfolding ms using M(5) [of n] by auto
        then show "n < ?n + 1" by linarith
      qed
    qed simp
    then have "files_ok mv T ts ?logs (e_nextFlushSeq e + 1) (?n + 1) w1" using old new by (auto simp: files_ok_def names_ok_def)
    moreover have "engine_ok T e' w'" "e_lookup T e' = e_lookup T e" using startFlush_ok [OF _ idle sf] D by blast+
    ultimately have "durable mv T ts cl [cur] (?n, []) e' w'"
      using D O(4-7) w' N num(2) by (simp add: durable_def e' job_log_def names_ok_def log_entries_def upd_writes_def mt_wf_New)
    with \<open>e_lookup T e' = e_lookup T e\<close> show ?thesis by blast
  qed
  then show "\<exists>jb cur. durable mv T ts cl jb cur e' w'" "e_lookup T e' = e_lookup T e" by blast+
qed

text \<open>A table is written: its number joins those on disk.\<close>

lemma names_ok_table:
  assumes N: "names_ok mv T ts ns nf nw w" and t: "only_touches (sst_name n) w w'" "map_of (w_files w') (sst_name n) \<noteq> None"
      "file_synced w' (sst_name n) = map_option length (file_data w' (sst_name n))"
    and n: "\<forall>t \<in> set ts. t < n" "0 \<le> n" "n < nf" "n < 1000000" and T': "T' = T(sst_name n \<mapsto> tbl)"
  shows "names_ok mv T' (n # ts) ns nf nw w'"
proof -
  note D = N [unfolded names_ok_def]
  have same: "map_of (w_files w') q = map_of (w_files w) q" if "q \<noteq> sst_name n" for q using that t(1) by (simp add: only_touches_def)
  have other: "sst_name i \<noteq> sst_name n" if "i \<in> set ts" for i
    using that n(1,2) names_ok_nonneg(2) [OF N that] name_inj(2) [of i n] by auto
  have mv: "0 \<le> mv" "mv \<le> n"
  proof -
    have sst: "on_disk ''.sst'' mv w = set ts" "mv = 0 \<or> ts \<noteq> []" using D by simp_all
    show "0 \<le> mv" using D by simp
    show "mv \<le> n"
    proof (cases ts)
      case (Cons t tt)
      then have "t \<in> on_disk ''.sst'' mv w" using sst(1) by simp
      with n(1) Cons show ?thesis by (simp add: on_disk_sst)
    qed (use sst n in simp)
  qed
  have "x \<in> on_disk ''.sst'' mv w' \<longleftrightarrow> x = n \<or> x \<in> on_disk ''.sst'' mv w" for x
  proof (cases "x = n \<or> \<not> mv \<le> x")
    case True
    then show ?thesis using t(2) n(4) mv by (auto simp: on_disk_sst)
  next
    case False
    then have "sst_name x \<noteq> sst_name n" using name_inj(2) [of x n] mv n(2) by simp
    with same False show ?thesis by (simp add: on_disk_sst)
  qed
  then have "on_disk ''.sst'' mv w' = set (n # ts)" using D by auto
  moreover have "on_disk ''.wal'' mv w' = on_disk ''.wal'' mv w" using same by (simp add: on_disk_def wal_name_def [symmetric])
  moreover have "map_of (w_files w') restoreMarkerFileName = map_of (w_files w) restoreMarkerFileName"
    by (rule same) (metis name_distinct(4))
  moreover have "file_synced w' (sst_name i) = map_option length (file_data w' (sst_name i))" if "i \<in> set (n # ts)" for i
    using that t(3) same [OF other] D by (auto simp: file_synced_def file_data_def)
  ultimately show ?thesis using D n T' by (simp add: names_ok_def first_valid_def file_data_def file_synced_def)
qed

lemma durable_run_write:
  assumes d: "durable mv T ts cl jb cur e w" and fits: "flush_fits fl e w" and rw: "run_write fl e w = (e', w')" "\<not> e_flushErr e'"
  shows "\<exists>T' ts' cl'. durable mv T' ts' cl' [] cur e' w' \<and> e_lookup T' e' = e_lookup T e"
proof -
  note D = d [unfolded durable_def]
  have ok: "engine_ok T e w" using D by simp
  from ok fits rw(1) show ?thesis
  proof (cases rule: run_write_cases)
    case idle
    then have "jb = []" using D by (simp add: job_log_def)
    with d idle show ?thesis by blast
  next
    case failed
    with rw(2) show ?thesis by simp
  next
    case (installed m l n bf bs)
    let ?T = "T(sst_name n \<mapsto> (bf, bs))" and ?e = "e\<lparr>e_sstables := (sst_name n, reader_for (sst_name n) bf bs) # e_sstables e, e_immutable := None, e_job := None,
            e_cleaning := e_cleaning e @ [l]\<rparr>"
    note E = engine_ok_installed [OF ok installed(1,2) refl installed(3,4)]
    have J: "0 \<le> n" "n < e_nextFlushSeq e" using ok installed(1) by (simp_all add: engine_ok_def job_ok_def)
    obtain x where x: "jb = [x]" "Path l = wal_name (fst x)" "clean_log l" "\<not> wal_closed l" "mt_entries m = log_entries (snd x)"
        "\<forall>t \<in> set ts. t < n" "n < 1000000"
      using D installed(1) by (auto simp: job_log_def)
    have "file_data w' (sst_name n) = Some (table_bytes bf bs)" using installed(3) unfolding tables_in_def by simp
    then have ex: "map_of (w_files w') (sst_name n) \<noteq> None" by (auto simp: file_data_def)
    have N: "names_ok mv T ts (map fst (cl @ jb @ [cur])) (e_nextFlushSeq e) (e_nextWALSeq e) w"
      and L: "\<forall>y \<in> set (cl @ jb @ [cur]). log_file (wal_name (fst y)) w (snd y)" using D by (simp_all add: files_ok_def)
    have "names_ok mv ?T (n # ts) (map fst (cl @ jb @ [cur])) (e_nextFlushSeq e) (e_nextWALSeq e) w'"
      by (rule names_ok_table [OF N installed(5) ex installed(6) x(6) J x(7) refl])
    moreover have "\<forall>y \<in> set (cl @ jb @ [cur]). log_file (wal_name (fst y)) w' (snd y)"
      using L installed(5) log_file_cong [of w' _ w] by (simp add: only_touches_def)
    ultimately have F: "files_ok mv ?T (n # ts) ((cl @ jb) @ [] @ [cur]) (e_nextFlushSeq e) (e_nextWALSeq e) w'"
      by (simp add: files_ok_def)
    have look: "table_lookup ?T (sst_name (ts ! i)) k = table_lookup T (sst_name (ts ! i)) k" if "i < length ts" for i k
    proof -
      have "T (sst_name (ts ! i)) \<noteq> None" using N that by (auto simp: names_ok_def)
      from E(4) [OF this] show ?thesis by (simp add: table_lookup_def)
    qed
    have "table_lookup ?T (sst_name ((n # ts) ! i)) k = map_of (log_entries (snd (rev (cl @ jb) ! i))) k" if "i < length (cl @ jb)" for i k
      using that x(1,5) D E(3) look by (cases i) auto
    then have "durable mv ?T (n # ts) (cl @ jb) [] cur ?e w'"
      using E(1) F D x(1-4) installed(4) by (simp add: durable_def job_log_def)
    with installed(4) E(2) show ?thesis by blast
  qed
qed

text \<open>The oldest log of a finished flush is removed.\<close>

lemma durable_run_clean:
  assumes d: "durable mv T ts cl jb cur e w" and rc: "run_clean 0 e w = (e', w')" "\<not> e_flushErr e'"
  shows "\<exists>cl'. durable mv T ts cl' jb cur e' w'" "e_lookup T e' = e_lookup T e"
proof -
  note D = d [unfolded durable_def]
  have ok: "engine_ok T e w" using D by simp
  show "e_lookup T e' = e_lookup T e" by (rule run_clean_ok(2) [OF ok rc(1)])
  show "\<exists>cl'. durable mv T ts cl' jb cur e' w'"
  proof (cases "e_cleaning e")
    case Nil
    with rc d show ?thesis by (auto simp: run_clean_def)
  next
    case (Cons l ls)
    obtain x cl' where cl: "cl = x # cl'" "Path l = wal_name (fst x)" using D Cons by (cases cl) auto
    obtain r1 l1 w1 where c: "Close_log l w = (r1, l1, w1)" by (metis prod_cases3)
    obtain ok2 where r: "os_Remove (Path l) w1 = (ok2, w')" and ok2: ok2 and e': "e' = e\<lparr>e_cleaning := ls\<rparr>"
      using rc c Cons by (auto simp: run_clean_def Let_def split: sum.splits prod.splits bool.splits)
    have gone: "map_of (w_files w') (wal_name (fst x)) = None"
      using r ok2 cl(2) by (auto simp: os_Remove_def delete_conv' split: prod.splits outcome.splits)
    have touch: "only_touches (wal_name (fst x)) w w'" using run_clean_touches [OF rc(1)] Cons cl(2) by simp
    have N: "names_ok mv T ts (map fst (cl @ jb @ [cur])) (e_nextFlushSeq e) (e_nextWALSeq e) w"
      and L: "\<forall>y \<in> set (cl @ jb @ [cur]). log_file (wal_name (fst y)) w (snd y)" using D by (simp_all add: files_ok_def)
    note M = names_ok_nonneg [OF N]
    have x: "0 \<le> fst x" "mv \<le> fst x" "fst x < 1000000" using M(1,5) [of "fst x"] cl(1) by simp_all
    let ?logs = "cl' @ jb @ [cur]"
    have neq: "fst y \<noteq> fst x" if "y \<in> set ?logs" for y using that M(3) cl(1) by (auto simp: rev_image_eqI)
    have "names_ok mv T ts (map fst ?logs) (e_nextFlushSeq e) (e_nextWALSeq e) w'"
    proof (rule names_ok_wal [OF N wal_onlyI [OF touch]])
      have "fst x \<notin> set (map fst ?logs)" using M(3) cl(1) by simp
      then show "on_disk ''.wal'' mv w' = set (map fst ?logs)"
        using on_disk_log(2) [OF touch M(7) x(2,3) gone] M(6) cl(1) by simp
      show "sorted_wrt (<) (map fst ?logs)" using M(4) cl(1) by simp
      show "\<forall>n \<in> set (map fst ?logs). n < e_nextWALSeq e" using M(5) cl(1) by simp
    qed simp
    moreover have "\<forall>y \<in> set ?logs. log_file (wal_name (fst y)) w' (snd y)"
      using logs_untouched [OF N L touch x(1)] neq cl(1) by simp
    ultimately have F: "files_ok mv T ts ?logs (e_nextFlushSeq e) (e_nextWALSeq e) w'" by (simp add: files_ok_def)
    have "\<forall>i < length cl'. \<forall>k. table_lookup T (sst_name (ts ! i)) k = map_of (log_entries (snd (rev cl' ! i))) k"
      using D cl(1) by (auto simp: nth_append)
    then have "durable mv T ts cl' jb cur e' w'"
      using F run_clean_ok(1) [OF ok rc(1)] D cl Cons by (simp add: durable_def e')
    then show ?thesis by blast
  qed
qed

section \<open>Whole operations\<close>

text \<open>The files and the memory of the engine stand for the map \<open>M\<close>.\<close>

definition holds_map :: "kv \<Rightarrow> Engine \<Rightarrow> world \<Rightarrow> bool" where
  "holds_map M e w \<longleftrightarrow> (\<exists>mv T ts cl jb cur. durable mv T ts cl jb cur e w \<and> e_abs T e = M)"

lemma holds_mapI: "durable mv T ts cl jb cur e w \<Longrightarrow> e_abs T e = M \<Longrightarrow> holds_map M e w"
  unfolding holds_map_def by blast

lemma durable_runFlush:
  assumes d: "durable mv T ts cl jb cur e w" and fits: "flush_fits fl e w" and rf: "runFlush fl e w = (e', w')" "\<not> e_flushErr e'"
    and order: "e_immutable e = None \<or> e_cleaning e = []"
  shows "\<exists>T' ts' cl'. durable mv T' ts' cl' [] cur e' w' \<and> e_lookup T' e' = e_lookup T e"
proof -
  obtain e1 w1 where rw: "run_write fl e w = (e1, w1)" by fastforce
  show ?thesis
  proof (cases "length (e_cleaning e) < length (e_cleaning e1)")
    case False
    with rf rw have "e' = e1" "w' = w1" by (simp_all add: runFlush_def)
    with durable_run_write [OF d fits rw] rf(2) show ?thesis by simp
  next
    case True
    have "e_cleaning e = []"
    proof (rule ccontr)
      assume "e_cleaning e \<noteq> []"
      with order durable_idle [OF d] have "e_job e = None" by blast
      with rw True show False by (simp add: run_write_def)
    qed
    with True rf rw have rc: "run_clean 0 e1 w1 = (e', w')" by (simp add: runFlush_def)
    then have "\<not> e_flushErr e1" using rf(2) run_clean_keeps(8) by blast
    from durable_run_write [OF d fits rw this] obtain T' ts' cl' where
      T': "durable mv T' ts' cl' [] cur e1 w1" "e_lookup T' e1 = e_lookup T e" by blast
    from durable_run_clean [OF T'(1) rc rf(2)] T'(2) show ?thesis by metis
  qed
qed

lemma holds_runFlush:
  assumes "holds_map M e w" "flush_fits fl e w" "runFlush fl e w = (e', w')" "\<not> e_flushErr e'"
    "e_immutable e = None \<or> e_cleaning e = []"
  shows "holds_map M e' w'" "e_immutable e' = None"
proof -
  obtain mv T ts cl jb cur where d: "durable mv T ts cl jb cur e w" "e_abs T e = M" using assms(1) by (auto simp: holds_map_def)
  from durable_runFlush [OF d(1) assms(2-5)] obtain T' ts' cl' where
    d': "durable mv T' ts' cl' [] cur e' w'" "e_lookup T' e' = e_lookup T e" by blast
  then have "e_abs T' e' = M" using d(2) unfolding e_abs_def by metis
  with d'(1) show "holds_map M e' w'" by (rule holds_mapI)
  from d'(1) show "e_immutable e' = None"
    by (auto simp: durable_def engine_ok_def job_ok_def job_log_def split: option.splits)
qed

lemma holds_wait:
  assumes "holds_map M e w" "flush_fits fl e w" "waitForAnyFlushLocked fl e w = (r, e', w')" "\<not> e_flushErr e'"
    "e_immutable e = None \<or> e_cleaning e = []"
  shows "holds_map M e' w'" "e_immutable e' = None"
  using assms holds_runFlush [of M e w fl e' w'] by (auto simp: waitForAnyFlushLocked_def split: if_splits prod.splits)

definition ops_encodable :: "BatchOp list \<Rightarrow> bool" where
  "ops_encodable ops \<longleftrightarrow> (\<forall>b \<in> set ops. 17 + length (bo_Key b) + length (bo_Value b) < 2 ^ 32)"

lemma ops_encodable_records: "ops_encodable ops \<Longrightarrow> \<forall>r \<in> set (batch_records seq ops). encodable r"
  by (induction seq ops rule: batch_records.induct) (auto simp: ops_encodable_def encodable_def)

lemma ops_encodable_fit: "ops_encodable ops \<Longrightarrow> ops_fit ops"
  by (auto simp: ops_encodable_def ops_fit_def go_len_def)

lemma take_batch_records: "take j (batch_records seq ops) = batch_records seq (take j ops)"
proof (induction seq ops arbitrary: j rule: batch_records.induct)
  case (2 seq b bs)
  then show ?case by (cases j) simp_all
qed simp

text \<open>What the log says of a batch is the batch.\<close>

lemma live_log:
  assumes "\<And>k. g k = over (map_of (log_entries (batch_records seq ops)) k) (f k)"
  shows "(\<lambda>k. live (g k)) = kv_apply ops (\<lambda>k. live (f k))"
  using live_batch [of seq ops "[]" f] by (simp add: assms log_entries_def batch_records_writes)

text \<open>Numbers that still fit the six digits of a file name; a flush takes one of each kind.\<close>

definition numbers_left :: "Engine \<Rightarrow> bool" where
  "numbers_left e \<longleftrightarrow> e_nextWALSeq e < 1000000 \<and> e_nextFlushSeq e < 1000000"

lemma holds_startFlush:
  assumes "holds_map M e w" "e_immutable e = None" "startFlushLocked rnd e w = (r, e', w')" "numbers_left e"
  shows "holds_map M e' w'"
proof -
  obtain mv T ts cl jb cur where d: "durable mv T ts cl jb cur e w" "e_abs T e = M" using assms(1) by (auto simp: holds_map_def)
  note S = durable_startFlush [OF d(1) assms(2,3)]
  obtain jb' cur' where "durable mv T ts cl jb' cur' e' w'" using S(1) assms(4) unfolding numbers_left_def by blast
  moreover have "e_abs T e' = M" using S(2) assms(4) d(2) unfolding numbers_left_def e_abs_def by metis
  ultimately show ?thesis by (rule holds_mapI)
qed

lemma durable_batch:
  assumes d: "durable mv T ts cl jb cur e w" and ops: "ops_encodable ops"
    and ap: "AppendBatch (batch_records (e_nextSeq e) ops) (e_w e) w = (Inr (), l, w')"
  shows "\<exists>mem cur'. apply_ops (e_nextSeq e) ops (e_mem e) = Some mem
    \<and> durable mv T ts cl jb cur' (e\<lparr>e_nextSeq := q, e_w := l, e_mem := mem\<rparr>) w'"
proof -
  have "mem_ok (e_mem e)" using d by (simp add: durable_def engine_ok_def)
  from mem_ok_writes [OF this ops_fit_writes [OF ops_encodable_fit [OF ops]], of "e_nextSeq e"] obtain mem where
    m: "apply_ops (e_nextSeq e) ops (e_mem e) = Some mem" "mem_ok mem"
      "mt_entries mem = upd_writes (map rec_write (batch_records (e_nextSeq e) ops)) (mt_entries (e_mem e))"
    unfolding apply_ops_writes batch_records_writes by blast
  from durable_append [OF d ap ops_encodable_records [OF ops] m(2,3)] m(1) show ?thesis by blast
qed

lemma holds_apply_rest:
  assumes h: "holds_map M e w" "e_immutable e = None" "ops_encodable ops" "numbers_left e"
    and ar: "apply_rest rnd ops e w = (r, e', w')" "\<nexists>err. r = Some (ErrWalAppend err)"
  shows "applied r" "holds_map (kv_apply ops M) e' w'"
proof -
  obtain mv T ts cl jb cur where d: "durable mv T ts cl jb cur e w" "e_abs T e = M" using h(1) by (auto simp: holds_map_def)
  let ?q = "e_nextSeq e + word_of_nat (length ops)"
  obtain r2 l w2 where ap: "AppendBatch (batch_records (e_nextSeq e) ops) (e_w e) w = (r2, l, w2)" by (metis prod_cases3)
  have r2: "r2 = Inr ()" using ar ap by (cases r2) (auto simp: apply_rest_def)
  obtain mem cur' where m: "apply_ops (e_nextSeq e) ops (e_mem e) = Some mem"
      and d': "durable mv T ts cl jb cur' (e\<lparr>e_nextSeq := ?q, e_w := l, e_mem := mem\<rparr>) w2"
    using durable_batch [OF d(1) h(3) ap [unfolded r2], of ?q] by blast
  let ?e = "e\<lparr>e_nextSeq := ?q, e_w := l, e_mem := mem\<rparr>"
  have "e_abs T ?e = kv_apply ops (e_abs T e)"
  proof -
    have "mem_ok (e_mem e)" using d(1) by (simp add: durable_def engine_ok_def)
    then have "mt_entries mem = upd_writes (ops_writes (e_nextSeq e) ops) (mt_entries (e_mem e))"
      using apply_ops_wf [of "e_mem e" "e_nextSeq e" ops] m by (simp add: mem_ok_def)
    then show ?thesis
      using live_batch [of "e_nextSeq e" ops "mt_entries (e_mem e)" "tables_layer T (e_sstables e)"] h(2)
      unfolding e_abs_def e_lookup_def by simp
  qed
  with d(2) have h2: "holds_map (kv_apply ops M) ?e w2" using holds_mapI [OF d'] by simp
  obtain r4 e4 w4 where sf: "startFlushLocked rnd ?e w2 = (r4, e4, w4)" by (metis prod_cases3)
  have h4: "holds_map (kv_apply ops M) e4 w4" by (rule holds_startFlush [OF h2 _ sf]) (use h(2,4) in \<open>simp_all add: numbers_left_def\<close>)
  have "(r, e', w') = (None, ?e, w2) \<or> (r, e', w') = (map_option ErrStartFlush r4, e4, w4)"
    using ar(1) ap m sf r2 by (cases r4) (auto simp: apply_rest_def Let_def split: if_splits)
  then consider "r = None" "e' = ?e" "w' = w2" | "r = map_option ErrStartFlush r4" "e' = e4" "w' = w4" by blast
  then show "applied r" "holds_map (kv_apply ops M) e' w'" using h2 h4 by (cases; simp add: applied_def split: option.split)+
qed

section \<open>Crashes\<close>

lemma durable_number: "durable mv T ts cl jb cur e w \<Longrightarrow> fst cur < e_nextWALSeq e"
  by (simp add: durable_def files_ok_def names_ok_def)

lemma crash_idle:
  assumes h: "holds_map M e w" and small: "e_nextWALSeq e < 1000000"
  shows "\<exists>e' w'. Open_engine rnd opts (power_loss keep w) = (Inr e', w') \<and> works w' \<and> holds_map M e' w'
    \<and> \<not> e_closed e' \<and> \<not> e_flushErr e' \<and> e_opts e' = engine_withDefaults opts
    \<and> e_immutable e' = None \<and> e_nextWALSeq e' \<le> e_nextWALSeq e + 1 \<and> e_nextFlushSeq e' \<le> e_nextFlushSeq e"
proof -
  obtain mv T ts cl jb cur where d: "durable mv T ts cl jb cur e w" "e_abs T e = M" using h by (auto simp: holds_map_def)
  note D = d(1) [unfolded durable_def files_ok_def]
  have N: "names_ok mv T ts (map fst (cl @ jb @ [cur])) (e_nextFlushSeq e) (e_nextWALSeq e) w"
    and L: "\<forall>x \<in> set (cl @ jb). log_file (wal_name (fst x)) w (snd x)" and T: "tables_in T w" using D by (auto simp: engine_ok_def)
  have cur: "log_file (wal_name (fst cur)) w (snd cur)" using D by simp
  obtain b where b: "file_data (power_loss keep w) (wal_name (fst cur)) = Some b" "replays b (snd cur @ [])"
    using log_file_replays [OF cur, of keep] by auto
  have enc: "\<forall>r \<in> set (snd cur @ []). encodable r" using cur by (simp add: log_file_def)
  from reopen [OF d(1) N T L b enc, of rnd opts] durable_number [OF d(1)] small obtain e' w' recs where
    R: "Open_engine rnd opts (power_loss keep w) = (Inr e', w')" "works w'" "durable mv T ts [] [] (fst cur + 1, recs) e' w'"
      "\<not> e_closed e'" "\<not> e_flushErr e'" "e_opts e' = engine_withDefaults opts"
      "\<forall>k. e_lookup T e' k = over (map_of (log_entries []) k) (e_lookup T e k)" "e_nextWALSeq e' = fst cur + 2" "e_nextFlushSeq e' \<le> e_nextFlushSeq e"
    by auto
  then have "e_abs T e' = M" using d(2) by (simp add: e_abs_def fun_eq_iff log_entries_def upd_writes_def)
  moreover have "e_immutable e' = None" using R(3) by (auto simp: durable_def job_log_def engine_ok_def job_ok_def split: option.splits)
  moreover have "e_nextWALSeq e' \<le> e_nextWALSeq e + 1" using R(8) durable_number [OF d(1)] by simp
  ultimately show ?thesis using holds_mapI [OF R(3)] R by blast
qed

lemma recovers_replays:
  assumes "recovers p w recs" "works w" "file_data w p = Some b"
  shows "replays b recs"
proof -
  obtain res t where r: "replayFrom (plain_source b) (int (length b)) = (res, t)" by fastforce
  from Replay_faultless [OF assms(2,3) r] assms(1) have "\<exists>st. res = Inr (recs, st)" by (auto simp: recovers_def)
  with r show ?thesis by (auto simp: replays_def)
qed

lemma crash_append:
  assumes h: "holds_map M e w" and small: "e_nextWALSeq e < 1000000" and ops: "ops_encodable ops"
    and ap: "AppendBatch (batch_records (e_nextSeq e) ops) (e_w e) w = (res, l, w1)"
  shows "\<exists>j \<le> length ops. \<exists>e' w'. Open_engine rnd opts (power_loss keep w1) = (Inr e', w') \<and> works w'
    \<and> holds_map (kv_apply (take j ops) M) e' w' \<and> \<not> e_closed e' \<and> \<not> e_flushErr e' \<and> e_opts e' = engine_withDefaults opts"
proof -
  obtain mv T ts cl jb cur where d: "durable mv T ts cl jb cur e w" "e_abs T e = M" using h by (auto simp: holds_map_def)
  note D = d(1) [unfolded durable_def files_ok_def]
  let ?recs = "batch_records (e_nextSeq e) ops"
  have enc: "\<forall>r \<in> set ?recs. encodable r" by (rule ops_encodable_records [OF ops])
  note F = append_files [OF d(1) ap enc]
  have cur: "log_file (Path (e_w e)) w (snd cur)" and p: "Path (e_w e) = wal_name (fst cur)" using D by simp_all
  obtain j where j: "j \<le> length ?recs" "recovers (wal_name (fst cur)) (power_loss keep w1) (snd cur @ take j ?recs)"
    using append_recovers [OF ap _ _ cur enc, of keep] D by auto
  obtain b where b: "file_data (power_loss keep w1) (wal_name (fst cur)) = Some b"
    using F(4) power_loss_names [of keep w1 "wal_name (fst cur)"] by (auto simp: file_data_def)
  have len: "length (batch_records seq bs) = length bs" for seq bs by (induction seq bs rule: batch_records.induct) simp_all
  have enc': "\<forall>r \<in> set (snd cur @ take j ?recs). encodable r" using enc cur by (auto simp: log_file_def dest: in_set_takeD)
  from reopen [OF d(1) F(1,3,2) b recovers_replays [OF j(2) _ b] enc', of rnd opts] durable_number [OF d(1)] small
  obtain e' w' recs where
    R: "Open_engine rnd opts (power_loss keep w1) = (Inr e', w')" "works w'" "durable mv T ts [] [] (fst cur + 1, recs) e' w'"
      "\<not> e_closed e'" "\<not> e_flushErr e'" "e_opts e' = engine_withDefaults opts"
      "\<And>k. e_lookup T e' k = over (map_of (log_entries (take j ?recs)) k) (e_lookup T e k)"
    by auto
  have "e_abs T e' = kv_apply (take j ops) M"
    using live_log [OF R(7) [unfolded take_batch_records]] d(2) unfolding e_abs_def by simp
  from holds_mapI [OF R(3) this] R j(1) len show ?thesis by auto
qed

end
