(* ===== verification/Engine_System.thy ===== *)
theory Engine_System
  imports Engine_Crash
begin

text \<open>
  The storage engine as a system of labelled steps: batches, lookups, flushes, the two steps of the flush
  goroutine, clean restarts, and losses of power with the reopening that follows. The specification has the
  same labels over a map. A forward simulation shows that every run of the engine is a run of the map; the
  section on progress shows that on a working disk no call fails.
\<close>

section \<open>Runs and simulations\<close>

inductive trace :: "('s \<Rightarrow> 'e \<Rightarrow> 's \<Rightarrow> bool) \<Rightarrow> 's \<Rightarrow> 'e list \<Rightarrow> 's \<Rightarrow> bool" for R s where
  trace_nil [intro]: "trace R s [] s"
| trace_snoc [intro]: "trace R s evs s' \<Longrightarrow> R s' ev s'' \<Longrightarrow> trace R s (evs @ [ev]) s''"

lemma trace_single: "R s ev s' \<Longrightarrow> trace R s [ev] s'"
  using trace_snoc [OF trace_nil, of R s ev s'] by simp

locale forward_simulation =
  fixes conc :: "'c \<Rightarrow> 'e \<Rightarrow> 'c \<Rightarrow> bool" and abst :: "'a \<Rightarrow> 'e \<Rightarrow> 'a \<Rightarrow> bool" and rel :: "'a \<Rightarrow> 'c \<Rightarrow> bool"
  assumes simulates: "rel a c \<Longrightarrow> conc c ev c' \<Longrightarrow> \<exists>a'. abst a ev a' \<and> rel a' c'"
begin

lemma trace_inclusion: "trace conc c evs c' \<Longrightarrow> rel a c \<Longrightarrow> \<exists>a'. trace abst a evs a' \<and> rel a' c'"
proof (induction rule: trace.induct)
  case (trace_snoc evs c' ev c'')
  then obtain a' where "trace abst a evs a'" "rel a' c'" by blast
  with simulates trace_snoc.hyps(2) show ?case by blast
qed blast

end

section \<open>The steps\<close>

datatype event =
    EvApply "BatchOp list"
  | EvGet bytes "engine_error + bytes option"
  | EvFlush
  | EvFlushWrite
  | EvFlushClean
  | EvRestart
  | EvCrash "BatchOp list"

text \<open>
  The specification. A lookup answers what the map holds or fails with a read error; after a loss of power a
  prefix of the batch in progress has been written.
\<close>

inductive spec_step :: "kv \<Rightarrow> event \<Rightarrow> kv \<Rightarrow> bool" where
  spec_apply: "spec_step M (EvApply ops) (kv_apply ops M)"
| spec_get: "r = Inr (M k) \<or> r = Inl (ErrReadTable ErrReadAt) \<Longrightarrow> spec_step M (EvGet k r) M"
| spec_internal: "ev \<in> {EvFlush, EvFlushWrite, EvFlushClean, EvRestart} \<Longrightarrow> spec_step M ev M"
| spec_crash: "j \<le> length ops \<Longrightarrow> spec_step M (EvCrash ops) (kv_apply (take j ops) M)"

inductive_cases spec_getE: "spec_step M (EvGet k r) M'"
inductive_cases spec_applyE: "spec_step M (EvApply ops) M'"
inductive_cases spec_crashE: "spec_step M (EvCrash ops) M'"

text \<open>
  The engine. No flush fails, no batch is reported as failed by the log, file numbers have six digits, tables
  fit an \<open>int64\<close> offset, and logs of finished flushes are removed in the order of the flushes
  (\<open>in_order\<close>). After a loss of power the process starts with an empty memory and meets any sequence \<open>f\<close> of
  outcomes of its system calls.
\<close>

definition in_order :: "Engine \<Rightarrow> bool" where
  "in_order e \<longleftrightarrow> e_immutable e = None \<or> e_cleaning e = []"

definition flush_twice_fits :: "(nat \<Rightarrow> bool) \<Rightarrow> (real \<Rightarrow> floats) \<Rightarrow> Engine \<Rightarrow> world \<Rightarrow> bool" where
  "flush_twice_fits rnd fl e w \<longleftrightarrow> flush_fits fl e w
     \<and> (case waitForAnyFlushLocked fl e w of (_, e1, w1) \<Rightarrow> case startFlushLocked rnd e1 w1 of (_, e2, w2) \<Rightarrow> flush_fits fl e2 w2)"

inductive engine_step :: "(nat \<Rightarrow> bool) \<Rightarrow> (real \<Rightarrow> floats) \<Rightarrow> EngineOptions \<Rightarrow> Engine \<times> world \<Rightarrow> event \<Rightarrow> Engine \<times> world \<Rightarrow> bool"
  for rnd fl opts where
  step_apply: "ops_encodable ops \<Longrightarrow> flush_fits fl e w \<Longrightarrow> in_order e \<Longrightarrow> numbers_left e
    \<Longrightarrow> ApplyBatch rnd fl ops e w = (r, e', w') \<Longrightarrow> \<not> e_flushErr e' \<Longrightarrow> \<nexists>err. r = Some (ErrWalAppend err)
    \<Longrightarrow> engine_step rnd fl opts (e, w) (EvApply ops) (e', w')"
| step_get: "Engine_Get k e w = (r, e', w') \<Longrightarrow> engine_step rnd fl opts (e, w) (EvGet k r) (e', w')"
| step_flush: "flush_twice_fits rnd fl e w \<Longrightarrow> e_cleaning e = [] \<Longrightarrow> numbers_left e
    \<Longrightarrow> Engine_Flush rnd fl e w = (r, e', w') \<Longrightarrow> \<not> e_flushErr e' \<Longrightarrow> engine_step rnd fl opts (e, w) EvFlush (e', w')"
| step_flush_write: "flush_fits fl e w \<Longrightarrow> run_write fl e w = (e', w') \<Longrightarrow> \<not> e_flushErr e'
    \<Longrightarrow> engine_step rnd fl opts (e, w) EvFlushWrite (e', w')"
| step_flush_clean: "run_clean 0 e w = (e', w') \<Longrightarrow> \<not> e_flushErr e' \<Longrightarrow> engine_step rnd fl opts (e, w) EvFlushClean (e', w')"
| step_restart: "flush_fits fl (Close_begin_engine e) w \<Longrightarrow> e_nextWALSeq e < 1000000 \<Longrightarrow> Engine_Close fl e w = (r, e1, w1) \<Longrightarrow> \<not> e_flushErr e1
    \<Longrightarrow> Open_engine rnd opts (power_loss keep w1) = (Inr e', w') \<Longrightarrow> engine_step rnd fl opts (e, w) EvRestart (e', w'\<lparr>w_faults := f\<rparr>)"
| step_crash: "e_nextWALSeq e < 1000000 \<Longrightarrow> Open_engine rnd opts (power_loss keep w) = (Inr e', w')
    \<Longrightarrow> engine_step rnd fl opts (e, w) (EvCrash []) (e', w'\<lparr>w_faults := f\<rparr>)"
| step_crash_batch: "ops_encodable ops \<Longrightarrow> flush_fits fl e w \<Longrightarrow> in_order e \<Longrightarrow> numbers_left e
    \<Longrightarrow> ApplyBatch rnd fl ops e w = (r, e1, w1) \<Longrightarrow> \<not> e_flushErr e1 \<Longrightarrow> e_nextWALSeq e1 < 1000000
    \<Longrightarrow> Open_engine rnd opts (power_loss keep w1) = (Inr e', w') \<Longrightarrow> engine_step rnd fl opts (e, w) (EvCrash ops) (e', w'\<lparr>w_faults := f\<rparr>)"

definition serves :: "kv \<Rightarrow> Engine \<times> world \<Rightarrow> bool" where
  "serves M s \<longleftrightarrow> holds_map M (fst s) (snd s) \<and> \<not> e_closed (fst s) \<and> \<not> e_flushErr (fst s)"

section \<open>Simulation\<close>

lemma holds_map_cong: "map_of (w_files w') = map_of (w_files w) \<Longrightarrow> holds_map M e w' = holds_map M e w"
  using durable_cong unfolding holds_map_def by blast

lemma holds_map_faults [simp]: "holds_map M e (w\<lparr>w_faults := f\<rparr>) = holds_map M e w"
  by (rule holds_map_cong) simp

lemma holds_Get:
  assumes "holds_map M e w" "\<not> e_closed e" "Engine_Get k e w = (r, e', w')"
  shows "holds_map M e' w'" "r = Inr (M k) \<or> r = Inl (ErrReadTable ErrReadAt)" "e_closed e' = e_closed e" "e_flushErr e' = e_flushErr e"
    "works w \<Longrightarrow> r = Inr (M k) \<and> w' = w"
proof -
  obtain mv T ts cl jb cur where d: "durable mv T ts cl jb cur e w" "e_abs T e = M" using assms(1) by (auto simp: holds_map_def)
  have ok: "engine_ok T e w" using d(1) by (simp add: durable_def)
  note G = Engine_Get_ok [OF ok assms(3,2)] and H = durable_Get [OF d(1) assms(3,2)]
  have "e_abs T e' = M" using H(2) d(2) unfolding e_abs_def by metis
  with H(1) show "holds_map M e' w'" by (rule holds_mapI)
  show "r = Inr (M k) \<or> r = Inl (ErrReadTable ErrReadAt)" "works w \<Longrightarrow> r = Inr (M k) \<and> w' = w" using G(4,5) d(2) by blast+
  show "e_closed e' = e_closed e" "e_flushErr e' = e_flushErr e" using G(2) by auto
qed

lemma holds_write:
  assumes "holds_map M e w" "flush_fits fl e w" "run_write fl e w = (e', w')" "\<not> e_flushErr e'"
  shows "holds_map M e' w'"
proof -
  obtain mv T ts cl jb cur where d: "durable mv T ts cl jb cur e w" "e_abs T e = M" using assms(1) by (auto simp: holds_map_def)
  from durable_run_write [OF d(1) assms(2-4)] obtain T' ts' cl' where
    d': "durable mv T' ts' cl' [] cur e' w'" "e_lookup T' e' = e_lookup T e" by blast
  then have "e_abs T' e' = M" using d(2) unfolding e_abs_def by metis
  with d'(1) show ?thesis by (rule holds_mapI)
qed

lemma holds_clean:
  assumes "holds_map M e w" "run_clean 0 e w = (e', w')" "\<not> e_flushErr e'"
  shows "holds_map M e' w'"
proof -
  obtain mv T ts cl jb cur where d: "durable mv T ts cl jb cur e w" "e_abs T e = M" using assms(1) by (auto simp: holds_map_def)
  obtain cl' where d': "durable mv T ts cl' jb cur e' w'" using durable_run_clean(1) [OF d(1) assms(2,3)] by blast
  have "e_abs T e' = M" using durable_run_clean(2) [OF d(1) assms(2,3)] d(2) unfolding e_abs_def by metis
  with d' show ?thesis by (rule holds_mapI)
qed

lemma runFlush_fields:
  assumes "runFlush fl e w = (e', w')"
  shows "e_closed e' = e_closed e" "e_nextWALSeq e' = e_nextWALSeq e" "e_nextFlushSeq e' = e_nextFlushSeq e" "e_mem e' = e_mem e"
proof -
  obtain e1 w1 where rw: "run_write fl e w = (e1, w1)" by fastforce
  note W = run_write_keeps [OF rw]
  consider "e' = e1" | "run_clean (length (e_cleaning e)) e1 w1 = (e', w')" using assms rw by (auto simp: runFlush_def split: if_splits)
  then have "e_closed e' = e_closed e1 \<and> e_nextWALSeq e' = e_nextWALSeq e1 \<and> e_nextFlushSeq e' = e_nextFlushSeq e1 \<and> e_mem e' = e_mem e1"
    using run_clean_keeps by cases auto
  with W show "e_closed e' = e_closed e" "e_nextWALSeq e' = e_nextWALSeq e" "e_nextFlushSeq e' = e_nextFlushSeq e" "e_mem e' = e_mem e"
    by simp_all
qed

lemma runFlush_cleaning:
  assumes "runFlush fl e w = (e', w')"
  shows "e_cleaning e' = e_cleaning e"
proof -
  obtain e1 w1 where rw: "run_write fl e w = (e1, w1)" by fastforce
  consider "e_cleaning e1 = e_cleaning e" | l where "e_cleaning e1 = e_cleaning e @ [l]"
    using rw by (auto simp: run_write_def Let_def split: option.splits prod.splits sum.splits)
  then show ?thesis
  proof cases
    case 1
    with assms rw show ?thesis by (simp add: runFlush_def)
  next
    case 2
    then have "run_clean (length (e_cleaning e)) e1 w1 = (e', w')" using assms rw by (simp add: runFlush_def)
    with 2 show ?thesis by (auto simp: run_clean_def Let_def split: prod.splits sum.splits bool.splits)
  qed
qed

lemma wait_open:
  assumes "waitForAnyFlushLocked fl e w = (r, e', w')" "\<not> e_closed e"
  shows "r = None" "\<not> e_closed e'" "numbers_left e' = numbers_left e" "e_nextWALSeq e' = e_nextWALSeq e" "e_mem e' = e_mem e"
  using assms runFlush_fields [of fl e w e' w']
  by (auto simp: waitForAnyFlushLocked_def numbers_left_def split: if_splits prod.splits)

text \<open>A batch is the rest of \<open>ApplyBatch\<close> once the flush in progress has finished.\<close>

lemma ApplyBatch_after_wait:
  assumes ab: "ApplyBatch rnd fl ops e w = (r, e', w')" "\<not> e_flushErr e'" and h: "holds_map M e w" "\<not> e_closed e"
    and guards: "flush_fits fl e w" "in_order e"
  obtains (empty) "ops = []" "r = None" "holds_map M e' w'" "\<not> e_closed e'" "e_nextWALSeq e' = e_nextWALSeq e"
    | (batch) e1 w1 where "ops \<noteq> []" "apply_rest rnd ops e1 w1 = (r, e', w')" "holds_map M e1 w1" "e_immutable e1 = None"
      "\<not> e_closed e1" "numbers_left e1 = numbers_left e" "e_nextWALSeq e1 = e_nextWALSeq e" "\<not> e_flushErr e1"
proof -
  obtain r1 e1 w1 where wt: "waitForAnyFlushLocked fl e w = (r1, e1, w1)" by (metis prod_cases3)
  note W = wait_open [OF wt h(2)]
  have fe: "\<not> e_flushErr e1" using ab wt W(1) by (auto simp: ApplyBatch_eq split: if_splits)
  note H = holds_wait [OF h(1) guards(1) wt fe guards(2) [unfolded in_order_def]]
  show thesis
  proof (cases "ops = []")
    case True
    then have "r = None" "e' = e1" "w' = w1" using ab wt W(1) fe by (auto simp: ApplyBatch_eq)
    with True H W show thesis by (intro empty) simp_all
  next
    case False
    then have "apply_rest rnd ops e1 w1 = (r, e', w')" using ab wt W(1) fe by (simp add: ApplyBatch_eq)
    from batch [OF False this H W(2,3,4) fe] show thesis .
  qed
qed

lemma apply_rest_closed: "apply_rest rnd ops e w = (r, e', w') \<Longrightarrow> e_closed e' = e_closed e"
  by (auto simp: apply_rest_def startFlushLocked_def Let_def split: prod.splits sum.splits option.splits if_splits)

lemma holds_ApplyBatch:
  assumes "holds_map M e w" "\<not> e_closed e" "ops_encodable ops" "flush_fits fl e w" "in_order e" "numbers_left e"
    and ab: "ApplyBatch rnd fl ops e w = (r, e', w')" "\<not> e_flushErr e'" "\<nexists>err. r = Some (ErrWalAppend err)"
  shows "holds_map (kv_apply ops M) e' w'" "\<not> e_closed e'"
proof -
  have "holds_map (kv_apply ops M) e' w' \<and> \<not> e_closed e'"
    using ab(1,2) assms(1,2,4,5)
  proof (cases rule: ApplyBatch_after_wait)
    case empty
    then show ?thesis by (simp add: kv_apply_def)
  next
    case (batch e1 w1)
    with holds_apply_rest(2) [OF batch(3,4) assms(3) _ batch(2) ab(3)] assms(6) apply_rest_closed [OF batch(2)] show ?thesis by simp
  qed
  then show "holds_map (kv_apply ops M) e' w'" "\<not> e_closed e'" by simp_all
qed

lemma crash_batch:
  assumes "holds_map M e w" "\<not> e_closed e" "ops_encodable ops" "flush_fits fl e w" "in_order e" "numbers_left e"
    and ab: "ApplyBatch rnd fl ops e w = (r, e1, w1)" "\<not> e_flushErr e1" "e_nextWALSeq e1 < 1000000"
  shows "\<exists>j \<le> length ops. \<exists>e' w'. Open_engine rnd opts (power_loss keep w1) = (Inr e', w') \<and> works w'
    \<and> holds_map (kv_apply (take j ops) M) e' w' \<and> \<not> e_closed e' \<and> \<not> e_flushErr e' \<and> e_opts e' = engine_withDefaults opts"
proof (cases "\<exists>err. r = Some (ErrWalAppend err)")
  case False
  then have "holds_map (kv_apply ops M) e1 w1" using holds_ApplyBatch [OF assms(1-8)] by blast
  from crash_idle [OF this ab(3), of rnd opts keep] show ?thesis by (intro exI [of _ "length ops"]) (simp, blast)
next
  case True
  from ab(1,2) assms(1,2,4,5) show ?thesis
  proof (cases rule: ApplyBatch_after_wait)
    case empty
    with True show ?thesis by simp
  next
    case (batch e2 w2)
    obtain r3 l w3 where ap: "AppendBatch (batch_records (e_nextSeq e2) ops) (e_w e2) w2 = (r3, l, w3)" by (metis prod_cases3)
    have "w3 = w1" using True batch(2) ap
      by (auto simp: apply_rest_def Let_def split: sum.splits prod.splits option.splits if_splits)
    with crash_append [OF batch(3) _ assms(3) ap] assms(6) batch(7) show ?thesis by (simp add: numbers_left_def)
  qed
qed

lemma holds_Flush:
  assumes h: "holds_map M e w" "\<not> e_closed e" "\<not> e_flushErr e" and g: "flush_twice_fits rnd fl e w" "e_cleaning e = []" "numbers_left e"
    and ef: "Engine_Flush rnd fl e w = (r, e', w')" "\<not> e_flushErr e'"
  shows "holds_map M e' w'" "\<not> e_closed e'"
proof -
  obtain r1 e1 w1 where wt: "waitForAnyFlushLocked fl e w = (r1, e1, w1)" by (metis prod_cases3)
  obtain r2 e2 w2 where sf: "startFlushLocked rnd e1 w1 = (r2, e2, w2)" by (metis prod_cases3)
  obtain e3 w3 where rf: "runFlush fl e2 w2 = (e3, w3)" by fastforce
  note W = wait_open [OF wt h(2)]
  have fe: "\<not> e_flushErr e1" using ef wt W(1) h(2) by (auto simp: Engine_Flush_def split: if_splits)
  have H: "holds_map M e1 w1" "e_immutable e1 = None"
    using holds_wait [OF h(1) _ wt fe] g(1,2) unfolding flush_twice_fits_def by simp_all
  have H2: "holds_map M e2 w2" using holds_startFlush [OF H sf] W(3) g(3) by simp
  have c1: "e_cleaning e1 = []"
    using wt g(2) runFlush_cleaning [of fl e w] by (auto simp: waitForAnyFlushLocked_def split: if_splits prod.splits)
  have "holds_map M e' w' \<and> \<not> e_closed e'"
  proof (cases "Memtable_Len (e_mem e1) = 0 \<or> r2 \<noteq> None")
    case True
    then have "(e' = e1 \<and> w' = w1) \<or> (e' = e2 \<and> w' = w2)"
      using ef wt sf W(1) fe h(2) by (cases r2) (auto simp: Engine_Flush_def split: if_splits)
    moreover have "\<not> e_closed e2" using sf W(2) by (auto simp: startFlushLocked_def split: sum.splits prod.splits)
    ultimately show ?thesis using H H2 W(2) by blast
  next
    case False
    then have e': "e' = e3" "w' = w3" using ef wt sf rf W(1) fe h(2) by (auto simp: Engine_Flush_def)
    have "e_cleaning e2 = e_cleaning e1" "e_closed e2 = e_closed e1" using sf by (auto simp: startFlushLocked_def split: sum.splits prod.splits)
    with holds_runFlush(1) [OF H2 _ rf] g(1) wt sf c1 ef(2) e' runFlush_fields(1) [OF rf] W(2) show ?thesis
      by (simp add: flush_twice_fits_def)
  qed
  then show "holds_map M e' w'" "\<not> e_closed e'" by simp_all
qed

text \<open>Closing: every flush goroutine runs to its end, then the files are closed.\<close>

lemma holds_clean_all:
  assumes "clean_all n e w = (e', w')" "holds_map M e w" "\<not> e_flushErr e'"
  shows "holds_map M e' w'" "e_nextWALSeq e' = e_nextWALSeq e"
proof -
  have "holds_map M e' w' \<and> e_nextWALSeq e' = e_nextWALSeq e" if "clean_all n e w = (e', w')" "holds_map M e w" "\<not> e_flushErr e'" for n e w
    using that
  proof (induction n e w rule: clean_all.induct)
    case (2 n e w)
    obtain e1 w1 where rc: "run_clean 0 e w = (e1, w1)" by fastforce
    have rest: "clean_all n e1 w1 = (e', w')" using 2(2) rc by simp
    have sticky: "e_flushErr a \<Longrightarrow> clean_all k a b = (e', w') \<Longrightarrow> e_flushErr e'" for k a b
      by (induction k a b rule: clean_all.induct) (auto split: prod.splits dest: run_clean_keeps(8))
    then have "\<not> e_flushErr e1" using rest 2(4) by blast
    with holds_clean [OF 2(3) rc] 2(1) [OF rc [symmetric] rest] 2(4) run_clean_keeps(6) [OF rc] show ?case by simp
  qed simp
  with assms show "holds_map M e' w'" "e_nextWALSeq e' = e_nextWALSeq e" by blast+
qed

lemma close_readers_files: "close_readers es w = (ok, w') \<Longrightarrow> w_files w' = w_files w"
proof (induction es w arbitrary: ok w' rule: close_readers.induct)
  case (2 e es w)
  obtain ok1 w1 where c: "Reader_Close (snd e) w = (ok1, w1)" by fastforce
  obtain ok2 w2 where r: "close_readers es w1 = (ok2, w2)" by fastforce
  from "2.IH" [OF c [symmetric] r] os_Close_files [of _ w ok1 w1] c 2(2) r show ?case by (auto simp: Reader_Close_def)
qed simp

lemma holds_Close:
  assumes h: "holds_map M e w" "\<not> e_closed e" and g: "flush_fits fl (Close_begin_engine e) w" and cl: "Engine_Close fl e w = (r, e', w')" "\<not> e_flushErr e'"
  shows "\<exists>e1. holds_map M e1 w' \<and> e_nextWALSeq e1 = e_nextWALSeq e"
proof -
  let ?e = "Close_begin_engine e"
  obtain e1 w1 where rw: "run_write fl ?e w = (e1, w1)" by fastforce
  obtain e2 w2 where ca: "clean_all (length (e_cleaning e1)) e1 w1 = (e2, w2)" by fastforce
  obtain r3 l w3 where c: "Close_log (e_w e2) w2 = (r3, l, w3)" by (metis prod_cases3)
  obtain ok w4 where cr: "close_readers (e_sstables e2) w3 = (ok, w4)" by fastforce
  have e': "e' = e2\<lparr>e_w := l\<rparr>" "w' = w4" using cl h(2) rw ca c cr by (auto simp: Engine_Close_def Close_end_engine_def)
  have sticky: "e_flushErr a \<Longrightarrow> clean_all k a b = (x, y) \<Longrightarrow> e_flushErr x" for k a b x y
    by (induction k a b rule: clean_all.induct) (auto split: prod.splits dest: run_clean_keeps(8))
  have fe: "\<not> e_flushErr e2" "\<not> e_flushErr e1" using cl(2) e'(1) sticky [OF _ ca] by auto
  have "holds_map M ?e w" using h(1) unfolding holds_map_def Close_begin_engine_def
    by (simp add: durable_def engine_ok_def e_abs_def [abs_def] e_lookup_def)
  then have "holds_map M e1 w1" using g rw fe(2) by (rule holds_write)
  from holds_clean_all [OF ca this fe(1)] have h2: "holds_map M e2 w2" "e_nextWALSeq e2 = e_nextWALSeq e1" by blast+
  then have "holds_map M e2 w3" using durable_closed_log [OF _ c] unfolding holds_map_def by blast
  then have "holds_map M e2 w'" using holds_map_cong [of w4 w3] close_readers_files [OF cr] e'(2) by simp
  moreover have "e_nextWALSeq e2 = e_nextWALSeq e" using h2(2) run_write_keeps(6) [OF rw] by (simp add: Close_begin_engine_def)
  ultimately show ?thesis by blast
qed

lemma engine_simulates:
  assumes "serves M c" "engine_step rnd fl opts c ev c'"
  shows "\<exists>M'. spec_step M ev M' \<and> serves M' c'"
  using assms(2,1)
proof cases
  case (step_apply ops e w r e' w')
  have h: "holds_map M e w" "\<not> e_closed e" using assms(1) step_apply(1) by (simp_all add: serves_def)
  from holds_ApplyBatch [OF h step_apply(4-10)] step_apply show ?thesis by (auto simp: serves_def intro: spec_apply)
next
  case (step_get k e w r e' w')
  have h: "holds_map M e w" "\<not> e_closed e" using assms(1) step_get(1) by (simp_all add: serves_def)
  from holds_Get [OF h step_get(4)] step_get assms(1) show ?thesis by (auto simp: serves_def intro: spec_get)
next
  case (step_flush e w r e' w')
  have h: "holds_map M e w" "\<not> e_closed e" "\<not> e_flushErr e" using assms(1) step_flush(1) by (simp_all add: serves_def)
  from holds_Flush [OF h step_flush(4-8)] step_flush show ?thesis by (auto simp: serves_def intro: spec_internal)
next
  case (step_flush_write e w e' w')
  have h: "holds_map M e w" "\<not> e_closed e" using assms(1) step_flush_write(1) by (simp_all add: serves_def)
  from holds_write [OF h(1) step_flush_write(4-6)] h(2) run_write_keeps(3) [OF step_flush_write(5)] step_flush_write
  show ?thesis by (auto simp: serves_def intro: spec_internal)
next
  case (step_flush_clean e w e' w')
  have h: "holds_map M e w" "\<not> e_closed e" using assms(1) step_flush_clean(1) by (simp_all add: serves_def)
  from holds_clean [OF h(1) step_flush_clean(4,5)] h(2) run_clean_keeps(3) [OF step_flush_clean(4)] step_flush_clean
  show ?thesis by (auto simp: serves_def intro: spec_internal)
next
  case (step_restart e w r e1 w1 keep e' w' f)
  have h: "holds_map M e w" "\<not> e_closed e" using assms(1) step_restart(1) by (simp_all add: serves_def)
  from holds_Close [OF h step_restart(4,6,7)] step_restart(5) obtain e2 where "holds_map M e2 w1" "e_nextWALSeq e2 < 1000000" by auto
  from crash_idle [OF this, of rnd opts keep] step_restart show ?thesis by (auto simp: serves_def intro: spec_internal)
next
  case (step_crash e keep w e' w' f)
  have h: "holds_map M e w" using assms(1) step_crash(1) by (simp add: serves_def)
  from crash_idle [OF h step_crash(4), of rnd opts keep] step_crash spec_crash [of 0 "[]" M]
  show ?thesis by (auto simp: serves_def kv_apply_def)
next
  case (step_crash_batch ops e w r e1 w1 keep e' w' f)
  have h: "holds_map M e w" "\<not> e_closed e" using assms(1) step_crash_batch(1) by (simp_all add: serves_def)
  from crash_batch [OF h step_crash_batch(4-10), of opts keep] step_crash_batch show ?thesis
    by (auto simp: serves_def intro: spec_crash)
qed

interpretation eng: forward_simulation "engine_step rnd fl opts" spec_step serves for rnd fl opts
  by unfold_locales (rule engine_simulates)

section \<open>A new store\<close>

definition empty_dir :: world where
  "empty_dir = \<lparr>w_files = [], w_faults = (\<lambda>_. Ok)\<rparr>"

lemma Open_empty_dir:
  "\<exists>e w. Open_engine rnd opts empty_dir = (Inr e, w) \<and> works w \<and> serves (\<lambda>_. None) (e, w) \<and> numbers_left e \<and> e_immutable e = None
    \<and> e_nextWALSeq e = 1 \<and> e_nextFlushSeq e = 0"
proof -
  have on: "on_disk ext mv empty_dir = {}" for ext mv by (simp add: on_disk_def empty_dir_def)
  have "store_disk 0 (\<lambda>_. None) (\<lambda>_. []) empty_dir"
    by (simp add: store_disk_def on) (simp add: first_valid_def file_data_def file_synced_def empty_dir_def tables_in_def)
  from Open_works [OF _ this, of rnd opts] obtain e w recs where
    O: "Open_engine rnd opts empty_dir = (Inr e, w)" "works w" "durable 0 (\<lambda>_. None) [] [] [] (0, recs) e w"
      "log_entries recs = log_entries []" "\<not> e_closed e" "\<not> e_flushErr e" "e_nextWALSeq e = 1" "e_nextFlushSeq e = 0"
    by (auto simp: empty_dir_def on [unfolded empty_dir_def] wal_numbers_def sst_numbers_def next_number_def)
  have "e_sstables e = []" using O(3) by (simp add: durable_def)
  then have "e_abs (\<lambda>_. None) e = (\<lambda>_. None)"
    by (simp add: e_abs_def fun_eq_iff durable_lookup [OF O(3)] O(4)) (simp add: log_entries_def upd_writes_def)
  from holds_mapI [OF O(3) this] O have "serves (\<lambda>_. None) (e, w)" by (simp add: serves_def)
  moreover have "numbers_left e" using O(7,8) by (simp add: numbers_left_def)
  moreover have "e_immutable e = None" using O(3) by (simp add: durable_def job_log_def engine_ok_def job_ok_def split: option.splits)
  ultimately show ?thesis using O by blast
qed

section \<open>Progress on a working disk\<close>

lemma Close_log_works: "clean_log l \<Longrightarrow> works w \<Longrightarrow> \<exists>l' w'. Close_log l w = (Inr (), l', w') \<and> works w'"
  by (auto simp: Close_log_def Let_def clean_log_def bufio_Flush_def os_Sync_def set_file_def split: option.split)

lemma run_clean_works:
  assumes "i < length (e_cleaning e)" "clean_log (e_cleaning e ! i)" "log_file (Path (e_cleaning e ! i)) w recs" "works w"
    and "run_clean i e w = (e', w')" "\<not> e_flushErr e"
  shows "\<not> e_flushErr e'" "works w'"
proof -
  let ?l = "e_cleaning e ! i"
  obtain l1 w1 where c: "Close_log ?l w = (Inr (), l1, w1)" "works w1" using Close_log_works [OF assms(2,4)] by blast
  have "log_file (Path ?l) w1 recs" using Close_log_files(2) [OF c(1) assms(2,3)] .
  then have "os_Remove (Path ?l) w1 = (True, w1\<lparr>w_files := AList.delete (Path ?l) (w_files w1)\<rparr>)"
    using c(2) by (auto simp: os_Remove_def log_file_def file_data_def)
  with assms c show "\<not> e_flushErr e'" "works w'" by (auto simp: run_clean_def Let_def)
qed

lemma run_write_works:
  assumes ok: "engine_ok T e w" and fits: "flush_fits fl e w" and w: "works w" "\<not> e_flushErr e" and rw: "run_write fl e w = (e', w')"
  shows "\<not> e_flushErr e'" "works w'"
proof -
  have "\<not> e_flushErr e' \<and> works w'"
  proof (cases "e_job e")
    case None
    with rw w show ?thesis by (simp add: run_write_def)
  next
    case (Some j)
    obtain m l n where j: "j = (m, l, n)" by (metis prod_cases3)
    let ?p = "sst_name n"
    have J: "e_immutable e = Some m" "mem_ok m" using ok Some j by (simp_all add: engine_ok_def job_ok_def)
    obtain r1 w1 where wt: "write_table fl ?p (writer_options (e_opts e)) (mem_table m) w = (r1, w1)" by fastforce
    obtain r2 w2 where op: "OpenWithCache ?p w1 = (r2, w2)" by fastforce
    have es: "table_entries (mem_table m)" "bloom_fits fl (length (mem_table m))"
      using J fits Some j by (simp_all add: table_entries_def mem_ok_def mem_table_sorted length_mem_table flush_fits_def)
    obtain meta where r1: "r1 = Inr meta" "works w1" using write_table_spec(3) [OF es wt w(1)] by blast
    obtain d where d: "file_data w1 ?p = Some d" "go_len d \<longrightarrow> is_table d (mem_table m)" using write_table_spec(4) [OF es wt r1(1)] by blast
    have run: "w' = w2" "e_flushErr e' \<longleftrightarrow> (\<exists>x. r2 = Inl x)"
      using rw Some j J(2) wt op r1(1) w(2) by (auto simp: run_write_def writeSSTable_eq mem_ok_def Let_def split: sum.splits)
    have "go_len d"
      using fits rw run(1) d(1) OpenWithCache_files [OF op] Some j by (simp add: flush_fits_def file_data_def)
    with d obtain bf bs where "valid_table bf bs" "d = table_bytes bf bs" by (auto simp: is_table_def)
    with OpenWithCache_spec(3) [OF _ _ op r1(2)] d(1) r1(2) run show ?thesis by auto
  qed
  then show "\<not> e_flushErr e'" "works w'" by simp_all
qed

lemma runFlush_works:
  assumes d: "durable mv T ts cl jb cur e w" and fits: "flush_fits fl e w" and w: "works w" "\<not> e_flushErr e"
    and rf: "runFlush fl e w = (e', w')"
  shows "\<not> e_flushErr e'" "works w'"
proof -
  obtain e1 w1 where rw: "run_write fl e w = (e1, w1)" by fastforce
  have ok: "engine_ok T e w" using d by (simp add: durable_def)
  note W = run_write_works [OF ok fits w rw]
  have "\<not> e_flushErr e' \<and> works w'"
  proof (cases "length (e_cleaning e) < length (e_cleaning e1)")
    case False
    with rf rw W show ?thesis by (simp add: runFlush_def)
  next
    case True
    with rf rw have rc: "run_clean (length (e_cleaning e)) e1 w1 = (e', w')" by (simp add: runFlush_def)
    from durable_run_write [OF d fits rw W(1)] obtain T' ts' cl' where d1: "durable mv T' ts' cl' [] cur e1 w1" by blast
    have "e_cleaning e1 ! length (e_cleaning e) \<in> set (e_cleaning e1)" using True by simp
    moreover from this d1 have "\<exists>x \<in> set cl'. Path (e_cleaning e1 ! length (e_cleaning e)) = wal_name (fst x)"
      unfolding durable_def by (metis (no_types, lifting) comp_apply imageE list.set_map rev_image_eqI)
    ultimately obtain x where "clean_log (e_cleaning e1 ! length (e_cleaning e))"
      "log_file (Path (e_cleaning e1 ! length (e_cleaning e))) w1 (snd x)"
      using d1 by (auto simp: durable_def files_ok_def)
    from run_clean_works [OF True this W(2) rc W(1)] show ?thesis by simp
  qed
  then show "\<not> e_flushErr e'" "works w'" by simp_all
qed

lemma ApplyBatch_progress:
  assumes h: "serves M (e, w)" and w: "works w" and g: "flush_fits fl e w" "in_order e" "ops_encodable ops"
  shows "\<exists>e' w'. ApplyBatch rnd fl ops e w = (None, e', w') \<and> \<not> e_flushErr e' \<and> works w'"
proof -
  have H: "holds_map M e w" "\<not> e_closed e" "\<not> e_flushErr e" using h by (simp_all add: serves_def)
  obtain mv T ts cl jb cur where d: "durable mv T ts cl jb cur e w" using H(1) by (auto simp: holds_map_def)
  obtain r1 e1 w1 where wt: "waitForAnyFlushLocked fl e w = (r1, e1, w1)" by (metis prod_cases3)
  have W: "\<not> e_flushErr e1" "works w1"
    using wt runFlush_works [OF d g(1) w H(3)] H(3) w by (auto simp: waitForAnyFlushLocked_def split: if_splits prod.splits)
  note h1 = holds_wait [OF H(1) g(1) wt W(1) g(2) [unfolded in_order_def]]
  obtain mv T ts cl jb cur where d1: "durable mv T ts cl jb cur e1 w1" using h1(1) by (auto simp: holds_map_def)
  have l: "clean_log (e_w e1)" "\<not> wal_closed (e_w e1)" using d1 by (simp_all add: durable_def)
  obtain l' w2 where ap: "AppendBatch (batch_records (e_nextSeq e1) ops) (e_w e1) w1 = (Inr (), l', w2)" "works w2"
    using AppendBatch_works [OF l W(2)] by blast
  obtain mem where m: "apply_ops (e_nextSeq e1) ops (e_mem e1) = Some mem" using durable_batch [OF d1 g(3) ap(1)] by blast
  have o: "\<exists>l w'. Open_log p True w2 = (Inr l, w') \<and> works w'" for p by (rule Open_log_works [OF ap(2)])
  have "\<exists>e' w'. apply_rest rnd ops e1 w1 = (None, e', w') \<and> \<not> e_flushErr e' \<and> works w'"
    using ap m W(1) o [of "wal_name (e_nextWALSeq e1)"] by (auto simp: apply_rest_def startFlushLocked_def Let_def)
  with wt wait_open(1) [OF wt H(2)] W show ?thesis by (simp add: ApplyBatch_eq)
qed

section \<open>Properties\<close>

lemma reachable_serves:
  assumes "Open_engine rnd opts empty_dir = (Inr e0, w0)" "trace (engine_step rnd fl opts) (e0, w0\<lparr>w_faults := f\<rparr>) evs s"
  shows "\<exists>M. trace spec_step (\<lambda>_. None) evs M \<and> serves M s"
proof -
  have "serves (\<lambda>_. None) (e0, w0)" using Open_empty_dir [of rnd opts] assms(1) by auto
  then have "serves (\<lambda>_. None) (e0, w0\<lparr>w_faults := f\<rparr>)" by (simp add: serves_def)
  from eng.trace_inclusion [OF assms(2) this] show ?thesis .
qed

text \<open>A run for the witnesses: a batch, a loss of power, a lookup.\<close>

definition ex_opts :: EngineOptions where
  "ex_opts = \<lparr>eo_MemtableSizeThreshold = 0, eo_SSTableBlockSize = 0, eo_SSTableBloomFPRate = 0, eo_BlockCacheSize = 0\<rparr>"

definition ex_batch :: "BatchOp list" where
  "ex_batch = [\<lparr>bo_Key = [1], bo_Value = [7], bo_Deleted = False\<rparr>]"

lemma ex_batch_encodable: "ops_encodable ex_batch"
  by (simp add: ops_encodable_def ex_batch_def)

lemma idle_guards: "serves M (e, w) \<Longrightarrow> e_immutable e = None \<Longrightarrow> flush_fits fl e v \<and> in_order e"
  by (auto simp: serves_def holds_map_def in_order_def flush_fits_def dest: durable_idle)

lemma ApplyBatch_number:
  assumes "ApplyBatch rnd fl ops e w = (r, e', w')" "e_immutable e = None"
  shows "e_nextWALSeq e' \<le> e_nextWALSeq e + 1" "e_nextFlushSeq e' \<le> e_nextFlushSeq e + 1"
  using assms by (auto simp: ApplyBatch_def waitForAnyFlushLocked_def startFlushLocked_def Let_def
      split: if_splits prod.splits sum.splits option.splits)

lemma self_cache: "\<exists>c. e = e\<lparr>e_cache := c\<rparr>" for e :: Engine
  by (intro exI [of _ "e_cache e"]) simp

lemma ex_run:
  "\<exists>e0 w0 e w. Open_engine rnd ex_opts empty_dir = (Inr e0, w0)
    \<and> trace (engine_step rnd fl ex_opts) (e0, w0\<lparr>w_faults := (\<lambda>_. Ok)\<rparr>) [EvApply ex_batch, EvCrash [], EvGet [1] (Inr (Some [7]))] (e, w)
    \<and> e_nextWALSeq e < 1000000 \<and> flush_fits fl e (w\<lparr>w_faults := (\<lambda>_. Ok)\<rparr>) \<and> in_order e \<and> numbers_left e"
proof -
  obtain e0 w0 where O: "Open_engine rnd ex_opts empty_dir = (Inr e0, w0)" "works w0" "serves (\<lambda>_. None) (e0, w0)"
      "numbers_left e0" "e_immutable e0 = None" "e_nextWALSeq e0 = 1" "e_nextFlushSeq e0 = 0"
    using Open_empty_dir [of rnd ex_opts] by blast
  have w0: "w0\<lparr>w_faults := (\<lambda>_. Ok)\<rparr> = w0" using O(2) by simp
  note g = idle_guards [OF O(3,5), of fl w0]
  obtain e1 w1 where A: "ApplyBatch rnd fl ex_batch e0 w0 = (None, e1, w1)" "\<not> e_flushErr e1" "works w1"
    using ApplyBatch_progress [OF O(3,2) _ _ ex_batch_encodable, of fl rnd] g by blast
  have s1: "engine_step rnd fl ex_opts (e0, w0) (EvApply ex_batch) (e1, w1)"
    using step_apply [OF ex_batch_encodable _ _ O(4) A(1,2)] g by simp
  have h0: "holds_map (\<lambda>_. None) e0 w0" "\<not> e_closed e0" using O(3) by (simp_all add: serves_def)
  have H: "holds_map (kv_apply ex_batch (\<lambda>_. None)) e1 w1"
    using holds_ApplyBatch(1) [OF h0 ex_batch_encodable _ _ O(4) A(1,2)] g by simp
  have n1: "e_nextWALSeq e1 \<le> 2" "e_nextFlushSeq e1 \<le> 1" using ApplyBatch_number [OF A(1) O(5)] O(6,7) by simp_all
  obtain e2 w2 where C: "Open_engine rnd ex_opts (power_loss (\<lambda>_. 0) w1) = (Inr e2, w2)" "works w2" "holds_map (kv_apply ex_batch (\<lambda>_. None)) e2 w2"
      "\<not> e_closed e2" "\<not> e_flushErr e2" "e_immutable e2 = None" "e_nextWALSeq e2 \<le> 3" "e_nextFlushSeq e2 \<le> 1"
    using crash_idle [OF H, of rnd ex_opts "\<lambda>_. 0"] n1 by force
  have s2: "engine_step rnd fl ex_opts (e1, w1) (EvCrash []) (e2, w2\<lparr>w_faults := (\<lambda>_. Ok)\<rparr>)"
    using C(1) n1(1) by (intro step_crash) simp_all
  have w2: "w2\<lparr>w_faults := (\<lambda>_. Ok)\<rparr> = w2" using C(2) by simp
  obtain r e3 w3 where G: "Engine_Get [1] e2 w2 = (r, e3, w3)" by (metis prod_cases3)
  have r: "r = Inr (Some [7])" "w3 = w2" using holds_Get(5) [OF C(3,4) G C(2)] by (simp_all add: kv_apply_def ex_batch_def)
  have s3: "engine_step rnd fl ex_opts (e2, w2) (EvGet [1] (Inr (Some [7]))) (e3, w3)" using step_get [OF G] r by simp
  have keep: "e_immutable e3 = None" "numbers_left e3" "serves (kv_apply ex_batch (\<lambda>_. None)) (e3, w3)"
  proof -
    have "\<exists>c. e3 = e2\<lparr>e_cache := c\<rparr>" using G C(4) self_cache by (auto simp: Engine_Get_def split: option.splits prod.splits sum.splits)
    then show "e_immutable e3 = None" "numbers_left e3" using C(6-8) by (auto simp: numbers_left_def)
    show "serves (kv_apply ex_batch (\<lambda>_. None)) (e3, w3)" using holds_Get [OF C(3,4) G] C(4,5) by (simp add: serves_def)
  qed
  have "trace (engine_step rnd fl ex_opts) (e0, w0) ([EvApply ex_batch] @ [EvCrash []]) (e2, w2)"
    using trace_snoc [OF trace_single, where R = "engine_step rnd fl ex_opts", OF s1 s2] by (simp add: w2)
  then have "trace (engine_step rnd fl ex_opts) (e0, w0) [EvApply ex_batch, EvCrash [], EvGet [1] (Inr (Some [7]))] (e3, w3)"
    using trace_snoc [where R = "engine_step rnd fl ex_opts", OF _ s3] by fastforce
  moreover have "e_nextWALSeq e3 < 1000000" using keep(2) by (simp add: numbers_left_def)
  ultimately show ?thesis using O(1) w0 keep(2) idle_guards [OF keep(3,1)] by metis
qed







end
