(* ===== verification/Raft_Types.thy ===== *)
theory Raft_Types
  imports Go_Std "HOL-Library.Monad_Syntax"
begin

text \<open>
  The data of the consensus module: roles, log entries, messages and snapshots
  (\<open>src/raft/message.go\<close>), and the configuration, the node state and the output bundle
  (\<open>src/raft/raft.go\<close>).
\<close>

section \<open>Messages\<close>

datatype Role = Follower | PreCandidate | Candidate | Leader

record LogEntry =
  le_Term :: uint64
  le_Index :: uint64
  le_Data :: bytes

text \<open>\<open>MsgUnknown\<close> stands for the values of \<open>MessageType\<close> that name no message.\<close>

datatype MessageType =
    MsgPreVote
  | MsgPreVoteResponse
  | MsgRequestVote
  | MsgRequestVoteResponse
  | MsgAppendEntries
  | MsgAppendEntriesResponse
  | MsgInstallSnapshot
  | MsgInstallSnapshotResponse
  | MsgUnknown byte

fun MessageType_String :: "MessageType \<Rightarrow> string" where
  "MessageType_String MsgPreVote = ''PreVote''"
| "MessageType_String MsgPreVoteResponse = ''PreVoteResponse''"
| "MessageType_String MsgRequestVote = ''RequestVote''"
| "MessageType_String MsgRequestVoteResponse = ''RequestVoteResponse''"
| "MessageType_String MsgAppendEntries = ''AppendEntries''"
| "MessageType_String MsgAppendEntriesResponse = ''AppendEntriesResponse''"
| "MessageType_String MsgInstallSnapshot = ''InstallSnapshot''"
| "MessageType_String MsgInstallSnapshotResponse = ''InstallSnapshotResponse''"
| "MessageType_String (MsgUnknown b) = ''Unknown''"

fun Role_String :: "Role \<Rightarrow> string" where
  "Role_String Follower = ''Follower''"
| "Role_String PreCandidate = ''PreCandidate''"
| "Role_String Candidate = ''Candidate''"
| "Role_String Leader = ''Leader''"

record Snapshot =
  sn_LastIncludedIndex :: uint64
  sn_LastIncludedTerm :: uint64
  sn_Data :: bytes

definition zero_Snapshot :: Snapshot where
  "zero_Snapshot = \<lparr>sn_LastIncludedIndex = 0, sn_LastIncludedTerm = 0, sn_Data = []\<rparr>"

record Message =
  m_Type :: MessageType
  m_From :: uint64
  m_To :: uint64
  m_Term :: uint64
  m_LastLogIndex :: uint64
  m_LastLogTerm :: uint64
  m_VoteGranted :: bool
  m_PrevLogIndex :: uint64
  m_PrevLogTerm :: uint64
  m_Entries :: "LogEntry list"
  m_LeaderCommit :: uint64
  m_Success :: bool
  m_MatchIndex :: uint64
  m_ReadContext :: uint64
  m_Snapshot :: Snapshot

text \<open>A message literal names some fields; the others are zero.\<close>

definition new_Message :: "MessageType \<Rightarrow> uint64 \<Rightarrow> Message" where
  "new_Message ty to =
     \<lparr>m_Type = ty, m_From = 0, m_To = to, m_Term = 0, m_LastLogIndex = 0, m_LastLogTerm = 0,
      m_VoteGranted = False, m_PrevLogIndex = 0, m_PrevLogTerm = 0, m_Entries = [],
      m_LeaderCommit = 0, m_Success = False, m_MatchIndex = 0, m_ReadContext = 0,
      m_Snapshot = zero_Snapshot\<rparr>"

record ReadState =
  rs_Index :: uint64
  rs_Context :: uint64

section \<open>Configuration\<close>

record Config =
  cfg_ID :: uint64
  cfg_Peers :: "uint64 list"
  cfg_ElectionTick :: int
  cfg_HeartbeatTick :: int

datatype raft_error =
    ErrZeroID
  | ErrZeroPeer
  | ErrPeerIsSelf
  | ErrTicksNotPositive
  | ErrTickRatio
  | ErrNotLeader
  | ErrNotCommitted uint64 uint64
  | ErrNotNewer uint64 uint64

text \<open>\<open>Config.validate\<close>: the first error, if any.\<close>

fun validate_peers :: "uint64 \<Rightarrow> uint64 list \<Rightarrow> raft_error option" where
  "validate_peers i [] = None"
| "validate_peers i (p # ps) =
     (if p = 0 then Some ErrZeroPeer
      else if p = i then Some ErrPeerIsSelf
      else validate_peers i ps)"

definition validate :: "Config \<Rightarrow> raft_error option" where
  "validate c =
     (if cfg_ID c = 0 then Some ErrZeroID
      else case validate_peers (cfg_ID c) (cfg_Peers c) of
        Some e \<Rightarrow> Some e
      | None \<Rightarrow>
          if cfg_ElectionTick c \<le> 0 \<or> cfg_HeartbeatTick c \<le> 0 then Some ErrTicksNotPositive
          else if cfg_ElectionTick c < cfg_HeartbeatTick c * 2 then Some ErrTickRatio
          else None)"

section \<open>The node state\<close>

record HardState =
  hs_Term :: uint64
  hs_Vote :: uint64

record Ready =
  rd_HardState :: "HardState option"
  rd_UnstableEntries :: "LogEntry list"
  rd_FirstUnstableIndex :: uint64
  rd_Messages :: "Message list"
  rd_ReadStates :: "ReadState list"
  rd_Snapshot :: "Snapshot option"
  rd_SnapshotToApply :: "Snapshot option"

record Status =
  st_ID :: uint64
  st_Term :: uint64
  st_Role :: Role
  st_Leader :: uint64
  st_CommitIndex :: uint64
  st_LastLogIndex :: uint64

record pendingRead =
  pr_index :: uint64
  pr_acked :: "uint64 set"

text \<open>
  \<open>nextIndex\<close>, \<open>matchIndex\<close> and \<open>sentIndex\<close> are only read, with default 0, and updated: they are
  functions. The maps whose size is taken are sets of the keys present. \<open>r_rnd\<close> is the sequence of
  numbers the random source yields.
\<close>

record Raft =
  r_id :: uint64
  r_peers :: "uint64 list"
  r_role :: Role
  r_currentTerm :: uint64
  r_votedFor :: uint64
  r_leaderID :: uint64
  r_log :: "LogEntry list"
  r_snapshot :: Snapshot
  r_pendingSnapshotToApply :: "Snapshot option"
  r_commitIndex :: uint64
  r_stableTerm :: uint64
  r_stableVote :: uint64
  r_unstableIndex :: uint64
  r_stableSnapshotIndex :: uint64
  r_nextIndex :: "uint64 \<Rightarrow> uint64"
  r_matchIndex :: "uint64 \<Rightarrow> uint64"
  r_sentIndex :: "uint64 \<Rightarrow> uint64"
  r_votesReceived :: "uint64 set"
  r_preVotesReceived :: "uint64 set"
  r_pendingReads :: "uint64 \<Rightarrow> pendingRead option"
  r_readStates :: "ReadState list"
  r_electionTick :: int
  r_heartbeatTick :: int
  r_electionElapsed :: int
  r_heartbeatElapsed :: int
  r_randomizedElectionTimeout :: int
  r_rnd :: "nat \<Rightarrow> nat"
  r_msgs :: "Message list"

end
