(* ===== verification/Raft_Core.thy ===== *)
theory Raft_Core
  imports Raft_Types
begin

text \<open>
  The consensus state machine (\<open>src/raft/raft.go\<close>), one definition per method. A method that reads
  the log returns \<open>None\<close> where the code panics (an index or slice out of range).
\<close>

section \<open>Log access\<close>

definition lastLogIndex :: "Raft \<Rightarrow> uint64 option" where
  "lastLogIndex r = map_option le_Index (go_last (r_log r))"

definition lastLogTerm :: "Raft \<Rightarrow> uint64 option" where
  "lastLogTerm r = map_option le_Term (go_last (r_log r))"

definition firstLogIndex :: "Raft \<Rightarrow> uint64 option" where
  "firstLogIndex r = map_option le_Index (go_first (r_log r))"

definition logPos :: "uint64 \<Rightarrow> Raft \<Rightarrow> int option" where
  "logPos index r = map_option (\<lambda>first. sint (index - first)) (firstLogIndex r)"

definition termAt :: "uint64 \<Rightarrow> Raft \<Rightarrow> uint64 option" where
  "termAt index r = do {
     first \<leftarrow> firstLogIndex r;
     lst \<leftarrow> lastLogIndex r;
     if index < first \<or> lst < index then Some 0
     else do {
       pos \<leftarrow> logPos index r;
       e \<leftarrow> go_index (r_log r) pos;
       Some (le_Term e)
     }
   }"

definition Entries :: "uint64 \<Rightarrow> uint64 \<Rightarrow> Raft \<Rightarrow> LogEntry list option" where
  "Entries start end r = do {
     lst \<leftarrow> lastLogIndex r;
     let end' = (if lst < end then lst else end);
     first \<leftarrow> firstLogIndex r;
     let start' = (if start < first then first else start);
     if end' \<le> start' then Some []
     else do {
       a \<leftarrow> logPos start' r;
       b \<leftarrow> logPos end' r;
       go_slice (r_log r) (a + 1) (b + 1)
     }
   }"

definition clusterSize :: "Raft \<Rightarrow> nat" where
  "clusterSize r = length (r_peers r) + 1"

definition hasMajorityCount :: "nat \<Rightarrow> Raft \<Rightarrow> bool" where
  "hasMajorityCount n r \<longleftrightarrow> clusterSize r div 2 + 1 \<le> n"

section \<open>Construction and recovery\<close>

text \<open>\<open>rand.Intn\<close> panics on a bound that is not positive; \<open>validate\<close> excludes it.\<close>

definition resetElectionTimeout :: "Raft \<Rightarrow> Raft" where
  "resetElectionTimeout r =
     r\<lparr>r_electionElapsed := 0,
       r_randomizedElectionTimeout := r_electionTick r + int (r_rnd r 0) mod r_electionTick r,
       r_rnd := (\<lambda>n. r_rnd r (Suc n))\<rparr>"

definition Raft_New :: "Config \<Rightarrow> (nat \<Rightarrow> nat) \<Rightarrow> raft_error + Raft" where
  "Raft_New cfg rnd =
     (case validate cfg of
        Some e \<Rightarrow> Inl e
      | None \<Rightarrow>
          Inr (resetElectionTimeout
            \<lparr>r_id = cfg_ID cfg, r_peers = cfg_Peers cfg, r_role = Follower,
             r_currentTerm = 0, r_votedFor = 0, r_leaderID = 0,
             r_log = [\<lparr>le_Term = 0, le_Index = 0, le_Data = []\<rparr>],
             r_snapshot = zero_Snapshot, r_pendingSnapshotToApply = None,
             r_commitIndex = 0, r_stableTerm = 0, r_stableVote = 0,
             r_unstableIndex = 1, r_stableSnapshotIndex = 0,
             r_nextIndex = (\<lambda>_. 0), r_matchIndex = (\<lambda>_. 0), r_sentIndex = (\<lambda>_. 0),
             r_votesReceived = {}, r_preVotesReceived = {}, r_pendingReads = (\<lambda>_. None),
             r_readStates = [], r_electionTick = cfg_ElectionTick cfg,
             r_heartbeatTick = cfg_HeartbeatTick cfg, r_electionElapsed = 0,
             r_heartbeatElapsed = 0, r_randomizedElectionTimeout = 0, r_rnd = rnd,
             r_msgs = []\<rparr>))"

definition restoreState :: "HardState \<Rightarrow> LogEntry list \<Rightarrow> Raft \<Rightarrow> Raft option" where
  "restoreState hs entries r =
     (let r1 = r\<lparr>r_currentTerm := hs_Term hs, r_votedFor := hs_Vote hs,
                 r_stableTerm := hs_Term hs, r_stableVote := hs_Vote hs\<rparr>;
          r2 = (if entries \<noteq> [] then r1\<lparr>r_log := entries\<rparr> else r1)
      in do {
        first \<leftarrow> firstLogIndex r2;
        let r3 = (if r_commitIndex r2 < first then r2\<lparr>r_commitIndex := first\<rparr> else r2);
        lst \<leftarrow> lastLogIndex r3;
        Some (r3\<lparr>r_unstableIndex := lst + 1\<rparr>)
      })"

definition Raft_Status :: "Raft \<Rightarrow> Status option" where
  "Raft_Status r = do {
     lst \<leftarrow> lastLogIndex r;
     Some \<lparr>st_ID = r_id r, st_Term = r_currentTerm r, st_Role = r_role r, st_Leader = r_leaderID r,
           st_CommitIndex = r_commitIndex r, st_LastLogIndex = lst\<rparr>
   }"

section \<open>Output\<close>

definition Raft_Ready :: "Raft \<Rightarrow> Ready option" where
  "Raft_Ready r = do {
     lst \<leftarrow> lastLogIndex r;
     unstable \<leftarrow>
       (if r_unstableIndex r \<le> lst then do {
          a \<leftarrow> logPos (r_unstableIndex r) r;
          go_slice (r_log r) a (int (length (r_log r)))
        } else Some []);
     Some \<lparr>rd_HardState =
             (if r_currentTerm r \<noteq> r_stableTerm r \<or> r_votedFor r \<noteq> r_stableVote r
              then Some \<lparr>hs_Term = r_currentTerm r, hs_Vote = r_votedFor r\<rparr> else None),
           rd_UnstableEntries = unstable,
           rd_FirstUnstableIndex = (if r_unstableIndex r \<le> lst then r_unstableIndex r else 0),
           rd_Messages = r_msgs r,
           rd_ReadStates = r_readStates r,
           rd_Snapshot =
             (if r_stableSnapshotIndex r < sn_LastIncludedIndex (r_snapshot r)
              then Some (r_snapshot r) else None),
           rd_SnapshotToApply = r_pendingSnapshotToApply r\<rparr>
   }"

definition Advance :: "Raft \<Rightarrow> Raft option" where
  "Advance r = do {
     lst \<leftarrow> lastLogIndex r;
     Some (r\<lparr>r_stableTerm := r_currentTerm r,
             r_stableVote := r_votedFor r,
             r_unstableIndex := (if r_unstableIndex r \<le> lst then lst + 1 else r_unstableIndex r),
             r_stableSnapshotIndex := sn_LastIncludedIndex (r_snapshot r),
             r_pendingSnapshotToApply := None,
             r_msgs := [],
             r_readStates := []\<rparr>)
   }"

definition send :: "Message \<Rightarrow> Raft \<Rightarrow> Raft" where
  "send m r = r\<lparr>r_msgs := r_msgs r @ [m\<lparr>m_From := r_id r, m_Term := r_currentTerm r\<rparr>]\<rparr>"

section \<open>Compaction\<close>

definition CreateSnapshot :: "uint64 \<Rightarrow> bytes \<Rightarrow> Raft \<Rightarrow> (raft_error + Raft) option" where
  "CreateSnapshot index data r =
     (if r_commitIndex r < index then Some (Inl (ErrNotCommitted index (r_commitIndex r)))
      else do {
     first \<leftarrow> firstLogIndex r;
     if index \<le> first then Some (Inl (ErrNotNewer index first))
     else do {
       trm \<leftarrow> termAt index r;
       pos \<leftarrow> logPos index r;
       tl \<leftarrow> go_slice (r_log r) (pos + 1) (int (length (r_log r)));
       Some (Inr (r\<lparr>r_log := \<lparr>le_Term = trm, le_Index = index, le_Data = []\<rparr> # tl,
                    r_unstableIndex := (if r_unstableIndex r \<le> index then index + 1 else r_unstableIndex r),
                    r_snapshot := \<lparr>sn_LastIncludedIndex = index, sn_LastIncludedTerm = trm, sn_Data = data\<rparr>\<rparr>))
     }
   })"

section \<open>Replication\<close>

definition sendInstallSnapshot :: "uint64 \<Rightarrow> Raft \<Rightarrow> Raft" where
  "sendInstallSnapshot peer r =
     send ((new_Message MsgInstallSnapshot peer)\<lparr>m_Snapshot := r_snapshot r\<rparr>) r"

definition sendAppendEntries :: "uint64 \<Rightarrow> uint64 \<Rightarrow> Raft \<Rightarrow> Raft option" where
  "sendAppendEntries peer readContext r = do {
     first \<leftarrow> firstLogIndex r;
     if r_nextIndex r peer - 1 < first then Some (sendInstallSnapshot peer r)
     else do {
       let prevIndex = (if r_nextIndex r peer - 1 < r_sentIndex r peer then r_sentIndex r peer
                        else r_nextIndex r peer - 1);
       prevTerm \<leftarrow> termAt prevIndex r;
       lst \<leftarrow> lastLogIndex r;
       entries \<leftarrow> Entries prevIndex lst r;
       let r1 = send ((new_Message MsgAppendEntries peer)
                  \<lparr>m_PrevLogIndex := prevIndex, m_PrevLogTerm := prevTerm, m_Entries := entries,
                   m_LeaderCommit := r_commitIndex r, m_ReadContext := readContext\<rparr>) r;
       Some (if r_sentIndex r peer < lst then r1\<lparr>r_sentIndex := (r_sentIndex r1)(peer := lst)\<rparr> else r1)
     }
   }"

definition sendHeartbeats :: "Raft \<Rightarrow> Raft option" where
  "sendHeartbeats r = fold_option (\<lambda>p. sendAppendEntries p 0) (r_peers r) r"

function advance_loop :: "uint64 \<Rightarrow> Raft \<Rightarrow> Raft option" where
  "advance_loop n r =
     (if n \<le> r_commitIndex r then Some r
      else case termAt n r of
        None \<Rightarrow> None
      | Some t \<Rightarrow>
          if t \<noteq> r_currentTerm r then advance_loop (n - 1) r
          else if hasMajorityCount (1 + length (filter (\<lambda>p. n \<le> r_matchIndex r p) (r_peers r))) r
          then Some (r\<lparr>r_commitIndex := n\<rparr>)
          else advance_loop (n - 1) r)"
  by pat_completeness auto
termination
proof (relation "measure (\<lambda>(n, r). unat n)")
  have *: "unat (n - 1) < unat n" if "\<not> n \<le> c" for n c :: uint64
  proof -
    have "n \<noteq> 0" using that by auto
    then show ?thesis by (simp add: unat_minus_one unat_gt_0)
  qed
  show "((n - 1, r), n, r) \<in> measure (\<lambda>(n, r). unat n)" if "\<not> n \<le> r_commitIndex r" for n r
    using * [OF that] by simp
  show "((n - 1, r), n, r) \<in> measure (\<lambda>(n, r). unat n)" if "\<not> n \<le> r_commitIndex r" for n r
    using * [OF that] by simp
qed simp

declare advance_loop.simps [simp del]

text \<open>What the loop does: nothing, or it commits the highest index it found.\<close>

lemma advance_loop_cases:
  assumes "advance_loop n r = Some r'"
  obtains (same) "r' = r"
    | (commit) k where "r_commitIndex r < k" "k \<le> n" "termAt k r = Some (r_currentTerm r)"
        "hasMajorityCount (1 + length (filter (\<lambda>p. k \<le> r_matchIndex r p) (r_peers r))) r"
        "r' = r\<lparr>r_commitIndex := k\<rparr>"
proof -
  have "r' = r \<or> (\<exists>k. r_commitIndex r < k \<and> k \<le> n \<and> termAt k r = Some (r_currentTerm r)
      \<and> hasMajorityCount (1 + length (filter (\<lambda>p. k \<le> r_matchIndex r p) (r_peers r))) r
      \<and> r' = r\<lparr>r_commitIndex := k\<rparr>)"
    using assms
  proof (induction n r rule: advance_loop.induct)
    case (1 n r)
    show ?case
    proof (cases "n \<le> r_commitIndex r")
      case True
      with "1.prems" show ?thesis by (simp add: advance_loop.simps [of n r])
    next
      case False
      then have "r_commitIndex r < n" "n \<noteq> 0" by auto
      then have lt: "r_commitIndex r < n" "n - 1 \<le> n"
        by (simp_all add: word_le_nat_alt unat_minus_one)
      obtain t where t: "termAt n r = Some t"
        using "1.prems" False by (auto simp: advance_loop.simps [of n r] split: option.splits)
      let ?maj = "hasMajorityCount (1 + length (filter (\<lambda>p. n \<le> r_matchIndex r p) (r_peers r))) r"
      show ?thesis
      proof (cases "t = r_currentTerm r \<and> ?maj")
        case True
        with "1.prems" False t have "r' = r\<lparr>r_commitIndex := n\<rparr>"
          by (simp add: advance_loop.simps [of n r])
        with True lt t show ?thesis by auto
      next
        case no: False
        with "1.prems" False t have "advance_loop (n - 1) r = Some r'"
          by (auto simp: advance_loop.simps [of n r] split: if_splits)
        with "1.IH" [OF False t] no lt(2) show ?thesis by (meson order_trans)
      qed
    qed
  qed
  then show thesis using same commit by blast
qed

definition maybeAdvanceCommitIndex :: "Raft \<Rightarrow> Raft option" where
  "maybeAdvanceCommitIndex r = do {
     lst \<leftarrow> lastLogIndex r;
     advance_loop lst r
   }"

section \<open>Role changes\<close>

definition becomeFollower :: "uint64 \<Rightarrow> Raft \<Rightarrow> Raft" where
  "becomeFollower trm r =
     resetElectionTimeout
       ((if r_currentTerm r < trm then r\<lparr>r_currentTerm := trm, r_votedFor := 0\<rparr> else r)\<lparr>r_role := Follower\<rparr>)"

definition becomeLeader :: "Raft \<Rightarrow> Raft option" where
  "becomeLeader r = do {
     lst \<leftarrow> lastLogIndex r;
     let r1 = r\<lparr>r_role := Leader, r_leaderID := r_id r,
                r_nextIndex := (\<lambda>p. if p \<in> set (r_peers r) then lst + 1 else 0),
                r_matchIndex := (\<lambda>_. 0), r_sentIndex := (\<lambda>_. 0), r_pendingReads := (\<lambda>_. None),
                r_heartbeatElapsed := 0\<rparr>;
     r2 \<leftarrow> sendHeartbeats r1;
     if r_peers r = [] then maybeAdvanceCommitIndex r2 else Some r2
   }"

text \<open>The loop over the peers in an election, for either kind of request.\<close>

definition ask_votes :: "MessageType \<Rightarrow> Raft \<Rightarrow> Raft option" where
  "ask_votes ty r =
     fold_option (\<lambda>p r. do {
       li \<leftarrow> lastLogIndex r;
       lt \<leftarrow> lastLogTerm r;
       Some (send ((new_Message ty p)\<lparr>m_LastLogIndex := li, m_LastLogTerm := lt\<rparr>) r)
     }) (r_peers r) r"

definition becomeCandidate :: "Raft \<Rightarrow> Raft option" where
  "becomeCandidate r =
     (let r1 = resetElectionTimeout
                 (r\<lparr>r_currentTerm := r_currentTerm r + 1, r_role := Candidate, r_votedFor := r_id r,
                    r_leaderID := 0, r_votesReceived := {r_id r}\<rparr>)
      in if r_peers r = [] then becomeLeader r1 else ask_votes MsgRequestVote r1)"

definition becomePreCandidate :: "Raft \<Rightarrow> Raft option" where
  "becomePreCandidate r =
     (let r1 = resetElectionTimeout
                 (r\<lparr>r_role := PreCandidate, r_leaderID := 0, r_preVotesReceived := {r_id r}\<rparr>)
      in if r_peers r = [] then becomeCandidate r1 else ask_votes MsgPreVote r1)"

section \<open>Votes\<close>

definition log_up_to_date :: "Message \<Rightarrow> Raft \<Rightarrow> bool option" where
  "log_up_to_date m r = do {
     lt \<leftarrow> lastLogTerm r;
     li \<leftarrow> lastLogIndex r;
     Some (lt < m_LastLogTerm m \<or> (m_LastLogTerm m = lt \<and> li \<le> m_LastLogIndex m))
   }"

definition handlePreVote :: "Message \<Rightarrow> Raft \<Rightarrow> Raft option" where
  "handlePreVote m r =
     (let prospectiveTerm = m_Term m + 1
      in if prospectiveTerm < r_currentTerm r
         then Some (send ((new_Message MsgPreVoteResponse (m_From m))\<lparr>m_VoteGranted := False\<rparr>) r)
         else do {
           logOK \<leftarrow> log_up_to_date m r;
           let canVote = (r_votedFor r = 0 \<or> r_votedFor r = m_From m \<or> r_currentTerm r < prospectiveTerm);
           Some (send ((new_Message MsgPreVoteResponse (m_From m))\<lparr>m_VoteGranted := canVote \<and> logOK\<rparr>) r)
         })"

definition handlePreVoteResponse :: "Message \<Rightarrow> Raft \<Rightarrow> Raft option" where
  "handlePreVoteResponse m r =
     (if r_role r \<noteq> PreCandidate then Some r
      else if \<not> m_VoteGranted m then Some r
      else
        let r1 = r\<lparr>r_preVotesReceived := insert (m_From m) (r_preVotesReceived r)\<rparr>
        in if hasMajorityCount (card (r_preVotesReceived r1)) r1 then becomeCandidate r1 else Some r1)"

definition handleRequestVote :: "Message \<Rightarrow> Raft \<Rightarrow> Raft option" where
  "handleRequestVote m r =
     (let r1 = (if r_currentTerm r < m_Term m then becomeFollower (m_Term m) r else r)
      in if m_Term m < r_currentTerm r1
         then Some (send ((new_Message MsgRequestVoteResponse (m_From m))\<lparr>m_VoteGranted := False\<rparr>) r1)
         else do {
           let canVote = (r_votedFor r1 = 0 \<or> r_votedFor r1 = m_From m);
           logOK \<leftarrow> log_up_to_date m r1;
           let granted = (canVote \<and> logOK);
           let r2 = (if granted then resetElectionTimeout (r1\<lparr>r_votedFor := m_From m\<rparr>) else r1);
           Some (send ((new_Message MsgRequestVoteResponse (m_From m))\<lparr>m_VoteGranted := granted\<rparr>) r2)
         })"

definition handleRequestVoteResponse :: "Message \<Rightarrow> Raft \<Rightarrow> Raft option" where
  "handleRequestVoteResponse m r =
     (if r_currentTerm r < m_Term m then Some (becomeFollower (m_Term m) r)
      else if m_Term m < r_currentTerm r \<or> r_role r \<noteq> Candidate then Some r
      else if \<not> m_VoteGranted m then Some r
      else
        let r1 = r\<lparr>r_votesReceived := insert (m_From m) (r_votesReceived r)\<rparr>
        in if hasMajorityCount (card (r_votesReceived r1)) r1 then becomeLeader r1 else Some r1)"

section \<open>Log replication\<close>

text \<open>
  One round of the loop over the entries of an AppendEntries: cut the log at a conflicting entry, then
  append the entry if the log ends before it. \<open>idx\<close> is the entry's index.
\<close>

definition cut_conflict :: "uint64 \<Rightarrow> LogEntry \<Rightarrow> Raft \<Rightarrow> Raft option" where
  "cut_conflict idx e r = do {
     lst \<leftarrow> lastLogIndex r;
     if idx \<le> lst then do {
       t \<leftarrow> termAt idx r;
       if t \<noteq> le_Term e then do {
         pos \<leftarrow> logPos idx r;
         log' \<leftarrow> go_slice (r_log r) 0 pos;
         Some (r\<lparr>r_log := log',
                 r_unstableIndex := (if idx < r_unstableIndex r then idx else r_unstableIndex r)\<rparr>)
       } else Some r
     } else Some r
   }"

definition append_entry :: "uint64 \<Rightarrow> LogEntry \<Rightarrow> Raft \<Rightarrow> Raft option" where
  "append_entry idx e r = do {
     r1 \<leftarrow> cut_conflict idx e r;
     lst \<leftarrow> lastLogIndex r1;
     Some (if lst < idx then r1\<lparr>r_log := r_log r1 @ [e]\<rparr> else r1)
   }"

fun append_entries :: "uint64 \<Rightarrow> LogEntry list \<Rightarrow> Raft \<Rightarrow> Raft option" where
  "append_entries idx [] r = Some r"
| "append_entries idx (e # es) r = Option.bind (append_entry idx e r) (append_entries (idx + 1) es)"

definition handleAppendEntries :: "Message \<Rightarrow> Raft \<Rightarrow> Raft option" where
  "handleAppendEntries m r =
     (if m_Term m < r_currentTerm r
      then Some (send ((new_Message MsgAppendEntriesResponse (m_From m))\<lparr>m_Success := False\<rparr>) r)
      else
        let r1 = (becomeFollower (m_Term m) r)\<lparr>r_leaderID := m_From m\<rparr>;
            reply = (new_Message MsgAppendEntriesResponse (m_From m))\<lparr>m_ReadContext := m_ReadContext m\<rparr>
        in do {
          lst \<leftarrow> lastLogIndex r1;
          if lst < m_PrevLogIndex m then Some (send reply r1)
          else do {
            t \<leftarrow> termAt (m_PrevLogIndex m) r1;
            if t \<noteq> m_PrevLogTerm m then Some (send reply r1)
            else do {
              r2 \<leftarrow> append_entries (m_PrevLogIndex m + 1) (m_Entries m) r1;
              lst2 \<leftarrow> lastLogIndex r2;
              let r3 = (if r_commitIndex r2 < m_LeaderCommit m
                        then r2\<lparr>r_commitIndex := min (m_LeaderCommit m) lst2\<rparr> else r2);
              Some (send (reply\<lparr>m_Success := True,
                      m_MatchIndex := m_PrevLogIndex m + word_of_nat (length (m_Entries m))\<rparr>) r3)
            }
          }
        })"

definition ackReadIndex :: "uint64 \<Rightarrow> uint64 \<Rightarrow> Raft \<Rightarrow> Raft" where
  "ackReadIndex ctx peer r =
     (case r_pendingReads r ctx of
        None \<Rightarrow> r
      | Some pr \<Rightarrow>
          let pr' = pr\<lparr>pr_acked := insert peer (pr_acked pr)\<rparr>
          in if hasMajorityCount (card (pr_acked pr')) r
             then r\<lparr>r_readStates := r_readStates r @ [\<lparr>rs_Index = pr_index pr, rs_Context = ctx\<rparr>],
                    r_pendingReads := (r_pendingReads r)(ctx := None)\<rparr>
             else r\<lparr>r_pendingReads := (r_pendingReads r)(ctx := Some pr')\<rparr>)"

definition handleAppendEntriesResponse :: "Message \<Rightarrow> Raft \<Rightarrow> Raft option" where
  "handleAppendEntriesResponse m r =
     (if r_currentTerm r < m_Term m then Some (becomeFollower (m_Term m) r)
      else if m_Term m < r_currentTerm r \<or> r_role r \<noteq> Leader then Some r
      else
        let r1 = (if m_ReadContext m \<noteq> 0 then ackReadIndex (m_ReadContext m) (m_From m) r else r)
        in if m_Success m then
             let r2 = (if r_matchIndex r1 (m_From m) < m_MatchIndex m
                       then r1\<lparr>r_matchIndex := (r_matchIndex r1)(m_From m := m_MatchIndex m)\<rparr> else r1)
             in maybeAdvanceCommitIndex (r2\<lparr>r_nextIndex := (r_nextIndex r2)(m_From m := m_MatchIndex m + 1)\<rparr>)
           else
             let r2 = (if 1 < r_nextIndex r1 (m_From m)
                       then r1\<lparr>r_nextIndex := (r_nextIndex r1)(m_From m := r_nextIndex r1 (m_From m) - 1)\<rparr> else r1)
             in sendAppendEntries (m_From m) 0 (r2\<lparr>r_sentIndex := (r_sentIndex r2)(m_From m := 0)\<rparr>))"

section \<open>Snapshot transfer\<close>

definition handleInstallSnapshot :: "Message \<Rightarrow> Raft \<Rightarrow> Raft option" where
  "handleInstallSnapshot m r = do {
     first \<leftarrow> firstLogIndex r;
     if m_Term m < r_currentTerm r
     then Some (send ((new_Message MsgInstallSnapshotResponse (m_From m))\<lparr>m_MatchIndex := first\<rparr>) r)
     else do {
       let r1 = (becomeFollower (m_Term m) r)\<lparr>r_leaderID := m_From m\<rparr>;
       let li = sn_LastIncludedIndex (m_Snapshot m);
       if li \<le> first
       then Some (send ((new_Message MsgInstallSnapshotResponse (m_From m))\<lparr>m_MatchIndex := first\<rparr>) r1)
       else
         Some (send ((new_Message MsgInstallSnapshotResponse (m_From m))\<lparr>m_MatchIndex := li\<rparr>)
           (r1\<lparr>r_log := [\<lparr>le_Term = sn_LastIncludedTerm (m_Snapshot m), le_Index = li, le_Data = []\<rparr>],
               r_commitIndex := (if r_commitIndex r1 < li then li else r_commitIndex r1),
               r_unstableIndex := li + 1,
               r_snapshot := m_Snapshot m,
               r_pendingSnapshotToApply := Some (m_Snapshot m)\<rparr>))
     }
   }"

definition handleInstallSnapshotResponse :: "Message \<Rightarrow> Raft \<Rightarrow> Raft option" where
  "handleInstallSnapshotResponse m r =
     (if r_currentTerm r < m_Term m then Some (becomeFollower (m_Term m) r)
      else if m_Term m < r_currentTerm r \<or> r_role r \<noteq> Leader then Some r
      else
        let r1 = (if r_matchIndex r (m_From m) < m_MatchIndex m
                  then r\<lparr>r_matchIndex := (r_matchIndex r)(m_From m := m_MatchIndex m)\<rparr> else r);
            r2 = (if r_nextIndex r1 (m_From m) < m_MatchIndex m + 1
                  then r1\<lparr>r_nextIndex := (r_nextIndex r1)(m_From m := m_MatchIndex m + 1)\<rparr> else r1)
        in maybeAdvanceCommitIndex r2)"

section \<open>Entry points\<close>

definition Tick :: "Raft \<Rightarrow> Raft option" where
  "Tick r =
     (if r_role r = Leader then
        let r1 = r\<lparr>r_heartbeatElapsed := r_heartbeatElapsed r + 1\<rparr>
        in if r_heartbeatTick r1 \<le> r_heartbeatElapsed r1
           then sendHeartbeats (r1\<lparr>r_heartbeatElapsed := 0\<rparr>) else Some r1
      else
        let r1 = r\<lparr>r_electionElapsed := r_electionElapsed r + 1\<rparr>
        in if r_randomizedElectionTimeout r1 \<le> r_electionElapsed r1
           then becomePreCandidate r1 else Some r1)"

definition Step :: "Message \<Rightarrow> Raft \<Rightarrow> Raft option" where
  "Step m r =
     (if m_To m \<noteq> r_id r then Some r
      else case m_Type m of
        MsgPreVote \<Rightarrow> handlePreVote m r
      | MsgPreVoteResponse \<Rightarrow> handlePreVoteResponse m r
      | MsgRequestVote \<Rightarrow> handleRequestVote m r
      | MsgRequestVoteResponse \<Rightarrow> handleRequestVoteResponse m r
      | MsgAppendEntries \<Rightarrow> handleAppendEntries m r
      | MsgAppendEntriesResponse \<Rightarrow> handleAppendEntriesResponse m r
      | MsgInstallSnapshot \<Rightarrow> handleInstallSnapshot m r
      | MsgInstallSnapshotResponse \<Rightarrow> handleInstallSnapshotResponse m r
      | MsgUnknown _ \<Rightarrow> Some r)"

fun append_proposals :: "bytes list \<Rightarrow> Raft \<Rightarrow> (uint64 list \<times> Raft) option" where
  "append_proposals [] r = Some ([], r)"
| "append_proposals (d # ds) r = do {
     lst \<leftarrow> lastLogIndex r;
     let e = \<lparr>le_Term = r_currentTerm r, le_Index = lst + 1, le_Data = d\<rparr>;
     (is, r') \<leftarrow> append_proposals ds (r\<lparr>r_log := r_log r @ [e]\<rparr>);
     Some (le_Index e # is, r')
   }"

definition ProposeBatch :: "bytes list \<Rightarrow> Raft \<Rightarrow> (raft_error + uint64 list \<times> Raft) option" where
  "ProposeBatch datas r =
     (if r_role r \<noteq> Leader then Some (Inl ErrNotLeader)
      else do {
        (indices, r1) \<leftarrow> append_proposals datas r;
        r2 \<leftarrow> fold_option (\<lambda>p. sendAppendEntries p 0) (r_peers r1) r1;
        r3 \<leftarrow> (if r_peers r2 = [] then maybeAdvanceCommitIndex r2 else Some r2);
        Some (Inr (indices, r3))
      })"

definition Propose :: "bytes \<Rightarrow> Raft \<Rightarrow> (raft_error + Raft) option" where
  "Propose data r = map_option (map_sum id snd) (ProposeBatch [data] r)"

definition RequestReadIndex :: "uint64 \<Rightarrow> Raft \<Rightarrow> (raft_error + Raft) option" where
  "RequestReadIndex ctx r =
     (if r_role r \<noteq> Leader then Some (Inl ErrNotLeader)
      else if hasMajorityCount (card {r_id r}) r
      then Some (Inr (r\<lparr>r_readStates := r_readStates r @ [\<lparr>rs_Index = r_commitIndex r, rs_Context = ctx\<rparr>],
                        r_pendingReads := (r_pendingReads r)(ctx := None)\<rparr>))
      else do {
        r1 \<leftarrow> fold_option (\<lambda>p. sendAppendEntries p ctx) (r_peers r)
               (r\<lparr>r_pendingReads := (r_pendingReads r)
                    (ctx := Some \<lparr>pr_index = r_commitIndex r, pr_acked = {r_id r}\<rparr>)\<rparr>);
        Some (Inr r1)
      })"

section \<open>Events\<close>

text \<open>
  The calls a driver makes on a node. A call that returns an error leaves the node as it was.
\<close>

datatype event =
    ETick
  | ERecv Message
  | EPropose "bytes list"
  | ESnapshot uint64 bytes
  | EReadIndex uint64

fun apply_event :: "event \<Rightarrow> Raft \<Rightarrow> Raft option" where
  "apply_event ETick r = Tick r"
| "apply_event (ERecv m) r = Step m r"
| "apply_event (EPropose ds) r = map_option (case_sum (\<lambda>_. r) snd) (ProposeBatch ds r)"
| "apply_event (ESnapshot i d) r = map_option (case_sum (\<lambda>_. r) id) (CreateSnapshot i d r)"
| "apply_event (EReadIndex c) r = map_option (case_sum (\<lambda>_. r) id) (RequestReadIndex c r)"

end
