(* ===== verification/Raft_Votes.thy ===== *)
theory Raft_Votes
  imports Raft_Core
begin

text \<open>
  What each operation of a node does to its term, its vote, its role and its outbox: the facts the
  cluster-wide argument about elections needs.
\<close>

section \<open>Ballots\<close>

text \<open>
  A ballot is a message by which its sender commits itself in a term: a granted vote, or the request
  of a candidate, which has voted for itself.
\<close>

definition ballot :: "Message \<Rightarrow> (uint64 \<times> uint64) option" where
  "ballot m =
     (if m_Type m = MsgRequestVoteResponse \<and> m_VoteGranted m then Some (m_Term m, m_To m)
      else if m_Type m = MsgRequestVote then Some (m_Term m, m_From m)
      else None)"

definition granted_to :: "Message \<Rightarrow> uint64 \<Rightarrow> uint64 \<Rightarrow> bool" where
  "granted_to m t c \<longleftrightarrow>
     m_Type m = MsgRequestVoteResponse \<and> m_VoteGranted m \<and> m_Term m = t \<and> m_To m = c"

section \<open>Operations that leave the vote alone\<close>

definition quiet :: "Raft \<Rightarrow> Raft \<Rightarrow> bool" where
  "quiet r r' \<longleftrightarrow>
     r_id r' = r_id r \<and> r_peers r' = r_peers r \<and> r_role r' = r_role r
     \<and> r_currentTerm r' = r_currentTerm r \<and> r_votedFor r' = r_votedFor r
     \<and> r_votesReceived r' = r_votesReceived r
     \<and> r_stableTerm r' = r_stableTerm r \<and> r_stableVote r' = r_stableVote r
     \<and> (\<exists>new. r_msgs r' = r_msgs r @ new \<and> (\<forall>m \<in> set new. m_From m = r_id r \<and> ballot m = None))"

lemma quiet_refl [simp, intro]: "quiet r r"
  by (simp add: quiet_def)

lemma quiet_trans [trans]: "quiet r r' \<Longrightarrow> quiet r' r'' \<Longrightarrow> quiet r r''"
  by (auto simp: quiet_def)

lemma quiet_send:
  "m_Type m \<noteq> MsgRequestVote \<Longrightarrow> m_Type m = MsgRequestVoteResponse \<longrightarrow> \<not> m_VoteGranted m \<Longrightarrow>
     quiet r (send m r)"
  by (auto simp: quiet_def send_def ballot_def)

lemma new_Message_simps [simp]:
  "m_Type (new_Message ty to) = ty" "m_To (new_Message ty to) = to"
  "m_VoteGranted (new_Message ty to) = False"
  by (simp_all add: new_Message_def)

lemma quiet_sendInstallSnapshot: "quiet r (sendInstallSnapshot p r)"
  unfolding sendInstallSnapshot_def by (rule quiet_send) simp_all

lemma sendAppendEntries_cases:
  assumes "sendAppendEntries p ctx r = Some r'"
  obtains (snapshot) "r' = sendInstallSnapshot p r"
    | (entries) prev prevTerm lst es f where
        "lastLogIndex r = Some lst" "termAt prev r = Some prevTerm" "Entries prev lst r = Some es"
        "r_nextIndex r p - 1 \<le> prev" "prev = r_nextIndex r p - 1 \<or> prev = r_sentIndex r p"
        "r' = (send ((new_Message MsgAppendEntries p)\<lparr>m_PrevLogIndex := prev, m_PrevLogTerm := prevTerm,
           m_Entries := es, m_LeaderCommit := r_commitIndex r, m_ReadContext := ctx\<rparr>) r)\<lparr>r_sentIndex := f\<rparr>"
        "f = r_sentIndex r \<or> f = (r_sentIndex r)(p := lst)"
proof (cases "\<exists>first. firstLogIndex r = Some first \<and> r_nextIndex r p - 1 < first")
  case True
  with assms have "r' = sendInstallSnapshot p r" by (auto simp: sendAppendEntries_def)
  then show thesis by (rule snapshot)
next
  case False
  define prev where "prev = (if r_nextIndex r p - 1 < r_sentIndex r p then r_sentIndex r p
    else r_nextIndex r p - 1)"
  obtain prevTerm lst es where *: "termAt prev r = Some prevTerm" "lastLogIndex r = Some lst"
    "Entries prev lst r = Some es"
    "r' = (let r1 = send ((new_Message MsgAppendEntries p)\<lparr>m_PrevLogIndex := prev, m_PrevLogTerm := prevTerm,
       m_Entries := es, m_LeaderCommit := r_commitIndex r, m_ReadContext := ctx\<rparr>) r
     in if r_sentIndex r p < lst then r1\<lparr>r_sentIndex := (r_sentIndex r1)(p := lst)\<rparr> else r1)"
    using assms False unfolding sendAppendEntries_def prev_def [symmetric] Let_def
    by (auto simp: bind_eq_Some_conv)
  show thesis
    by (rule entries [OF *(2,1,3), where f = "if r_sentIndex r p < lst then (r_sentIndex r)(p := lst) else r_sentIndex r"])
      (auto simp: prev_def *(4) Let_def send_def)
qed

lemma quiet_sendAppendEntries:
  assumes "sendAppendEntries p ctx r = Some r'"
  shows "quiet r r'"
  using assms
proof (cases rule: sendAppendEntries_cases)
  case snapshot
  then show ?thesis by (simp add: quiet_sendInstallSnapshot)
next
  case (entries prev prevTerm lst es f)
  have "quiet s (s\<lparr>r_sentIndex := f\<rparr>)" for s by (simp add: quiet_def)
  moreover have "quiet r (send ((new_Message MsgAppendEntries p)\<lparr>m_PrevLogIndex := prev,
      m_PrevLogTerm := prevTerm, m_Entries := es, m_LeaderCommit := r_commitIndex r,
      m_ReadContext := ctx\<rparr>) r)"
    by (rule quiet_send) simp_all
  ultimately show ?thesis unfolding entries(6) by (blast intro: quiet_trans)
qed

lemma quiet_fold_option:
  assumes "fold_option f xs r = Some r'" and "\<And>x r r'. f x r = Some r' \<Longrightarrow> quiet r r'"
  shows "quiet r r'"
  using assms(1) by (rule fold_option_invariant) (auto intro: quiet_trans assms(2))

lemma quiet_sendHeartbeats: "sendHeartbeats r = Some r' \<Longrightarrow> quiet r r'"
  unfolding sendHeartbeats_def by (erule quiet_fold_option) (rule quiet_sendAppendEntries)

lemma quiet_maybeAdvanceCommitIndex:
  assumes "maybeAdvanceCommitIndex r = Some r'"
  shows "quiet r r'"
proof -
  obtain n where "advance_loop n r = Some r'"
    using assms by (auto simp: maybeAdvanceCommitIndex_def bind_eq_Some_conv)
  then show ?thesis by (cases rule: advance_loop_cases) (simp_all add: quiet_def)
qed

lemma cut_conflict_shape:
  "cut_conflict idx e r = Some r' \<Longrightarrow>
     r' = r\<lparr>r_log := r_log r', r_unstableIndex := r_unstableIndex r'\<rparr>"
  unfolding cut_conflict_def by (auto simp: bind_eq_Some_conv split: if_splits)

lemma append_entry_shape:
  assumes "append_entry idx e r = Some r'"
  shows "\<exists>l u. r' = r\<lparr>r_log := l, r_unstableIndex := u\<rparr>"
proof -
  obtain r1 where "cut_conflict idx e r = Some r1" "r' = r1 \<or> r' = r1\<lparr>r_log := r_log r1 @ [e]\<rparr>"
    using assms by (auto simp: append_entry_def bind_eq_Some_conv split: if_splits)
  moreover from this(1) obtain l u where "r1 = r\<lparr>r_log := l, r_unstableIndex := u\<rparr>"
    using cut_conflict_shape by blast
  moreover have "(r\<lparr>r_log := l, r_unstableIndex := u\<rparr>)\<lparr>r_log := l'\<rparr> = r\<lparr>r_log := l', r_unstableIndex := u\<rparr>"
    for l' by simp
  ultimately show ?thesis by metis
qed

lemma quiet_log: "quiet r (r\<lparr>r_log := l, r_unstableIndex := u\<rparr>)"
  by (simp add: quiet_def)

lemma quiet_append_entry: "append_entry idx e r = Some r' \<Longrightarrow> quiet r r'"
  by (drule append_entry_shape) (auto simp: quiet_log)

lemma quiet_append_entries: "append_entries idx es r = Some r' \<Longrightarrow> quiet r r'"
  by (induction idx es r arbitrary: r' rule: append_entries.induct)
    (auto simp: bind_eq_Some_conv intro: quiet_trans quiet_append_entry)

section \<open>Role changes\<close>

lemma resetElectionTimeout_simps [simp]:
  "r_id (resetElectionTimeout r) = r_id r" "r_peers (resetElectionTimeout r) = r_peers r"
  "r_role (resetElectionTimeout r) = r_role r" "r_currentTerm (resetElectionTimeout r) = r_currentTerm r"
  "r_votedFor (resetElectionTimeout r) = r_votedFor r"
  "r_votesReceived (resetElectionTimeout r) = r_votesReceived r"
  "r_stableTerm (resetElectionTimeout r) = r_stableTerm r"
  "r_stableVote (resetElectionTimeout r) = r_stableVote r"
  "r_msgs (resetElectionTimeout r) = r_msgs r" "r_log (resetElectionTimeout r) = r_log r"
  "r_commitIndex (resetElectionTimeout r) = r_commitIndex r"
  "r_unstableIndex (resetElectionTimeout r) = r_unstableIndex r"
  "r_snapshot (resetElectionTimeout r) = r_snapshot r"
  "r_stableSnapshotIndex (resetElectionTimeout r) = r_stableSnapshotIndex r"
  by (simp_all add: resetElectionTimeout_def)

lemma send_simps [simp]:
  "r_id (send m r) = r_id r" "r_peers (send m r) = r_peers r" "r_role (send m r) = r_role r"
  "r_currentTerm (send m r) = r_currentTerm r" "r_votedFor (send m r) = r_votedFor r"
  "r_votesReceived (send m r) = r_votesReceived r" "r_stableTerm (send m r) = r_stableTerm r"
  "r_stableVote (send m r) = r_stableVote r" "r_log (send m r) = r_log r"
  "r_msgs (send m r) = r_msgs r @ [m\<lparr>m_From := r_id r, m_Term := r_currentTerm r\<rparr>]"
  "r_commitIndex (send m r) = r_commitIndex r" "r_unstableIndex (send m r) = r_unstableIndex r"
  "r_snapshot (send m r) = r_snapshot r" "r_stableSnapshotIndex (send m r) = r_stableSnapshotIndex r"
  by (simp_all add: send_def)

text \<open>
  The effect of an operation on term, vote, role and outbox. \<open>vs\<close> are the voters whose granted votes
  for this node in its current term the operation may count; \<open>req c t\<close> says that a request for a
  vote by \<open>c\<close> in term \<open>t\<close> has arrived.
\<close>

definition term_ok :: "Raft \<Rightarrow> Raft \<Rightarrow> bool" where
  "term_ok r r' \<longleftrightarrow>
     r_id r' = r_id r \<and> r_peers r' = r_peers r
     \<and> r_stableTerm r' = r_stableTerm r \<and> r_stableVote r' = r_stableVote r
     \<and> r_currentTerm r \<le> r_currentTerm r'
     \<and> (r_currentTerm r' = r_currentTerm r \<longrightarrow> r_votedFor r = 0 \<or> r_votedFor r' = r_votedFor r)"

definition candidate_ok :: "uint64 set \<Rightarrow> Raft \<Rightarrow> Raft \<Rightarrow> bool" where
  "candidate_ok vs r r' \<longleftrightarrow> (r_role r' \<in> {Candidate, Leader} \<longrightarrow>
     r_role r \<in> {Candidate, Leader} \<and> r_currentTerm r' = r_currentTerm r
       \<and> r_votedFor r' = r_votedFor r \<and> r_votesReceived r' \<subseteq> r_votesReceived r \<union> vs
     \<or> r_currentTerm r < r_currentTerm r' \<and> r_votedFor r' = r_id r \<and> r_votesReceived r' = {r_id r})"

definition leader_ok :: "Raft \<Rightarrow> Raft \<Rightarrow> bool" where
  "leader_ok r r' \<longleftrightarrow> (r_role r' = Leader \<longrightarrow>
     r_role r = Leader \<and> r_currentTerm r' = r_currentTerm r \<and> r_votesReceived r' = r_votesReceived r
     \<or> hasMajorityCount (card (r_votesReceived r')) r)"

lemmas vote_defs = term_ok_def candidate_ok_def leader_ok_def

definition sent_ok :: "(uint64 \<Rightarrow> uint64 \<Rightarrow> bool) \<Rightarrow> Raft \<Rightarrow> Raft \<Rightarrow> bool" where
  "sent_ok req r r' \<longleftrightarrow> (\<exists>new. r_msgs r' = r_msgs r @ new \<and>
     (\<forall>m \<in> set new. m_From m = r_id r
        \<and> (\<forall>t c. ballot m = Some (t, c) \<longrightarrow> t = r_currentTerm r' \<and> c = r_votedFor r')
        \<and> (\<forall>t c. granted_to m t c \<longrightarrow> req c t)))"

definition vote_step :: "uint64 set \<Rightarrow> (uint64 \<Rightarrow> uint64 \<Rightarrow> bool) \<Rightarrow> Raft \<Rightarrow> Raft \<Rightarrow> bool" where
  "vote_step vs req r r' \<longleftrightarrow> term_ok r r' \<and> candidate_ok vs r r' \<and> leader_ok r r' \<and> sent_ok req r r'"

lemma vote_stepI:
  "term_ok r r' \<Longrightarrow> candidate_ok vs r r' \<Longrightarrow> leader_ok r r' \<Longrightarrow> sent_ok req r r' \<Longrightarrow> vote_step vs req r r'"
  by (simp add: vote_step_def)

lemma hasMajorityCount_cong: "r_peers r1 = r_peers r \<Longrightarrow> hasMajorityCount n r1 = hasMajorityCount n r"
  by (simp add: hasMajorityCount_def clusterSize_def)

lemma ballot_None_not_granted: "ballot m = None \<Longrightarrow> \<not> granted_to m t c"
  by (auto simp: ballot_def granted_to_def)

lemma sent_ok_quiet:
  assumes "sent_ok req r r'" "quiet r' r''" "r_id r' = r_id r"
  shows "sent_ok req r r''"
proof -
  obtain new where new: "r_msgs r' = r_msgs r @ new" "\<forall>m \<in> set new. m_From m = r_id r
      \<and> (\<forall>t c. ballot m = Some (t, c) \<longrightarrow> t = r_currentTerm r' \<and> c = r_votedFor r')
      \<and> (\<forall>t c. granted_to m t c \<longrightarrow> req c t)"
    using assms(1) unfolding sent_ok_def by blast
  obtain new' where new': "r_msgs r'' = r_msgs r' @ new'"
    "\<forall>m \<in> set new'. m_From m = r_id r' \<and> ballot m = None"
    using assms(2) unfolding quiet_def by blast
  have eq: "r_currentTerm r'' = r_currentTerm r'" "r_votedFor r'' = r_votedFor r'"
    using assms(2) by (simp_all add: quiet_def)
  show ?thesis
    unfolding sent_ok_def eq
    by (rule exI [of _ "new @ new'"]) (use new new' assms(3) in \<open>auto simp: ballot_None_not_granted\<close>)
qed

lemma vote_step_quiet:
  assumes "vote_step vs req r r'" "quiet r' r''"
  shows "vote_step vs req r r''"
proof (rule vote_stepI)
  show "term_ok r r''" "candidate_ok vs r r''" "leader_ok r r''"
    using assms by (simp_all add: vote_step_def vote_defs quiet_def)
  have "r_id r' = r_id r" using assms(1) by (simp add: vote_step_def term_ok_def)
  moreover have "sent_ok req r r'" using assms(1) by (simp add: vote_step_def)
  ultimately show "sent_ok req r r''" by (metis sent_ok_quiet assms(2))
qed

lemma vote_step_refl [simp, intro]: "vote_step vs req r r"
  by (simp add: vote_step_def vote_defs sent_ok_def)

lemma quiet_vote_step: "quiet r r' \<Longrightarrow> vote_step vs req r r'"
  by (rule vote_step_quiet [OF vote_step_refl])

lemma vote_step_becomeFollower: "vote_step vs req r (becomeFollower t r)"
  by (rule vote_stepI) (auto simp: vote_defs sent_ok_def becomeFollower_def)

lemma vote_step_becomeFollower_leader:
  "vote_step vs req r ((becomeFollower t r)\<lparr>r_leaderID := x\<rparr>)"
  by (rule vote_step_quiet [OF vote_step_becomeFollower [of vs req r t]]) (simp add: quiet_def)

lemma ask_votes_shape:
  assumes "ask_votes ty r = Some r'"
  shows "\<exists>new. r' = r\<lparr>r_msgs := r_msgs r @ new\<rparr> \<and> (\<forall>m \<in> set new. m_Type m = ty \<and> m_From m = r_id r
    \<and> m_Term m = r_currentTerm r \<and> \<not> m_VoteGranted m)"
  using assms unfolding ask_votes_def
proof (rule fold_option_invariant)
  fix x s s'
  assume *: "\<exists>new. s = r\<lparr>r_msgs := r_msgs r @ new\<rparr> \<and> (\<forall>m \<in> set new. m_Type m = ty \<and> m_From m = r_id r
    \<and> m_Term m = r_currentTerm r \<and> \<not> m_VoteGranted m)"
    and "lastLogIndex s \<bind> (\<lambda>li. lastLogTerm s \<bind>
      (\<lambda>lt. Some (send ((new_Message ty x)\<lparr>m_LastLogIndex := li, m_LastLogTerm := lt\<rparr>) s))) = Some s'"
  then obtain li lt new where s: "s = r\<lparr>r_msgs := r_msgs r @ new\<rparr>"
    "\<forall>m \<in> set new. m_Type m = ty \<and> m_From m = r_id r \<and> m_Term m = r_currentTerm r \<and> \<not> m_VoteGranted m"
    "s' = send ((new_Message ty x)\<lparr>m_LastLogIndex := li, m_LastLogTerm := lt\<rparr>) s"
    by (auto simp: bind_eq_Some_conv)
  then show "\<exists>new. s' = r\<lparr>r_msgs := r_msgs r @ new\<rparr> \<and> (\<forall>m \<in> set new. m_Type m = ty \<and> m_From m = r_id r
    \<and> m_Term m = r_currentTerm r \<and> \<not> m_VoteGranted m)"
    by (intro exI [of _ "new @ [((new_Message ty x)\<lparr>m_LastLogIndex := li, m_LastLogTerm := lt\<rparr>)
        \<lparr>m_From := r_id r, m_Term := r_currentTerm r\<rparr>]"]) (auto simp: send_def)
qed (auto intro: exI [of _ "[]"])

lemma quiet_becomeLeader:
  assumes "becomeLeader r = Some r'"
  shows "\<exists>r1. quiet r1 r' \<and> r_id r1 = r_id r \<and> r_peers r1 = r_peers r \<and> r_role r1 = Leader
    \<and> r_currentTerm r1 = r_currentTerm r \<and> r_votedFor r1 = r_votedFor r
    \<and> r_votesReceived r1 = r_votesReceived r \<and> r_stableTerm r1 = r_stableTerm r
    \<and> r_stableVote r1 = r_stableVote r \<and> r_msgs r1 = r_msgs r"
proof -
  obtain lst r2 where r2: "sendHeartbeats (r\<lparr>r_role := Leader, r_leaderID := r_id r,
      r_nextIndex := (\<lambda>p. if p \<in> set (r_peers r) then lst + 1 else 0),
      r_matchIndex := (\<lambda>_. 0), r_sentIndex := (\<lambda>_. 0), r_pendingReads := (\<lambda>_. None),
      r_heartbeatElapsed := 0\<rparr>) = Some r2" (is "sendHeartbeats ?r1 = _")
    "(if r_peers r = [] then maybeAdvanceCommitIndex r2 else Some r2) = Some r'"
    using assms by (auto simp: becomeLeader_def bind_eq_Some_conv Let_def)
  have "quiet r2 r'" using r2(2) by (auto intro: quiet_maybeAdvanceCommitIndex split: if_splits)
  with quiet_sendHeartbeats [OF r2(1)] have "quiet ?r1 r'" by (rule quiet_trans)
  then show ?thesis by (intro exI [of _ ?r1]) simp
qed

text \<open>A new candidacy, as long as the term counter does not wrap.\<close>

lemma vote_step_becomeCandidate:
  assumes "becomeCandidate r = Some r'" and "r_currentTerm r < r_currentTerm r + 1"
  shows "vote_step vs req r r'"
proof -
  let ?r1 = "resetElectionTimeout (r\<lparr>r_currentTerm := r_currentTerm r + 1, r_role := Candidate,
    r_votedFor := r_id r, r_leaderID := 0, r_votesReceived := {r_id r}\<rparr>)"
  show ?thesis
  proof (cases "r_peers r = []")
    case True
    with assms have "becomeLeader ?r1 = Some r'" by (simp add: becomeCandidate_def)
    from quiet_becomeLeader [OF this] obtain r1 where r1: "quiet r1 r'" "r_id r1 = r_id r"
      "r_peers r1 = r_peers r" "r_role r1 = Leader" "r_currentTerm r1 = r_currentTerm r + 1"
      "r_votedFor r1 = r_id r" "r_votesReceived r1 = {r_id r}" "r_stableTerm r1 = r_stableTerm r"
      "r_stableVote r1 = r_stableVote r" "r_msgs r1 = r_msgs r"
      by auto
    have "vote_step vs req r r1"
      using assms(2) True by (simp add: vote_step_def vote_defs sent_ok_def r1 hasMajorityCount_def clusterSize_def)
    then show ?thesis using r1(1) by (rule vote_step_quiet)
  next
    case False
    with assms have "ask_votes MsgRequestVote ?r1 = Some r'" by (simp add: becomeCandidate_def Let_def)
    from ask_votes_shape [OF this] obtain new where new: "r' = ?r1\<lparr>r_msgs := r_msgs ?r1 @ new\<rparr>"
      "\<forall>m \<in> set new. m_Type m = MsgRequestVote \<and> m_From m = r_id r \<and> m_Term m = r_currentTerm r + 1
        \<and> \<not> m_VoteGranted m" by auto
    show ?thesis
    proof (rule vote_stepI)
      show "term_ok r r'" "candidate_ok vs r r'" "leader_ok r r'"
        using assms(2) by (simp_all add: vote_defs new(1))
      show "sent_ok req r r'"
        unfolding sent_ok_def
        by (rule exI [of _ new]) (use new in \<open>auto simp: ballot_def granted_to_def\<close>)
    qed
  qed
qed

text \<open>Fields that play no part in votes may change before a step.\<close>

lemma vote_step_from:
  assumes "vote_step vs req r1 r'"
    and "r_id r1 = r_id r" "r_peers r1 = r_peers r" "r_role r1 = r_role r"
      "r_currentTerm r1 = r_currentTerm r" "r_votedFor r1 = r_votedFor r"
      "r_votesReceived r1 = r_votesReceived r" "r_stableTerm r1 = r_stableTerm r"
      "r_stableVote r1 = r_stableVote r" "r_msgs r1 = r_msgs r"
  shows "vote_step vs req r r'"
  using assms(1)
  by (simp add: vote_step_def vote_defs sent_ok_def hasMajorityCount_cong [OF assms(3)] assms(2-))

text \<open>The same with a node that was no candidate and becomes a pre-candidate first.\<close>

lemma vote_step_from_idle:
  assumes "vote_step vs req r1 r'" "r_role r1 \<notin> {Candidate, Leader}"
    and "r_id r1 = r_id r" "r_peers r1 = r_peers r"
      "r_currentTerm r1 = r_currentTerm r" "r_votedFor r1 = r_votedFor r"
      "r_stableTerm r1 = r_stableTerm r"
      "r_stableVote r1 = r_stableVote r" "r_msgs r1 = r_msgs r"
  shows "vote_step vs req r r'"
proof -
  have no: "r_role r1 \<noteq> Candidate" "r_role r1 \<noteq> Leader" using assms(2) by auto
  note v = assms(1) [unfolded vote_step_def]
  show ?thesis
  proof (rule vote_stepI)
    show "term_ok r r'" using v by (simp add: term_ok_def assms(3-))
    show "candidate_ok vs r r'" using v no by (simp add: candidate_ok_def assms(3-))
    show "leader_ok r r'" using v no by (simp add: leader_ok_def hasMajorityCount_cong [OF assms(4)])
    show "sent_ok req r r'" using v by (simp add: sent_ok_def assms(3-))
  qed
qed

lemma vote_step_becomePreCandidate:
  assumes "becomePreCandidate r = Some r'" and "r_currentTerm r < r_currentTerm r + 1"
  shows "vote_step vs req r r'"
proof -
  let ?r1 = "resetElectionTimeout (r\<lparr>r_role := PreCandidate, r_leaderID := 0, r_preVotesReceived := {r_id r}\<rparr>)"
  have "vote_step vs req ?r1 r'"
  proof (cases "r_peers r = []")
    case True
    with assms show ?thesis
      by (intro vote_step_becomeCandidate) (simp_all add: becomePreCandidate_def Let_def)
  next
    case False
    with assms have "ask_votes MsgPreVote ?r1 = Some r'" by (simp add: becomePreCandidate_def Let_def)
    from ask_votes_shape [OF this] obtain new where new: "r' = ?r1\<lparr>r_msgs := r_msgs ?r1 @ new\<rparr>"
      "\<forall>m \<in> set new. m_Type m = MsgPreVote \<and> m_From m = r_id ?r1 \<and> m_Term m = r_currentTerm ?r1
        \<and> \<not> m_VoteGranted m" by blast
    then have "quiet ?r1 r'" by (auto simp: quiet_def ballot_def)
    then show ?thesis by (rule quiet_vote_step)
  qed
  then show ?thesis by (rule vote_step_from_idle) simp_all
qed

lemma vote_step_Tick:
  assumes "Tick r = Some r'" and "r_currentTerm r < r_currentTerm r + 1"
  shows "vote_step vs req r r'"
proof (cases "r_role r = Leader")
  case True
  with assms obtain h where "r' = r\<lparr>r_heartbeatElapsed := h\<rparr> \<or> sendHeartbeats (r\<lparr>r_heartbeatElapsed := h\<rparr>) = Some r'"
    by (auto simp: Tick_def Let_def split: if_splits)
  moreover have "quiet r (r\<lparr>r_heartbeatElapsed := h\<rparr>)" by (simp add: quiet_def)
  ultimately have "quiet r r'" by (auto intro: quiet_trans quiet_sendHeartbeats)
  then show ?thesis by (rule quiet_vote_step)
next
  case False
  let ?r1 = "r\<lparr>r_electionElapsed := r_electionElapsed r + 1\<rparr>"
  have "vote_step vs req ?r1 r'"
  proof (cases "r' = ?r1")
    case False
    with assms \<open>r_role r \<noteq> Leader\<close> have "becomePreCandidate ?r1 = Some r'"
      by (auto simp: Tick_def Let_def split: if_splits)
    then show ?thesis by (rule vote_step_becomePreCandidate) (use assms(2) in simp)
  qed simp
  then show ?thesis by (rule vote_step_from) simp_all
qed

lemma vote_step_send_quiet:
  assumes "vote_step vs req r r'" "m_Type m \<noteq> MsgRequestVote"
    and "m_Type m = MsgRequestVoteResponse \<longrightarrow> \<not> m_VoteGranted m"
  shows "vote_step vs req r (send m r')"
  using vote_step_quiet [OF assms(1) quiet_send [OF assms(2,3)]] .

lemma vote_step_handlePreVote: "handlePreVote m r = Some r' \<Longrightarrow> vote_step vs req r r'"
  by (auto simp: handlePreVote_def Let_def bind_eq_Some_conv split: if_splits
      intro!: vote_step_send_quiet)

lemma vote_step_handlePreVoteResponse:
  assumes "handlePreVoteResponse m r = Some r'" and "r_currentTerm r < r_currentTerm r + 1"
  shows "vote_step vs req r r'"
proof -
  let ?r1 = "r\<lparr>r_preVotesReceived := insert (m_From m) (r_preVotesReceived r)\<rparr>"
  have q: "quiet r ?r1" by (simp add: quiet_def)
  show ?thesis
  proof (cases "r_role r = PreCandidate \<and> m_VoteGranted m")
    case False
    with assms(1) have "r' = r" by (auto simp: handlePreVoteResponse_def split: if_splits)
    then show ?thesis by simp
  next
    case True
    then have "(if hasMajorityCount (card (r_preVotesReceived ?r1)) ?r1
      then becomeCandidate ?r1 else Some ?r1) = Some r'"
      using assms(1) unfolding handlePreVoteResponse_def Let_def by simp
    then consider "becomeCandidate ?r1 = Some r'" | "?r1 = r'" by (metis option.inject)
    then show ?thesis
    proof cases
      case 1
      then have "vote_step vs req ?r1 r'" by (rule vote_step_becomeCandidate) (use assms(2) in simp)
      then show ?thesis by (rule vote_step_from) simp_all
    next
      case 2
      with q show ?thesis by (metis quiet_vote_step)
    qed
  qed
qed

lemma vote_step_handleRequestVote:
  assumes "handleRequestVote m r = Some r'" and "req (m_From m) (m_Term m)"
    and "r_role r \<in> {Candidate, Leader} \<longrightarrow> r_votedFor r \<noteq> 0"
  shows "vote_step vs req r r'"
proof -
  define r1 where "r1 = (if r_currentTerm r < m_Term m then becomeFollower (m_Term m) r else r)"
  have v1: "vote_step vs req r r1" by (simp add: r1_def vote_step_becomeFollower)
  have t: "m_Term m \<le> r_currentTerm r1" by (auto simp: r1_def becomeFollower_def)
  have msgs: "r_msgs r1 = r_msgs r" "r_id r1 = r_id r" by (auto simp: r1_def becomeFollower_def)
  let ?reply = "\<lambda>g. (new_Message MsgRequestVoteResponse (m_From m))\<lparr>m_VoteGranted := g\<rparr>"
  consider (no) "r' = send (?reply False) r1"
    | (grant) "m_Term m = r_currentTerm r1" "r_votedFor r1 = 0 \<or> r_votedFor r1 = m_From m"
        "r' = send (?reply True) (resetElectionTimeout (r1\<lparr>r_votedFor := m_From m\<rparr>))"
  proof (cases "m_Term m < r_currentTerm r1")
    case True
    with assms(1) have "r' = send (?reply False) r1"
      by (simp add: handleRequestVote_def r1_def [symmetric] Let_def)
    then show thesis by (rule no)
  next
    case False
    then obtain logOK where l: "log_up_to_date m r1 = Some logOK"
      using assms(1) by (auto simp: handleRequestVote_def r1_def [symmetric] Let_def bind_eq_Some_conv)
    let ?g = "(r_votedFor r1 = 0 \<or> r_votedFor r1 = m_From m) \<and> logOK"
    from False l assms(1) have r': "r' = send (?reply ?g)
        (if ?g then resetElectionTimeout (r1\<lparr>r_votedFor := m_From m\<rparr>) else r1)"
      by (simp add: handleRequestVote_def r1_def [symmetric] Let_def)
    show thesis
    proof (cases ?g)
      case True
      then show thesis using r' False t by (intro grant) auto
    next
      case g: False
      have "r' = send (?reply False) r1" using r' by (simp only: g if_False)
      then show thesis by (rule no)
    qed
  qed
  then show ?thesis
  proof cases
    case no
    have "vote_step vs req r (send (?reply False) r1)"
      by (rule vote_step_send_quiet [OF v1]) simp_all
    with no show ?thesis by simp
  next
    case grant
    have 1: "r_role r1 \<in> {Candidate, Leader} \<longrightarrow> r1 = r" by (auto simp: r1_def becomeFollower_def)
    note v = v1 [unfolded vote_step_def]
    show ?thesis
    proof (rule vote_stepI)
      show "term_ok r r'" using v grant by (auto simp: term_ok_def)
      show "candidate_ok vs r r'" using 1 grant assms(3) by (auto simp: candidate_ok_def)
      show "leader_ok r r'" using 1 grant by (auto simp: leader_ok_def)
      show "sent_ok req r r'"
        unfolding sent_ok_def using msgs grant assms(2)
        by (intro exI [of _ "[(?reply True)\<lparr>m_From := r_id r, m_Term := r_currentTerm r1\<rparr>]"])
          (auto simp: ballot_def granted_to_def)
    qed
  qed
qed

lemma vote_step_handleRequestVoteResponse:
  assumes "handleRequestVoteResponse m r = Some r'" and "m_To m = r_id r" "m_Type m = MsgRequestVoteResponse"
    and "\<And>t c. granted_to m t c \<Longrightarrow> t = r_currentTerm r \<Longrightarrow> c = r_id r \<Longrightarrow> m_From m \<in> vs"
  shows "vote_step vs req r r'"
proof -
  let ?r1 = "r\<lparr>r_votesReceived := insert (m_From m) (r_votesReceived r)\<rparr>"
  consider (newer) "r' = becomeFollower (m_Term m) r" | (same) "r' = r"
    | (count) "m_Term m = r_currentTerm r" "r_role r = Candidate" "m_VoteGranted m"
        "(if hasMajorityCount (card (r_votesReceived ?r1)) ?r1 then becomeLeader ?r1 else Some ?r1) = Some r'"
    using assms(1) unfolding handleRequestVoteResponse_def Let_def
    by (metis (no_types, lifting) linorder_less_linear option.inject)
  then show ?thesis
  proof cases
    case count
    then have vs: "m_From m \<in> vs" using assms by (simp add: granted_to_def)
    show ?thesis
    proof (cases "hasMajorityCount (card (r_votesReceived ?r1)) ?r1")
      case True
      with count have "becomeLeader ?r1 = Some r'" by simp
      from quiet_becomeLeader [OF this] obtain r1 where r1: "quiet r1 r'" "r_id r1 = r_id r"
        "r_peers r1 = r_peers r" "r_role r1 = Leader" "r_currentTerm r1 = r_currentTerm r"
        "r_votedFor r1 = r_votedFor r" "r_votesReceived r1 = insert (m_From m) (r_votesReceived r)"
        "r_stableTerm r1 = r_stableTerm r" "r_stableVote r1 = r_stableVote r" "r_msgs r1 = r_msgs r"
        by auto
      have "hasMajorityCount (card (r_votesReceived r1)) r"
        using True by (simp add: r1 hasMajorityCount_def clusterSize_def)
      then have "vote_step vs req r r1"
        using vs count by (intro vote_stepI) (auto simp: vote_defs sent_ok_def r1)
      then show ?thesis using r1(1) by (rule vote_step_quiet)
    next
      case False
      with count have "r' = ?r1" by simp
      then show ?thesis
        using vs count by (intro vote_stepI) (auto simp: vote_defs sent_ok_def)
    qed
  qed (simp_all add: vote_step_becomeFollower)
qed

text \<open>The three ways \<open>handleAppendEntries\<close> returns.\<close>

lemma handleAppendEntries_cases:
  assumes "handleAppendEntries m r = Some r'"
  defines "r1 \<equiv> (becomeFollower (m_Term m) r)\<lparr>r_leaderID := m_From m\<rparr>"
  obtains (stale) "m_Term m < r_currentTerm r"
        "r' = send ((new_Message MsgAppendEntriesResponse (m_From m))\<lparr>m_Success := False\<rparr>) r"
    | (reject) lst where "r_currentTerm r \<le> m_Term m" "lastLogIndex r1 = Some lst"
        "lst < m_PrevLogIndex m \<or> termAt (m_PrevLogIndex m) r1 \<noteq> Some (m_PrevLogTerm m)"
        "r' = send ((new_Message MsgAppendEntriesResponse (m_From m))\<lparr>m_ReadContext := m_ReadContext m\<rparr>) r1"
    | (accept) lst r2 lst2 where "r_currentTerm r \<le> m_Term m" "lastLogIndex r1 = Some lst"
        "m_PrevLogIndex m \<le> lst" "termAt (m_PrevLogIndex m) r1 = Some (m_PrevLogTerm m)"
        "append_entries (m_PrevLogIndex m + 1) (m_Entries m) r1 = Some r2" "lastLogIndex r2 = Some lst2"
        "r' = send ((new_Message MsgAppendEntriesResponse (m_From m))\<lparr>m_ReadContext := m_ReadContext m,
           m_Success := True, m_MatchIndex := m_PrevLogIndex m + word_of_nat (length (m_Entries m))\<rparr>)
           (r2\<lparr>r_commitIndex := (if r_commitIndex r2 < m_LeaderCommit m
              then min (m_LeaderCommit m) lst2 else r_commitIndex r2)\<rparr>)"
proof (cases "m_Term m < r_currentTerm r")
  case True
  with assms(1) show thesis by (intro stale) (simp_all add: handleAppendEntries_def)
next
  case False
  note def = assms(1) [unfolded handleAppendEntries_def Let_def r1_def [symmetric] if_not_P [OF False]]
  obtain lst where lst: "lastLogIndex r1 = Some lst" using def by (auto simp: bind_eq_Some_conv)
  show thesis
  proof (cases "lst < m_PrevLogIndex m \<or> termAt (m_PrevLogIndex m) r1 \<noteq> Some (m_PrevLogTerm m)")
    case True
    show thesis
    proof (rule reject [OF _ lst True])
      show "r' = send ((new_Message MsgAppendEntriesResponse (m_From m))\<lparr>m_ReadContext := m_ReadContext m\<rparr>) r1"
        using def lst True by (cases "termAt (m_PrevLogIndex m) r1") (auto split: if_splits)
    qed (use False in simp)
  next
    case ok: False
    then obtain r2 lst2 where r2: "append_entries (m_PrevLogIndex m + 1) (m_Entries m) r1 = Some r2"
      "lastLogIndex r2 = Some lst2"
      using def lst by (auto simp: bind_eq_Some_conv)
    show thesis
    proof (rule accept [OF _ lst _ _ r2])
      show "r' = send ((new_Message MsgAppendEntriesResponse (m_From m))\<lparr>m_ReadContext := m_ReadContext m,
           m_Success := True, m_MatchIndex := m_PrevLogIndex m + word_of_nat (length (m_Entries m))\<rparr>)
           (r2\<lparr>r_commitIndex := (if r_commitIndex r2 < m_LeaderCommit m
              then min (m_LeaderCommit m) lst2 else r_commitIndex r2)\<rparr>)"
        using def lst ok r2 by auto
    qed (use False ok in auto)
  qed
qed

lemma vote_step_handleAppendEntries:
  assumes "handleAppendEntries m r = Some r'"
  shows "vote_step vs req r r'"
proof -
  let ?r1 = "(becomeFollower (m_Term m) r)\<lparr>r_leaderID := m_From m\<rparr>"
  have v1: "vote_step vs req r ?r1" by (rule vote_step_becomeFollower_leader)
  have ok: "vote_step vs req r (send x s)" if "vote_step vs req r s" "m_Type x = MsgAppendEntriesResponse" for x s
    by (rule vote_step_send_quiet [OF that(1)]) (simp_all add: that(2))
  from assms show ?thesis
  proof (cases rule: handleAppendEntries_cases)
    case stale
    show ?thesis unfolding stale(2) by (rule ok) simp_all
  next
    case (reject lst)
    show ?thesis unfolding reject(4) by (rule ok [OF v1]) simp
  next
    case (accept lst r2 lst2)
    have "quiet ?r1 r2" using accept(5) by (rule quiet_append_entries)
    moreover have "quiet r2 (r2\<lparr>r_commitIndex := c\<rparr>)" for c by (simp add: quiet_def)
    ultimately have "vote_step vs req r (r2\<lparr>r_commitIndex := c\<rparr>)" for c
      using v1 by (blast intro: vote_step_quiet)
    then show ?thesis unfolding accept(7) by (rule ok) simp
  qed
qed

lemma quiet_ackReadIndex: "quiet r (ackReadIndex ctx p r)"
  by (auto simp: ackReadIndex_def quiet_def Let_def split: option.split)

lemma handleAppendEntriesResponse_cases:
  assumes "handleAppendEntriesResponse m r = Some r'"
  defines "r1 \<equiv> (if m_ReadContext m \<noteq> 0 then ackReadIndex (m_ReadContext m) (m_From m) r else r)"
  obtains (newer) "r_currentTerm r < m_Term m" "r' = becomeFollower (m_Term m) r"
    | (ignore) "r' = r"
    | (success) "m_Term m = r_currentTerm r" "r_role r = Leader" "m_Success m"
        "maybeAdvanceCommitIndex (r1\<lparr>
           r_matchIndex := (r_matchIndex r1)(m_From m := (if r_matchIndex r1 (m_From m) < m_MatchIndex m
             then m_MatchIndex m else r_matchIndex r1 (m_From m))),
           r_nextIndex := (r_nextIndex r1)(m_From m := m_MatchIndex m + 1)\<rparr>) = Some r'"
    | (failure) "m_Term m = r_currentTerm r" "r_role r = Leader" "\<not> m_Success m"
        "sendAppendEntries (m_From m) 0 (r1\<lparr>
           r_nextIndex := (r_nextIndex r1)(m_From m := (if 1 < r_nextIndex r1 (m_From m)
             then r_nextIndex r1 (m_From m) - 1 else r_nextIndex r1 (m_From m))),
           r_sentIndex := (r_sentIndex r1)(m_From m := 0)\<rparr>) = Some r'"
proof (cases "r_currentTerm r < m_Term m \<or> m_Term m < r_currentTerm r \<or> r_role r \<noteq> Leader")
  case True
  then consider "r_currentTerm r < m_Term m" "r' = becomeFollower (m_Term m) r" | "r' = r"
    using assms(1) by (auto simp: handleAppendEntriesResponse_def split: if_splits)
  then show thesis using newer ignore by cases
next
  case False
  then have eq: "m_Term m = r_currentTerm r" "r_role r = Leader" by auto
  note def = assms(1) [unfolded handleAppendEntriesResponse_def Let_def r1_def [symmetric]]
  show thesis
  proof (cases "m_Success m")
    case True
    show thesis
      by (rule success [OF eq True]) (use def eq True in \<open>simp split: if_splits\<close>)
  next
    case no: False
    show thesis
      by (rule failure [OF eq no]) (use def eq no in \<open>simp split: if_splits\<close>)
  qed
qed

lemma vote_step_handleAppendEntriesResponse:
  assumes "handleAppendEntriesResponse m r = Some r'"
  shows "vote_step vs req r r'"
proof -
  let ?r1 = "if m_ReadContext m \<noteq> 0 then ackReadIndex (m_ReadContext m) (m_From m) r else r"
  have q1: "quiet r ?r1" by (simp add: quiet_ackReadIndex)
  have q: "quiet s (s\<lparr>r_matchIndex := n, r_nextIndex := k\<rparr>)" "quiet s (s\<lparr>r_nextIndex := n, r_sentIndex := k\<rparr>)" for s n k
    by (simp_all add: quiet_def)
  from assms show ?thesis
  proof (cases rule: handleAppendEntriesResponse_cases)
    case success
    from quiet_trans [OF quiet_trans [OF q1 q(1)] quiet_maybeAdvanceCommitIndex [OF success(4)]]
    show ?thesis by (rule quiet_vote_step)
  next
    case failure
    from quiet_trans [OF quiet_trans [OF q1 q(2)] quiet_sendAppendEntries [OF failure(4)]]
    show ?thesis by (rule quiet_vote_step)
  qed (simp_all add: vote_step_becomeFollower)
qed

lemma handleInstallSnapshot_cases:
  assumes "handleInstallSnapshot m r = Some r'"
  defines "r1 \<equiv> (becomeFollower (m_Term m) r)\<lparr>r_leaderID := m_From m\<rparr>"
    and "li \<equiv> sn_LastIncludedIndex (m_Snapshot m)"
  obtains (stale) first where "firstLogIndex r = Some first" "m_Term m < r_currentTerm r"
        "r' = send ((new_Message MsgInstallSnapshotResponse (m_From m))\<lparr>m_MatchIndex := first\<rparr>) r"
    | (covered) first where "firstLogIndex r = Some first" "r_currentTerm r \<le> m_Term m" "li \<le> first"
        "r' = send ((new_Message MsgInstallSnapshotResponse (m_From m))\<lparr>m_MatchIndex := first\<rparr>) r1"
    | (install) first where "firstLogIndex r = Some first" "r_currentTerm r \<le> m_Term m" "first < li"
        "r' = send ((new_Message MsgInstallSnapshotResponse (m_From m))\<lparr>m_MatchIndex := li\<rparr>)
           (r1\<lparr>r_log := [\<lparr>le_Term = sn_LastIncludedTerm (m_Snapshot m), le_Index = li, le_Data = []\<rparr>],
               r_commitIndex := (if r_commitIndex r1 < li then li else r_commitIndex r1),
               r_unstableIndex := li + 1,
               r_snapshot := m_Snapshot m,
               r_pendingSnapshotToApply := Some (m_Snapshot m)\<rparr>)"
proof -
  obtain first where f: "firstLogIndex r = Some first"
    using assms(1) by (auto simp: handleInstallSnapshot_def bind_eq_Some_conv)
  note def = assms(1) [unfolded handleInstallSnapshot_def Let_def r1_def [symmetric] li_def [symmetric]]
  consider "m_Term m < r_currentTerm r" | "\<not> m_Term m < r_currentTerm r" "li \<le> first"
    | "\<not> m_Term m < r_currentTerm r" "\<not> li \<le> first" by fastforce
  then show thesis
  proof cases
    case 1
    then show thesis using def f by (intro stale [OF f]) simp_all
  next
    case 2
    then show thesis using def f by (intro covered [OF f]) simp_all
  next
    case 3
    then show thesis using def f by (intro install [OF f]) simp_all
  qed
qed

lemma vote_step_handleInstallSnapshot:
  assumes "handleInstallSnapshot m r = Some r'"
  shows "vote_step vs req r r'"
proof -
  let ?r1 = "(becomeFollower (m_Term m) r)\<lparr>r_leaderID := m_From m\<rparr>"
  have v1: "vote_step vs req r ?r1" by (rule vote_step_becomeFollower_leader)
  have ok: "vote_step vs req r (send x s)" if "vote_step vs req r s" "m_Type x = MsgInstallSnapshotResponse" for x s
    by (rule vote_step_send_quiet [OF that(1)]) (simp_all add: that(2))
  from assms show ?thesis
  proof (cases rule: handleInstallSnapshot_cases)
    case (install first)
    have "quiet ?r1 (?r1\<lparr>r_log := l, r_commitIndex := c, r_unstableIndex := u, r_snapshot := sn,
           r_pendingSnapshotToApply := ps\<rparr>)" for l c u sn ps
      by (simp add: quiet_def)
    with v1 have "vote_step vs req r (?r1\<lparr>r_log := l, r_commitIndex := c, r_unstableIndex := u,
        r_snapshot := sn, r_pendingSnapshotToApply := ps\<rparr>)" for l c u sn ps
      by (rule vote_step_quiet)
    then show ?thesis unfolding install(4) by (rule ok) simp
  qed (use v1 ok in auto)
qed

lemma handleInstallSnapshotResponse_cases:
  assumes "handleInstallSnapshotResponse m r = Some r'"
  obtains (newer) "r_currentTerm r < m_Term m" "r' = becomeFollower (m_Term m) r"
    | (ignore) "r' = r"
    | (ack) "m_Term m = r_currentTerm r" "r_role r = Leader"
        "maybeAdvanceCommitIndex (r\<lparr>
           r_matchIndex := (r_matchIndex r)(m_From m := (if r_matchIndex r (m_From m) < m_MatchIndex m
             then m_MatchIndex m else r_matchIndex r (m_From m))),
           r_nextIndex := (r_nextIndex r)(m_From m := (if r_nextIndex r (m_From m) < m_MatchIndex m + 1
             then m_MatchIndex m + 1 else r_nextIndex r (m_From m)))\<rparr>) = Some r'"
proof (cases "r_currentTerm r < m_Term m \<or> m_Term m < r_currentTerm r \<or> r_role r \<noteq> Leader")
  case True
  then consider "r_currentTerm r < m_Term m" "r' = becomeFollower (m_Term m) r" | "r' = r"
    using assms(1) by (auto simp: handleInstallSnapshotResponse_def split: if_splits)
  then show thesis using newer ignore by cases
next
  case False
  then have eq: "m_Term m = r_currentTerm r" "r_role r = Leader" by auto
  show thesis
    by (rule ack [OF eq])
      (use assms eq in \<open>simp add: handleInstallSnapshotResponse_def Let_def split: if_splits\<close>)
qed

lemma vote_step_handleInstallSnapshotResponse:
  assumes "handleInstallSnapshotResponse m r = Some r'"
  shows "vote_step vs req r r'"
  using assms
proof (cases rule: handleInstallSnapshotResponse_cases)
  case ack
  have "quiet s (s\<lparr>r_matchIndex := n, r_nextIndex := k\<rparr>)" for s n k by (simp add: quiet_def)
  from quiet_trans [OF this quiet_maybeAdvanceCommitIndex [OF ack(3)]]
  show ?thesis by (rule quiet_vote_step)
qed (simp_all add: vote_step_becomeFollower)

section \<open>Every event\<close>

definition ev_votes :: "event \<Rightarrow> Raft \<Rightarrow> uint64 set" where
  "ev_votes ev r = {v. \<exists>m. ev = ERecv m \<and> m_From m = v \<and> granted_to m (r_currentTerm r) (r_id r)}"

definition ev_request :: "event \<Rightarrow> uint64 \<Rightarrow> uint64 \<Rightarrow> bool" where
  "ev_request ev c t \<longleftrightarrow> (\<exists>m. ev = ERecv m \<and> m_Type m = MsgRequestVote \<and> m_From m = c \<and> m_Term m = t)"

lemma vote_step_Step:
  assumes "Step m r = Some r'" and "r_currentTerm r < r_currentTerm r + 1"
    and "r_role r \<in> {Candidate, Leader} \<longrightarrow> r_votedFor r \<noteq> 0"
  shows "vote_step (ev_votes (ERecv m) r) (ev_request (ERecv m)) r r'"
proof (cases "m_To m = r_id r")
  case False
  with assms(1) show ?thesis by (simp add: Step_def)
next
  case to: True
  show ?thesis
  proof (cases "m_Type m")
    case MsgRequestVote
    then have "ev_request (ERecv m) (m_From m) (m_Term m)" by (simp add: ev_request_def)
    with assms to MsgRequestVote show ?thesis
      by (intro vote_step_handleRequestVote [of m]) (simp_all add: Step_def)
  next
    case MsgRequestVoteResponse
    with assms(1) to show ?thesis
      by (intro vote_step_handleRequestVoteResponse [of m]) (auto simp: Step_def ev_votes_def granted_to_def)
  qed (use assms to in \<open>auto simp: Step_def intro: vote_step_handlePreVote vote_step_handlePreVoteResponse
        vote_step_handleAppendEntries vote_step_handleAppendEntriesResponse vote_step_handleInstallSnapshot
        vote_step_handleInstallSnapshotResponse\<close>)
qed

lemma append_proposals_shape:
  "append_proposals ds r = Some (is, r') \<Longrightarrow> \<exists>es. r' = r\<lparr>r_log := r_log r @ es\<rparr>
     \<and> length es = length ds \<and> length is = length ds \<and> (\<forall>e \<in> set es. le_Term e = r_currentTerm r)"
proof (induction ds arbitrary: r "is")
  case Nil
  then show ?case by (auto intro: exI [of _ "[]"])
next
  case (Cons d ds)
  then obtain lst is' where "append_proposals ds (r\<lparr>r_log := r_log r @
      [\<lparr>le_Term = r_currentTerm r, le_Index = lst + 1, le_Data = d\<rparr>]\<rparr>) = Some (is', r')"
    (is "append_proposals ds (r\<lparr>r_log := r_log r @ [?e]\<rparr>) = _") "is = (lst + 1) # is'"
    by (auto simp: bind_eq_Some_conv Let_def)
  with Cons.IH [OF this(1)] obtain es where "r' = r\<lparr>r_log := r_log r @ [?e] @ es\<rparr>"
    "length es = length ds" "length is' = length ds" "\<forall>e \<in> set es. le_Term e = r_currentTerm r" by auto
  with \<open>is = _\<close> show ?case by (intro exI [of _ "?e # es"]) simp
qed

lemma quiet_ProposeBatch:
  assumes "ProposeBatch ds r = Some (Inr (is, r'))"
  shows "quiet r r'"
proof -
  obtain r1 r2 where r: "append_proposals ds r = Some (is, r1)"
    "fold_option (\<lambda>p. sendAppendEntries p 0) (r_peers r1) r1 = Some r2"
    "(if r_peers r2 = [] then maybeAdvanceCommitIndex r2 else Some r2) = Some r'"
    using assms by (auto simp: ProposeBatch_def bind_eq_Some_conv split: if_splits)
  have "quiet r r1" using append_proposals_shape [OF r(1)] by (auto simp: quiet_def)
  moreover have "quiet r1 r2" using r(2) by (rule quiet_fold_option) (rule quiet_sendAppendEntries)
  moreover have "quiet r2 r'" using r(3) by (auto intro: quiet_maybeAdvanceCommitIndex split: if_splits)
  ultimately show ?thesis by (blast intro: quiet_trans)
qed

lemma quiet_CreateSnapshot:
  assumes "CreateSnapshot i d r = Some (Inr r')"
  shows "quiet r r'"
  using assms by (auto simp: CreateSnapshot_def bind_eq_Some_conv quiet_def split: if_splits)

lemma quiet_RequestReadIndex:
  assumes "RequestReadIndex c r = Some (Inr r')"
  shows "quiet r r'"
proof (cases "hasMajorityCount (card {r_id r}) r")
  case True
  with assms show ?thesis by (auto simp: RequestReadIndex_def quiet_def split: if_splits)
next
  case False
  then obtain pr where "fold_option (\<lambda>p. sendAppendEntries p c) (r_peers r) (r\<lparr>r_pendingReads := pr\<rparr>) = Some r'"
    using assms by (auto simp: RequestReadIndex_def bind_eq_Some_conv split: if_splits)
  then have "quiet (r\<lparr>r_pendingReads := pr\<rparr>) r'" by (rule quiet_fold_option) (rule quiet_sendAppendEntries)
  moreover have "quiet r (r\<lparr>r_pendingReads := pr\<rparr>)" by (simp add: quiet_def)
  ultimately show ?thesis by (blast intro: quiet_trans)
qed

lemma vote_step_event:
  assumes "apply_event ev r = Some r'" and "r_currentTerm r < r_currentTerm r + 1"
    and "r_role r \<in> {Candidate, Leader} \<longrightarrow> r_votedFor r \<noteq> 0"
  shows "vote_step (ev_votes ev r) (ev_request ev) r r'"
proof (cases ev)
  case ETick
  with assms show ?thesis by (auto intro: vote_step_Tick)
next
  case (ERecv m)
  with assms show ?thesis by (auto intro: vote_step_Step)
next
  case (EPropose ds)
  with assms obtain res where "ProposeBatch ds r = Some res" "r' = case_sum (\<lambda>_. r) snd res" by auto
  then show ?thesis using quiet_ProposeBatch [of ds r, THEN quiet_vote_step] by (cases res) auto
next
  case (ESnapshot i d)
  with assms obtain res where "CreateSnapshot i d r = Some res" "r' = case_sum (\<lambda>_. r) id res" by auto
  then show ?thesis using quiet_CreateSnapshot [of i d r, THEN quiet_vote_step] by (cases res) auto
next
  case (EReadIndex c)
  with assms obtain res where "RequestReadIndex c r = Some res" "r' = case_sum (\<lambda>_. r) id res" by auto
  then show ?thesis using quiet_RequestReadIndex [of c r, THEN quiet_vote_step] by (cases res) auto
qed

end
