(* ===== verification/Raft_Storage.thy ===== *)
theory Raft_Storage
  imports Raft_Types Wal_Log
begin

text \<open>
  The durable state of a Raft node (\<open>src/raft/storage.go\<close>): records multiplexed onto a write-ahead log.
  The abstract value of a storage log is a \<open>disk\<close>, the state its recovery reads back; every save refines
  an operation on it, also when the call fails or power is lost in the middle of it.
\<close>

section \<open>The abstract disk\<close>

record disk =
  dk_hs :: HardState
  dk_entries :: "LogEntry list"
  dk_snapshot :: Snapshot

definition empty_disk :: disk where
  "empty_disk = \<lparr>dk_hs = \<lparr>hs_Term = 0, hs_Vote = 0\<rparr>, dk_entries = [], dk_snapshot = zero_Snapshot\<rparr>"

text \<open>
  \<open>SaveEntries\<close> records a truncation and then the entries; a crash may leave any prefix of these
  records. \<open>SaveSnapshot\<close> replaces the file at once.
\<close>

definition disk_save_hs :: "HardState \<Rightarrow> disk \<Rightarrow> disk" where
  "disk_save_hs hs d = d\<lparr>dk_hs := hs\<rparr>"

definition disk_truncate :: "uint64 \<Rightarrow> disk \<Rightarrow> disk" where
  "disk_truncate from d = d\<lparr>dk_entries := filter (\<lambda>e. le_Index e < from) (dk_entries d)\<rparr>"

fun disk_append :: "LogEntry list \<Rightarrow> disk \<Rightarrow> disk list" where
  "disk_append [] d = [d]"
| "disk_append (e # es) d = d # disk_append es (d\<lparr>dk_entries := dk_entries d @ [e]\<rparr>)"

definition disk_save_snapshot :: "HardState \<Rightarrow> Snapshot \<Rightarrow> LogEntry list \<Rightarrow> disk" where
  "disk_save_snapshot hs sn es = \<lparr>dk_hs = hs, dk_entries = es, dk_snapshot = sn\<rparr>"

section \<open>Record encoding\<close>

datatype storage_error =
    StReplay wal_error
  | StEmptyRecord
  | StHardState nat
  | StLogEntry nat
  | StEntryLength
  | StTruncate nat
  | StSnapshot nat
  | StSnapshotLength
  | StUnknownKind byte
  | StOpen wal_error
  | StPersist wal_error
  | StCompact wal_error
  | StRename
  | StSlicePanic

text \<open>The constants of \<open>recordKind\<close>.\<close>

definition recordHardState :: byte where
  "recordHardState = 0"

definition recordLogEntry :: byte where
  "recordLogEntry = 1"

definition recordTruncateFrom :: byte where
  "recordTruncateFrom = 2"

definition recordSnapshot :: byte where
  "recordSnapshot = 3"

lemmas record_kinds = recordHardState_def recordLogEntry_def recordTruncateFrom_def recordSnapshot_def

definition encodeRecord :: "byte \<Rightarrow> bytes \<Rightarrow> bytes" where
  "encodeRecord kind payload = kind # payload"

definition decodeRecord :: "bytes \<Rightarrow> storage_error + byte \<times> bytes" where
  "decodeRecord data = (case data of [] \<Rightarrow> Inl StEmptyRecord | k # payload \<Rightarrow> Inr (k, payload))"

definition encodeHardStatePayload :: "uint64 \<Rightarrow> uint64 \<Rightarrow> bytes" where
  "encodeHardStatePayload trm vote = PutUint64 trm @ PutUint64 vote"

definition decodeHardStatePayload :: "bytes \<Rightarrow> storage_error + HardState" where
  "decodeHardStatePayload data =
     (if length data \<noteq> 16 then Inl (StHardState (length data))
      else Inr \<lparr>hs_Term = Uint64 data, hs_Vote = Uint64 (drop 8 data)\<rparr>)"

text \<open>
  Log entries and snapshots have the same layout: two integers, a 32-bit length, and the data. The upper
  bound \<open>20+dlen\<close> of the slice is computed with 32 bits; where it wraps around the slice panics, which is
  the value \<open>StSlicePanic\<close>.
\<close>

definition encode_pair_data :: "uint64 \<Rightarrow> uint64 \<Rightarrow> bytes \<Rightarrow> bytes" where
  "encode_pair_data a b data = PutUint64 a @ PutUint64 b @ PutUint32 (word_of_nat (length data)) @ data"

definition decode_pair_data :: "storage_error \<Rightarrow> storage_error \<Rightarrow> bytes \<Rightarrow> storage_error + uint64 \<times> uint64 \<times> bytes" where
  "decode_pair_data short mismatch data =
     (if length data < 20 then Inl short
      else
        let a = Uint64 data; b = Uint64 (drop 8 data); dlen = Uint32 (drop 16 data)
        in if (word_of_nat (length data - 20) :: uint32) \<noteq> dlen then Inl mismatch
           else if 0 < dlen then
             (case go_slice data 20 (uint (20 + dlen)) of
                None \<Rightarrow> Inl StSlicePanic
              | Some d \<Rightarrow> Inr (a, b, d))
           else Inr (a, b, []))"

definition encodeLogEntryPayload :: "LogEntry \<Rightarrow> bytes" where
  "encodeLogEntryPayload e = encode_pair_data (le_Term e) (le_Index e) (le_Data e)"

definition decodeLogEntryPayload :: "bytes \<Rightarrow> storage_error + LogEntry" where
  "decodeLogEntryPayload data =
     (case decode_pair_data (StLogEntry (length data)) StEntryLength data of
        Inl e \<Rightarrow> Inl e
      | Inr (trm, index, d) \<Rightarrow> Inr \<lparr>le_Term = trm, le_Index = index, le_Data = d\<rparr>)"

definition encodeTruncateFromPayload :: "uint64 \<Rightarrow> bytes" where
  "encodeTruncateFromPayload from = PutUint64 from"

definition decodeTruncateFromPayload :: "bytes \<Rightarrow> storage_error + uint64" where
  "decodeTruncateFromPayload data =
     (if length data \<noteq> 8 then Inl (StTruncate (length data)) else Inr (Uint64 data))"

definition encodeSnapshotPayload :: "Snapshot \<Rightarrow> bytes" where
  "encodeSnapshotPayload snap =
     encode_pair_data (sn_LastIncludedIndex snap) (sn_LastIncludedTerm snap) (sn_Data snap)"

definition decodeSnapshotPayload :: "bytes \<Rightarrow> storage_error + Snapshot" where
  "decodeSnapshotPayload data =
     (case decode_pair_data (StSnapshot (length data)) StSnapshotLength data of
        Inl e \<Rightarrow> Inl e
      | Inr (index, trm, d) \<Rightarrow> Inr \<lparr>sn_LastIncludedIndex = index, sn_LastIncludedTerm = trm, sn_Data = d\<rparr>)"

section \<open>Opening\<close>

record PersistentStorage =
  st_w :: WAL
  st_seq :: uint64
  st_path :: string

text \<open>One record of the replayed log, by its kind.\<close>

definition apply_record :: "byte \<Rightarrow> bytes \<Rightarrow> disk \<Rightarrow> storage_error + disk" where
  "apply_record kind payload d =
     (if kind = recordHardState then
        (case decodeHardStatePayload payload of Inl e \<Rightarrow> Inl e | Inr hs \<Rightarrow> Inr (d\<lparr>dk_hs := hs\<rparr>))
      else if kind = recordLogEntry then
        (case decodeLogEntryPayload payload of
           Inl e \<Rightarrow> Inl e
         | Inr e \<Rightarrow> Inr (d\<lparr>dk_entries := dk_entries d @ [e]\<rparr>))
      else if kind = recordTruncateFrom then
        (case decodeTruncateFromPayload payload of
           Inl e \<Rightarrow> Inl e
         | Inr from \<Rightarrow> Inr (d\<lparr>dk_entries := filter (\<lambda>e. le_Index e < from) (dk_entries d)\<rparr>))
      else if kind = recordSnapshot then
        (case decodeSnapshotPayload payload of
           Inl e \<Rightarrow> Inl e
         | Inr sn \<Rightarrow> Inr (d\<lparr>dk_entries := filter (\<lambda>e. sn_LastIncludedIndex sn < le_Index e) (dk_entries d),
                             dk_snapshot := sn\<rparr>))
      else Inl (StUnknownKind kind))"

fun replay_storage :: "Record list \<Rightarrow> disk \<Rightarrow> uint64 \<Rightarrow> storage_error + disk \<times> uint64" where
  "replay_storage [] d maxSeq = Inr (d, maxSeq)"
| "replay_storage (rec # recs) d maxSeq =
     (let maxSeq' = (if maxSeq < rec_SeqNum rec then rec_SeqNum rec else maxSeq)
      in case decodeRecord (rec_Value rec) of
           Inl e \<Rightarrow> Inl e
         | Inr (kind, payload) \<Rightarrow>
             (case apply_record kind payload d of
                Inl e \<Rightarrow> Inl e
              | Inr d' \<Rightarrow> replay_storage recs d' maxSeq'))"

definition sentinel_of :: "Snapshot \<Rightarrow> LogEntry" where
  "sentinel_of snap =
     (if 0 < sn_LastIncludedIndex snap
      then \<lparr>le_Term = sn_LastIncludedTerm snap, le_Index = sn_LastIncludedIndex snap, le_Data = []\<rparr>
      else \<lparr>le_Term = 0, le_Index = 0, le_Data = []\<rparr>)"

definition OpenStorage ::
    "string \<Rightarrow> world \<Rightarrow> (storage_error + PersistentStorage \<times> HardState \<times> LogEntry list \<times> Snapshot) \<times> world" where
  "OpenStorage path w =
     (case Replay path w of
        (Inl e, w1) \<Rightarrow> (Inl (StReplay e), w1)
      | (Inr (records, _), w1) \<Rightarrow>
          (case replay_storage records empty_disk 0 of
             Inl e \<Rightarrow> (Inl e, w1)
           | Inr (d, maxSeq) \<Rightarrow>
               (case Open_log path True w1 of
                  (Inl e, w2) \<Rightarrow> (Inl (StOpen e), w2)
                | (Inr l, w2) \<Rightarrow>
                    (Inr (\<lparr>st_w = l, st_seq = maxSeq, st_path = path\<rparr>, dk_hs d,
                          sentinel_of (dk_snapshot d) # dk_entries d, dk_snapshot d), w2))))"

section \<open>Saving\<close>

type_synonym 's saved = "(storage_error + unit) \<times> 's \<times> world"

definition nextSeq :: "PersistentStorage \<Rightarrow> uint64 \<times> PersistentStorage" where
  "nextSeq s = (st_seq s + 1, s\<lparr>st_seq := st_seq s + 1\<rparr>)"

definition put_record :: "uint64 \<Rightarrow> byte \<Rightarrow> bytes \<Rightarrow> Record" where
  "put_record seq kind payload =
     \<lparr>rec_SeqNum = seq, rec_Type = RecordPut, rec_Key = [], rec_Value = encodeRecord kind payload\<rparr>"

definition SaveHardState :: "HardState \<Rightarrow> PersistentStorage \<Rightarrow> world \<Rightarrow> PersistentStorage saved" where
  "SaveHardState hs s w =
     (let (seq, s1) = nextSeq s;
          rec = put_record seq recordHardState (encodeHardStatePayload (hs_Term hs) (hs_Vote hs))
      in case Append rec (st_w s1) w of
           (Inl e, l, w1) \<Rightarrow> (Inl (StPersist e), s1\<lparr>st_w := l\<rparr>, w1)
         | (Inr _, l, w1) \<Rightarrow> (Inr (), s1\<lparr>st_w := l\<rparr>, w1))"

fun entry_records :: "LogEntry list \<Rightarrow> PersistentStorage \<Rightarrow> Record list \<times> PersistentStorage" where
  "entry_records [] s = ([], s)"
| "entry_records (e # es) s =
     (let (seq, s1) = nextSeq s; (recs, s2) = entry_records es s1
      in (put_record seq recordLogEntry (encodeLogEntryPayload e) # recs, s2))"

definition SaveEntries :: "uint64 \<Rightarrow> LogEntry list \<Rightarrow> PersistentStorage \<Rightarrow> world \<Rightarrow> PersistentStorage saved" where
  "SaveEntries firstIndex entries s w =
     (if entries = [] then (Inr (), s, w)
      else
        let (seq, s1) = nextSeq s;
            trunc = put_record seq recordTruncateFrom (encodeTruncateFromPayload firstIndex);
            (recs, s2) = entry_records entries s1
        in case AppendBatch (trunc # recs) (st_w s2) w of
             (Inl e, l, w1) \<Rightarrow> (Inl (StPersist e), s2\<lparr>st_w := l\<rparr>, w1)
           | (Inr _, l, w1) \<Rightarrow> (Inr (), s2\<lparr>st_w := l\<rparr>, w1))"

text \<open>
  \<open>SaveSnapshot\<close> in its two halves: write the compacted log to a temporary file, and put it in place of
  the storage log.
\<close>

definition tmp_path :: "string \<Rightarrow> string" where
  "tmp_path path = path @ ''.compact.tmp''"

definition abort_compaction :: "wal_error \<Rightarrow> WAL \<Rightarrow> (storage_error, 'a) io" where
  "abort_compaction e l w =
     (let (_, _, w1) = Close_log l w; (_, w2) = os_Remove (Path l) w1 in (Inl (StCompact e), w2))"

definition open_compaction :: "string \<Rightarrow> (storage_error, WAL) io" where
  "open_compaction tmpPath w =
     (let (_, w0) = os_Remove tmpPath w
      in case Open_log tmpPath True w0 of (Inl e, w1) \<Rightarrow> (Inl (StCompact e), w1) | (Inr l, w1) \<Rightarrow> (Inr l, w1))"

definition compact_append :: "Record list \<Rightarrow> WAL \<Rightarrow> (storage_error, WAL) io" where
  "compact_append recs l w =
     (case AppendBatch recs l w of
        (Inl e, l', w1) \<Rightarrow> abort_compaction e l' w1
      | (Inr _, l', w1) \<Rightarrow> (Inr l', w1))"

definition close_compaction :: "WAL \<Rightarrow> (storage_error, unit) io" where
  "close_compaction l w =
     (case Close_log l w of
        (Inl e, _, w1) \<Rightarrow> (Inl (StCompact e), snd (os_Remove (Path l) w1))
      | (Inr _, _, w1) \<Rightarrow> (Inr (), w1))"

fun snapshot_records :: "uint64 \<Rightarrow> LogEntry list \<Rightarrow> Record list" where
  "snapshot_records seq [] = []"
| "snapshot_records seq (e # es) =
     put_record (seq + 1) recordLogEntry (encodeLogEntryPayload e) # snapshot_records (seq + 1) es"

definition write_compacted ::
    "string \<Rightarrow> HardState \<Rightarrow> Snapshot \<Rightarrow> LogEntry list \<Rightarrow> (storage_error, uint64) io" where
  "write_compacted tmpPath hs snap surviving =
     and_then (open_compaction tmpPath) (\<lambda>l1.
     and_then (compact_append
       [put_record 1 recordHardState (encodeHardStatePayload (hs_Term hs) (hs_Vote hs))] l1) (\<lambda>l2.
     and_then (compact_append [put_record 2 recordSnapshot (encodeSnapshotPayload snap)] l2) (\<lambda>l3.
     and_then (compact_append (snapshot_records 2 surviving) l3) (\<lambda>l4.
     and_then (close_compaction l4) (\<lambda>_ w. (Inr (2 + word_of_nat (length surviving)), w))))))"

definition SaveSnapshot ::
    "HardState \<Rightarrow> Snapshot \<Rightarrow> LogEntry list \<Rightarrow> PersistentStorage \<Rightarrow> world \<Rightarrow> PersistentStorage saved" where
  "SaveSnapshot hs snap surviving s w =
     (case write_compacted (tmp_path (st_path s)) hs snap surviving w of
        (Inl e, w1) \<Rightarrow> (Inl e, s, w1)
      | (Inr tmpSeq, w1) \<Rightarrow>
          (case os_Rename (tmp_path (st_path s)) (st_path s) w1 of
             (False, w2) \<Rightarrow> (Inl StRename, s, w2)
           | (True, w2) \<Rightarrow>
               (case Close_log (st_w s) w2 of
                  (Inl e, l, w3) \<Rightarrow> (Inl (StCompact e), s\<lparr>st_w := l\<rparr>, w3)
                | (Inr _, l, w3) \<Rightarrow>
                    (case Open_log (st_path s) True w3 of
                       (Inl e, w4) \<Rightarrow> (Inl (StCompact e), s\<lparr>st_w := l\<rparr>, w4)
                     | (Inr l', w4) \<Rightarrow> (Inr (), s\<lparr>st_w := l', st_seq := tmpSeq\<rparr>, w4)))))"

definition Storage_Close :: "PersistentStorage \<Rightarrow> world \<Rightarrow> PersistentStorage saved" where
  "Storage_Close s w =
     (case Close_log (st_w s) w of
        (Inl e, l, w1) \<Rightarrow> (Inl (StPersist e), s\<lparr>st_w := l\<rparr>, w1)
      | (Inr _, l, w1) \<Rightarrow> (Inr (), s\<lparr>st_w := l\<rparr>, w1))"

section \<open>Round trips\<close>

text \<open>What fits a record of the log: its payload has 38 bytes besides the data.\<close>

definition fits :: "bytes \<Rightarrow> bool" where
  "fits data \<longleftrightarrow> 38 + length data < 2 ^ 32"

lemma length_encode_pair_data [simp, codec_simps]: "length (encode_pair_data a b data) = 20 + length data"
  by (simp add: encode_pair_data_def)

lemma decode_encode_pair_data [codec_simps]:
  assumes "fits data"
  shows "decode_pair_data x y (encode_pair_data a b data) = Inr (a, b, data)"
proof -
  have len: "unat (word_of_nat (length data) :: uint32) = length data"
    "unat (20 + word_of_nat (length data) :: uint32) = 20 + length data"
  proof -
    show "unat (word_of_nat (length data) :: uint32) = length data" using assms by (simp add: fits_def)
    have "(20 + word_of_nat (length data) :: uint32) = word_of_nat (20 + length data)" by simp
    then show "unat (20 + word_of_nat (length data) :: uint32) = 20 + length data"
      using assms unat_of_nat_small [of "20 + length data", where 'a = 32] by (simp add: fits_def)
  qed
  have drop: "drop 8 (encode_pair_data a b data) = PutUint64 b @ PutUint32 (word_of_nat (length data)) @ data"
    "drop 16 (encode_pair_data a b data) = PutUint32 (word_of_nat (length data)) @ data"
    "drop 20 (encode_pair_data a b data) = data"
    by (simp_all add: encode_pair_data_def)
  have a: "Uint64 (encode_pair_data a b data) = a" by (simp add: encode_pair_data_def)
  show ?thesis
  proof (cases "data = []")
    case True
    then show ?thesis by (simp add: decode_pair_data_def Let_def a [simplified True] drop [simplified True])
  next
    case False
    then have pos: "0 < (word_of_nat (length data) :: uint32)"
      using len(1) by (metis length_greater_0_conv unat_gt_0 word_gt_0)
    have "uint (20 + word_of_nat (length data) :: uint32) = int (20 + length data)"
      using len(2) by (metis uint_nat)
    then have "go_slice (encode_pair_data a b data) 20 (uint (20 + word_of_nat (length data) :: uint32)) = Some data"
      using go_slice_nat [of 20 "20 + length data" "encode_pair_data a b data"] drop(3) by simp
    with pos show ?thesis by (simp add: decode_pair_data_def Let_def a drop)
  qed
qed

lemma decode_payloads [codec_simps]:
  "decodeHardStatePayload (encodeHardStatePayload t v) = Inr \<lparr>hs_Term = t, hs_Vote = v\<rparr>"
  "decodeTruncateFromPayload (encodeTruncateFromPayload i) = Inr i"
  "fits (le_Data e) \<Longrightarrow> decodeLogEntryPayload (encodeLogEntryPayload e) = Inr e"
  "fits (sn_Data sn) \<Longrightarrow> decodeSnapshotPayload (encodeSnapshotPayload sn) = Inr sn"
  by (simp_all add: decodeHardStatePayload_def encodeHardStatePayload_def decodeTruncateFromPayload_def
      encodeTruncateFromPayload_def decodeLogEntryPayload_def encodeLogEntryPayload_def
      decodeSnapshotPayload_def encodeSnapshotPayload_def decode_encode_pair_data)

text \<open>
  C22. Every record shape of the storage log is decoded to what was encoded, for data that fits a record of
  the log.
\<close>

theorem storage_codec_roundtrip:
  assumes "fits (le_Data e)" "fits (sn_Data sn)"
  shows "decodeRecord (encodeRecord k p) = Inr (k, p)
    \<and> decodeHardStatePayload (encodeHardStatePayload t v) = Inr \<lparr>hs_Term = t, hs_Vote = v\<rparr>
    \<and> decodeTruncateFromPayload (encodeTruncateFromPayload i) = Inr i
    \<and> decodeLogEntryPayload (encodeLogEntryPayload e) = Inr e
    \<and> decodeSnapshotPayload (encodeSnapshotPayload sn) = Inr sn"
  using assms by (simp add: decode_payloads decodeRecord_def encodeRecord_def)

theorem storage_codec_roundtrip_witness:
  "decodeLogEntryPayload (encodeLogEntryPayload \<lparr>le_Term = 3, le_Index = 7, le_Data = [1, 2]\<rparr>)
     = Inr \<lparr>le_Term = 3, le_Index = 7, le_Data = [1, 2]\<rparr>
   \<and> decodeSnapshotPayload (encodeSnapshotPayload zero_Snapshot) = Inr zero_Snapshot"
  using storage_codec_roundtrip [of "\<lparr>le_Term = 3, le_Index = 7, le_Data = [1, 2]\<rparr>" zero_Snapshot]
  by (simp add: fits_def zero_Snapshot_def)

text \<open>What the records of the four kinds do to the disk that recovery builds.\<close>

lemma replay_put_record [simp]:
  "replay_storage (put_record q recordHardState (encodeHardStatePayload t v) # recs) d m =
     replay_storage recs (d\<lparr>dk_hs := \<lparr>hs_Term = t, hs_Vote = v\<rparr>\<rparr>) (if m < q then q else m)"
  "replay_storage (put_record q recordTruncateFrom (encodeTruncateFromPayload i) # recs) d m =
     replay_storage recs (disk_truncate i d) (if m < q then q else m)"
  "fits (le_Data e) \<Longrightarrow> replay_storage (put_record q recordLogEntry (encodeLogEntryPayload e) # recs) d m =
     replay_storage recs (d\<lparr>dk_entries := dk_entries d @ [e]\<rparr>) (if m < q then q else m)"
  "fits (sn_Data sn) \<Longrightarrow> replay_storage (put_record q recordSnapshot (encodeSnapshotPayload sn) # recs) d m =
     replay_storage recs (d\<lparr>dk_entries := filter (\<lambda>e. sn_LastIncludedIndex sn < le_Index e) (dk_entries d),
       dk_snapshot := sn\<rparr>) (if m < q then q else m)"
  by (simp_all add: put_record_def encodeRecord_def decodeRecord_def apply_record_def record_kinds
      decode_payloads disk_truncate_def Let_def)

lemma replay_storage_append:
  "replay_storage (xs @ ys) d m =
     (case replay_storage xs d m of Inl e \<Rightarrow> Inl e | Inr (d', m') \<Rightarrow> replay_storage ys d' m')"
  by (induction xs d m rule: replay_storage.induct) (auto simp: Let_def split: sum.splits)

lemma encodable_put_record:
  "encodable (put_record q k payload) \<longleftrightarrow> 18 + length payload < 2 ^ 32"
  by (simp add: encodable_def put_record_def encodeRecord_def)

lemma encodable_records [simp]:
  "encodable (put_record q k (encodeHardStatePayload t v))"
  "encodable (put_record q k (encodeTruncateFromPayload i))"
  "encodable (put_record q k (encodeLogEntryPayload e)) \<longleftrightarrow> fits (le_Data e)"
  "encodable (put_record q k (encodeSnapshotPayload sn)) \<longleftrightarrow> fits (sn_Data sn)"
  by (simp_all add: encodable_put_record encodeHardStatePayload_def encodeTruncateFromPayload_def
      encodeLogEntryPayload_def encodeSnapshotPayload_def fits_def)

section \<open>Recovery\<close>

text \<open>
  \<open>restores path w d\<close>: opening the storage succeeds and yields the disk \<open>d\<close>. \<open>storage_inv\<close> is the
  invariant of an open storage: its log holds records that stand for \<open>d\<close>, all of them durable.
\<close>

definition storage_inv :: "PersistentStorage \<Rightarrow> world \<Rightarrow> disk \<Rightarrow> bool" where
  "storage_inv s w d \<longleftrightarrow>
     (\<exists>recs m. log_file (st_path s) w recs \<and> replay_storage recs empty_disk 0 = Inr (d, m))
     \<and> Path (st_w s) = st_path s \<and> clean_log (st_w s) \<and> \<not> wal_closed (st_w s) \<and> wal_syncOnWrite (st_w s)"

definition restores :: "string \<Rightarrow> world \<Rightarrow> disk \<Rightarrow> bool" where
  "restores path w d \<longleftrightarrow>
     (\<exists>s w'. OpenStorage path w
        = (Inr (s, dk_hs d, sentinel_of (dk_snapshot d) # dk_entries d, dk_snapshot d), w')
      \<and> st_path s = path \<and> storage_inv s w' d)"

lemma recovers_restores:
  assumes "recovers path w recs" "replay_storage recs empty_disk 0 = Inr (d, m)"
  shows "restores path w d"
proof -
  from assms(1) obtain st w1 where r: "Replay path w = (Inr (recs, st), w1)" "log_file path w1 recs"
    "w_faults w1 = (\<lambda>_. Ok)" unfolding recovers_def by blast
  obtain d0 where "map_of (w_files w1) path = Some d0" using r(2) by (auto simp: log_file_def file_data_def)
  then obtain l w2 where o: "Open_log path True w1 = (Inr l, w2)"
    using r(3) by (simp add: Open_log_def os_OpenAppend_def)
  note f = Open_log_files [OF o]
  show ?thesis
    using r(1) assms(2) o f(2) [OF r(2)] f(4-7)
    unfolding restores_def OpenStorage_def storage_inv_def by auto
qed

lemma log_file_restores:
  assumes "log_file path w recs" "replay_storage recs empty_disk 0 = Inr (d, m)"
  shows "restores path (power_loss keep w) d"
  using log_file_recovers [OF assms(1)] assms(2) by (rule recovers_restores)

text \<open>
  \<open>save_ok s res s' w' ds\<close>: whatever the outcome of a save, a loss of power after it leaves one of the
  disks \<open>ds\<close>; a save that returned nil has established the last one, and the storage can be used on.
\<close>

definition save_ok :: "PersistentStorage \<Rightarrow> (storage_error + unit) \<Rightarrow> PersistentStorage \<Rightarrow> world \<Rightarrow> disk list \<Rightarrow> bool" where
  "save_ok s res s' w' ds \<longleftrightarrow>
     (\<forall>keep. \<exists>d \<in> set ds. restores (st_path s) (power_loss keep w') d \<and> (res = Inr () \<longrightarrow> d = last ds))
     \<and> (res = Inr () \<longrightarrow> storage_inv s' w' (last ds) \<and> st_path s' = st_path s)"

text \<open>
  A batch of records whose prefixes stand for the disks \<open>ds\<close>, one more than there are records.
\<close>

fun disks_of :: "Record list \<Rightarrow> disk \<Rightarrow> uint64 \<Rightarrow> disk list" where
  "disks_of [] d m = [d]"
| "disks_of (r # rs) d m =
     d # (case replay_storage [r] d m of Inl _ \<Rightarrow> [] | Inr (d', m') \<Rightarrow> disks_of rs d' m')"

lemma disks_of_take:
  assumes "j \<le> length recs" "replay_storage recs d m = Inr (dn, mn)"
  shows "\<exists>dj mj. replay_storage (take j recs) d m = Inr (dj, mj) \<and> dj \<in> set (disks_of recs d m)
    \<and> last (disks_of recs d m) = dn"
  using assms
proof (induction recs arbitrary: j d m)
  case Nil
  then show ?case by simp
next
  case (Cons r recs)
  from Cons.prems(2) obtain d1 m1 where 1: "replay_storage [r] d m = Inr (d1, m1)"
    "replay_storage recs d1 m1 = Inr (dn, mn)"
    using replay_storage_append [of "[r]" recs d m] by (auto split: sum.splits)
  have ne: "disks_of recs d1 m1 \<noteq> []" by (cases recs) simp_all
  show ?case
  proof (cases j)
    case 0
    with Cons.IH [OF le0 1(2)] 1 ne show ?thesis by (auto simp del: replay_storage.simps(2))
  next
    case (Suc i)
    with Cons.prems(1) have "i \<le> length recs" by simp
    from Cons.IH [OF this 1(2)] obtain dj mj where "replay_storage (take i recs) d1 m1 = Inr (dj, mj)"
      "dj \<in> set (disks_of recs d1 m1)" "last (disks_of recs d1 m1) = dn" by blast
    with 1 ne Suc replay_storage_append [of "[r]" "take i recs" d m] show ?thesis
      by (simp del: replay_storage.simps(2))
  qed
qed

lemma append_save_ok:
  assumes inv: "storage_inv s w d" and ap: "AppendBatch recs (st_w s) w = (res, l', w')"
    and enc: "\<forall>r \<in> set recs. encodable r" and ok: "\<And>m. \<exists>dn mn. replay_storage recs d m = Inr (dn, mn)"
    and ds: "\<And>m. disks_of recs d m = ds"
    and res: "res' = Inr () \<longleftrightarrow> res = Inr ()" and s': "st_w s' = l'" "st_path s' = st_path s"
  shows "save_ok s res' s' w' ds"
proof -
  from inv obtain old m where old: "log_file (st_path s) w old" "replay_storage old empty_disk 0 = Inr (d, m)"
    and l: "Path (st_w s) = st_path s" "clean_log (st_w s)" "\<not> wal_closed (st_w s)" "wal_syncOnWrite (st_w s)"
    by (auto simp: storage_inv_def)
  obtain dn mn where dn: "replay_storage recs d m = Inr (dn, mn)" using ok by blast
  have last: "last ds = dn" using disks_of_take [OF order_refl dn] ds [of m] by auto
  have "\<exists>d' \<in> set ds. restores (st_path s) (power_loss keep w') d' \<and> (res' = Inr () \<longrightarrow> d' = last ds)" for keep
  proof -
    obtain j where j: "j \<le> length recs" "recovers (st_path s) (power_loss keep w') (old @ take j recs)"
      "res = Inr () \<longrightarrow> j = length recs"
      using append_recovers [OF ap l(2,3) _ enc, of old keep] old(1) l(1,4) by auto
    obtain dj mj where dj: "replay_storage (take j recs) d m = Inr (dj, mj)" "dj \<in> set ds"
      using disks_of_take [OF j(1) dn] ds [of m] by auto
    from j(2) have "restores (st_path s) (power_loss keep w') dj"
      by (rule recovers_restores) (use old(2) dj(1) replay_storage_append in simp)
    moreover have "res = Inr () \<longrightarrow> dj = dn" using j(3) dj(1) dn by auto
    ultimately show ?thesis using dj(2) last res by auto
  qed
  moreover have "storage_inv s' w' (last ds)" if "res' = Inr ()"
  proof -
    from that res have r: "res = Inr ()" by simp
    have "log_file (st_path s) w' (old @ recs)"
      using append_ok [of recs "st_w s" w l' w' old] ap r l old(1) enc by simp
    moreover have "replay_storage (old @ recs) empty_disk 0 = Inr (dn, mn)"
      using old(2) dn by (simp add: replay_storage_append)
    ultimately show ?thesis
      using AppendBatch_settings [OF ap] l r s' last by (auto simp: storage_inv_def)
  qed
  ultimately show ?thesis using s'(2) by (simp add: save_ok_def)
qed

lemma SaveHardState_ok:
  assumes "storage_inv s w d" "SaveHardState hs s w = (res, s', w')"
  shows "save_ok s res s' w' [d, disk_save_hs hs d]"
proof -
  let ?r = "put_record (st_seq s + 1) recordHardState (encodeHardStatePayload (hs_Term hs) (hs_Vote hs))"
  obtain x l' w1 where ap: "AppendBatch [?r] (st_w s) w = (x, l', w1)" by (metis prod_cases3)
  have r: "w' = w1" "s' = s\<lparr>st_seq := st_seq s + 1, st_w := l'\<rparr>" "res = Inr () \<longleftrightarrow> x = Inr ()"
    using assms(2) ap by (auto simp: SaveHardState_def nextSeq_def Append_def split: sum.splits)
  have "disks_of [?r] d m = [d, disk_save_hs hs d]" for m
    by (simp add: disk_save_hs_def del: replay_storage.simps(2))
  from append_save_ok [OF assms(1) ap _ _ this r(3), of s'] r show ?thesis
    by (simp del: replay_storage.simps(2) disks_of.simps)
qed

lemma entry_records_spec:
  assumes "entry_records es s = (recs, s2)"
  shows "st_w s2 = st_w s" "st_path s2 = st_path s"
    and "\<forall>e \<in> set es. fits (le_Data e) \<Longrightarrow> (\<forall>r \<in> set recs. encodable r)
      \<and> (\<exists>dn mn. replay_storage recs d m = Inr (dn, mn)) \<and> disks_of recs d m = disk_append es d"
proof -
  show "st_w s2 = st_w s" "st_path s2 = st_path s"
    using assms by (induction es arbitrary: s recs) (auto simp: nextSeq_def split: prod.splits)
  show "(\<forall>r \<in> set recs. encodable r) \<and> (\<exists>dn mn. replay_storage recs d m = Inr (dn, mn))
      \<and> disks_of recs d m = disk_append es d" if "\<forall>e \<in> set es. fits (le_Data e)"
    using assms that
  proof (induction es arbitrary: s recs d m)
    case Nil
    then show ?case by simp
  next
    case (Cons e es)
    obtain rs where r: "recs = put_record (st_seq s + 1) recordLogEntry (encodeLogEntryPayload e) # rs"
      "entry_records es (s\<lparr>st_seq := st_seq s + 1\<rparr>) = (rs, s2)"
      using Cons.prems(1) by (auto simp: nextSeq_def split: prod.splits)
    from Cons.IH [OF r(2)] Cons.prems(2) show ?case
      by (simp add: r(1) del: replay_storage.simps(2))
  qed
qed

lemma SaveEntries_ok:
  assumes inv: "storage_inv s w d" and sv: "SaveEntries first es s w = (res, s', w')"
    and fit: "\<forall>e \<in> set es. fits (le_Data e)" and "es \<noteq> []"
  shows "save_ok s res s' w' (d # disk_append es (disk_truncate first d))"
proof -
  let ?t = "put_record (st_seq s + 1) recordTruncateFrom (encodeTruncateFromPayload first)"
  obtain rs s2 where e: "entry_records es (s\<lparr>st_seq := st_seq s + 1\<rparr>) = (rs, s2)" by fastforce
  note spec = entry_records_spec [OF e]
  obtain x l' w1 where ap: "AppendBatch (?t # rs) (st_w s) w = (x, l', w1)" by (metis prod_cases3)
  have r: "w' = w1" "s' = s2\<lparr>st_w := l'\<rparr>" "res = Inr () \<longleftrightarrow> x = Inr ()"
    using sv ap e \<open>es \<noteq> []\<close> spec(1,2)
    by (auto simp: SaveEntries_def nextSeq_def split: sum.splits)
  show ?thesis
    using append_save_ok [OF inv ap _ _ _ r(3), of "d # disk_append es (disk_truncate first d)" s']
      spec(3) [OF fit] spec(2) r by (simp del: replay_storage.simps(2))
qed

section \<open>Compaction\<close>

lemma snapshot_records_spec:
  assumes "\<forall>e \<in> set es. fits (le_Data e)"
  shows "\<forall>r \<in> set (snapshot_records q es). encodable r"
    and "\<exists>m'. replay_storage (snapshot_records q es) d m = Inr (d\<lparr>dk_entries := dk_entries d @ es\<rparr>, m')"
proof -
  show "\<forall>r \<in> set (snapshot_records q es). encodable r" using assms by (induction es arbitrary: q) simp_all
  show "\<exists>m'. replay_storage (snapshot_records q es) d m = Inr (d\<lparr>dk_entries := dk_entries d @ es\<rparr>, m')"
    using assms
  proof (induction es arbitrary: q d m)
    case Nil
    then show ?case by simp
  next
    case (Cons e es)
    from Cons.IH [of "q + 1" "d\<lparr>dk_entries := dk_entries d @ [e]\<rparr>"] Cons.prems show ?case
      by (simp del: replay_storage.simps(2))
  qed
qed

text \<open>
  While the compacted log is written no file but the temporary one changes (\<open>F\<close> is what the others
  hold), and the temporary file holds the records appended so far if it was fresh.
\<close>

definition others :: "string \<Rightarrow> (string \<Rightarrow> fdata option) \<Rightarrow> world \<Rightarrow> bool" where
  "others tmp F w \<longleftrightarrow> (\<forall>q. q \<noteq> tmp \<longrightarrow> map_of (w_files w) q = F q)"

definition compacting :: "string \<Rightarrow> (string \<Rightarrow> fdata option) \<Rightarrow> bool \<Rightarrow> Record list \<Rightarrow> WAL \<Rightarrow> world \<Rightarrow> bool" where
  "compacting tmp F fresh recs l w \<longleftrightarrow> others tmp F w \<and> (fresh \<longrightarrow> log_file tmp w recs)
     \<and> clean_log l \<and> \<not> wal_closed l \<and> wal_syncOnWrite l \<and> Path l = tmp"

lemma open_compaction_triple:
  "triple (\<lambda>w. others tmp F w \<and> (fresh \<longrightarrow> w_faults w 0 = Ok \<or> map_of (w_files w) tmp = None))
     (open_compaction tmp) (compacting tmp F fresh []) (others tmp F)"
proof (rule tripleI)
  fix w w' e
  assume P: "others tmp F w \<and> (fresh \<longrightarrow> w_faults w 0 = Ok \<or> map_of (w_files w) tmp = None)"
  obtain k w0 where rm: "os_Remove tmp w = (k, w0)" by fastforce
  note f0 = os_Remove_files [OF rm]
  show "others tmp F w'" if "open_compaction tmp w = (Inl e, w')"
    using that rm f0(1) P Open_log_failed_files [of tmp True w0 _ w']
    by (auto simp: open_compaction_def others_def split: prod.splits sum.splits)
  show "compacting tmp F fresh [] l w'" if "open_compaction tmp w = (Inr l, w')" for l
  proof -
    from that rm have o: "Open_log tmp True w0 = (Inr l, w')"
      by (auto simp: open_compaction_def split: prod.splits sum.splits)
    note f = Open_log_files [OF o]
    show ?thesis using P f0 f by (auto simp: compacting_def others_def)
  qed
qed

lemma compact_append_triple:
  assumes "\<forall>r \<in> set recs. encodable r"
  shows "triple (compacting tmp F fresh old l) (compact_append recs l) (compacting tmp F fresh (old @ recs)) (others tmp F)"
proof (rule tripleI)
  fix w w' e l'
  assume P: "compacting tmp F fresh old l w"
  then have l: "clean_log l" "\<not> wal_closed l" "wal_syncOnWrite l" "Path l = tmp" by (simp_all add: compacting_def)
  obtain x l1 w1 where a: "AppendBatch recs l w = (x, l1, w1)" by (metis prod_cases3)
  note s = AppendBatch_settings [OF a]
  have o: "others tmp F w1" using P s(5) l by (simp add: compacting_def others_def)
  show "others tmp F w'" if "compact_append recs l w = (Inl e, w')"
  proof -
    obtain y l2 w2 where c: "Close_log l1 w1 = (y, l2, w2)" by (metis prod_cases3)
    obtain k w3 where d: "os_Remove tmp w2 = (k, w3)" by fastforce
    from that a c d s(1) l(4) have "w' = w3"
      by (auto simp: compact_append_def abort_compaction_def split: sum.splits)
    then show ?thesis
      using o Close_log_files(1) [OF c] os_Remove_files(1) [OF d] s(1) l(4) by (simp add: others_def)
  qed
  show "compacting tmp F fresh (old @ recs) l' w'" if "compact_append recs l w = (Inr l', w')"
  proof -
    from that a have r: "x = Inr ()" "l' = l1" "w' = w1"
      by (auto simp: compact_append_def abort_compaction_def split: sum.splits prod.splits)
    show ?thesis
      using P o s l r append_ok [of recs l w l1 w1 old] a assms by (simp add: compacting_def)
  qed
qed

lemma close_compaction_triple:
  "triple (compacting tmp F fresh recs l) (close_compaction l)
     (\<lambda>_ w. others tmp F w \<and> (fresh \<longrightarrow> log_file tmp w recs)) (others tmp F)"
proof (rule tripleI)
  fix w w' e u
  assume P: "compacting tmp F fresh recs l w"
  obtain y l2 w2 where c: "Close_log l w = (y, l2, w2)" by (metis prod_cases3)
  note f = Close_log_files [OF c]
  have o: "others tmp F w2" using P f(1) by (simp add: compacting_def others_def)
  show "others tmp F w'" if "close_compaction l w = (Inl e, w')"
  proof -
    obtain k w3 where d: "os_Remove tmp w2 = (k, w3)" by fastforce
    with that c P have "w' = w3" by (auto simp: close_compaction_def compacting_def split: sum.splits)
    then show ?thesis using o os_Remove_files(1) [OF d] by (simp add: others_def)
  qed
  show "others tmp F w' \<and> (fresh \<longrightarrow> log_file tmp w' recs)" if "close_compaction l w = (Inr u, w')"
    using that c o f(2) P by (auto simp: close_compaction_def compacting_def split: sum.splits)
qed

lemma write_compacted_triple:
  assumes "fits (sn_Data sn)" "\<forall>e \<in> set es. fits (le_Data e)"
  shows "triple (\<lambda>w. others tmp F w \<and> (fresh \<longrightarrow> w_faults w 0 = Ok \<or> map_of (w_files w) tmp = None))
     (write_compacted tmp hs sn es)
     (\<lambda>_ w. others tmp F w \<and> (fresh \<longrightarrow> (\<exists>recs m. log_file tmp w recs
        \<and> replay_storage recs empty_disk 0 = Inr (disk_save_snapshot hs sn es, m)))) (others tmp F)"
proof -
  let ?r1 = "put_record 1 recordHardState (encodeHardStatePayload (hs_Term hs) (hs_Vote hs))"
  let ?r2 = "put_record 2 recordSnapshot (encodeSnapshotPayload sn)"
  let ?recs = "(([] @ [?r1]) @ [?r2]) @ snapshot_records 2 es"
  have ok: "\<exists>m. replay_storage ?recs empty_disk 0 = Inr (disk_save_snapshot hs sn es, m)"
    using assms(1) snapshot_records_spec(2) [OF assms(2), of 2 "\<lparr>dk_hs = hs, dk_entries = [], dk_snapshot = sn\<rparr>" 2]
    by (cases hs) (simp add: empty_disk_def disk_save_snapshot_def del: replay_storage.simps(2))
  have end': "triple (\<lambda>w. others tmp F w \<and> (fresh \<longrightarrow> log_file tmp w ?recs))
     (\<lambda>w. (Inr (2 + word_of_nat (length es) :: uint64), w))
     (\<lambda>_ w. others tmp F w \<and> (fresh \<longrightarrow> (\<exists>recs m. log_file tmp w recs
        \<and> replay_storage recs empty_disk 0 = Inr (disk_save_snapshot hs sn es, m)))) (others tmp F)"
    using ok by (intro tripleI) blast+
  have enc: "\<forall>r \<in> set [?r1]. encodable r" "\<forall>r \<in> set [?r2]. encodable r"
    "\<forall>r \<in> set (snapshot_records 2 es). encodable r"
    using assms snapshot_records_spec(1) [OF assms(2)] by simp_all
  show ?thesis
    unfolding write_compacted_def
    by (rule triple_and_then [OF open_compaction_triple] triple_and_then [OF compact_append_triple [OF enc(1)]]
        triple_and_then [OF compact_append_triple [OF enc(2)]] triple_and_then [OF compact_append_triple [OF enc(3)]]
        triple_and_then [OF close_compaction_triple] end')+
qed

lemma SaveSnapshot_ok:
  assumes inv: "storage_inv s w d" and sv: "SaveSnapshot hs sn es s w = (res, s', w')"
    and fit: "fits (sn_Data sn)" "\<forall>e \<in> set es. fits (le_Data e)"
    and fresh: "w_faults w 0 = Ok \<or> map_of (w_files w) (tmp_path (st_path s)) = None"
  shows "save_ok s res s' w' [d, disk_save_snapshot hs sn es]"
proof -
  let ?p = "st_path s" and ?t = "tmp_path (st_path s)" and ?d = "disk_save_snapshot hs sn es"
  have ne: "?t \<noteq> ?p" by (simp add: tmp_path_def)
  from inv obtain old m where old: "log_file ?p w old" "replay_storage old empty_disk 0 = Inr (d, m)"
    and l: "Path (st_w s) = ?p" "clean_log (st_w s)" by (auto simp: storage_inv_def)
  have keep: "restores ?p (power_loss k v) d" if "map_of (w_files v) ?p = map_of (w_files w) ?p" for k v
    using log_file_restores [OF _ old(2)] log_file_cong [OF that] old(1) by blast
  obtain r1 w1 where wc: "write_compacted ?t hs sn es w = (r1, w1)" by fastforce
  note t = tripleD [OF write_compacted_triple [OF fit, of ?t "map_of (w_files w)" True hs] _ wc]
  have w1: "map_of (w_files w1) ?p = map_of (w_files w) ?p"
    using t fresh ne by (cases r1) (auto simp: others_def)
  obtain k w2 where rn: "os_Rename ?t ?p w1 = (k, w2)" by fastforce
  obtain x l2 w3 where c: "Close_log (st_w s) w2 = (x, l2, w3)" by (metis prod_cases3)
  obtain o4 w4 where o: "Open_log ?p True w3 = (o4, w4)" by fastforce
  show ?thesis
  proof (cases "(\<exists>e. r1 = Inl e) \<or> \<not> k")
    case True
    then have "res \<noteq> Inr ()" "map_of (w_files w') ?p = map_of (w_files w) ?p"
      using sv wc rn w1 os_Rename_files(2) [OF rn ne] by (auto simp: SaveSnapshot_def split: sum.splits)
    with keep show ?thesis by (auto simp: save_ok_def)
  next
    case False
    then obtain n where n: "r1 = Inr n" and k by (metis sum.exhaust)
    obtain recs m' where "log_file ?t w1 recs" and re: "replay_storage recs empty_disk 0 = Inr (?d, m')"
      using t(2) [OF _ n] fresh by (auto simp: others_def)
    with os_Rename_files(1) [OF rn ne] \<open>k\<close> have "log_file ?p w2 recs"
      by (simp add: log_file_def file_data_def file_synced_def)
    then have 3: "log_file ?p w3 recs" using Close_log_files(2) [OF c l(2)] by blast
    then have 4: "log_file ?p w4 recs"
      using Open_log_files(2) [of ?p True w3 _ w4] Open_log_failed_files [of ?p True w3 _ w4] o log_file_cong
      by (cases o4) blast+
    have "w' \<in> {w3, w4}" "res = Inr () \<longrightarrow> w' = w4 \<and> (\<exists>l'. o4 = Inr l' \<and> s' = s\<lparr>st_w := l', st_seq := n\<rparr>)"
      using sv wc n rn \<open>k\<close> c o by (auto simp: SaveSnapshot_def split: sum.splits)
    moreover have "storage_inv (s\<lparr>st_w := l', st_seq := n\<rparr>) w4 ?d" if "o4 = Inr l'" for l'
      using Open_log_files(4-7) [OF o [unfolded that]] 4 re by (auto simp: storage_inv_def)
    ultimately show ?thesis
      using log_file_restores [OF 3 re] log_file_restores [OF 4 re] by (auto simp: save_ok_def)
  qed
qed

end
