(* ===== verification/Raft_Node.thy ===== *)
theory Raft_Node
  imports Raft_Core Raft_Storage
begin

text \<open>
  A Raft node with its storage (\<open>src/raft/node.go\<close>), and what \<open>Persist\<close> and \<open>OpenNode\<close> do to the durable
  state: a crash in the middle of \<open>Persist\<close> leaves one of the states \<open>persist_states\<close>, and reopening the
  node continues from it as \<open>restart\<close> says. The cluster of \<open>Raft_Cluster\<close> is built from these two.
\<close>

section \<open>The node\<close>

record Node =
  nd_r :: Raft
  nd_storage :: PersistentStorage

datatype node_error = NdStorage storage_error | NdConfig raft_error

definition OpenNode ::
    "Config \<Rightarrow> (nat \<Rightarrow> nat) \<Rightarrow> string \<Rightarrow> world \<Rightarrow> ((node_error + Node \<times> Snapshot option) \<times> world) option" where
  "OpenNode cfg rnd storagePath w =
     (case OpenStorage storagePath w of
        (Inl e, w1) \<Rightarrow> Some (Inl (NdStorage e), w1)
      | (Inr (storage, hs, log, snap), w1) \<Rightarrow>
          (case Raft_New cfg rnd of
             Inl e \<Rightarrow> (case Storage_Close storage w1 of (_, _, w2) \<Rightarrow> Some (Inl (NdConfig e), w2))
           | Inr r \<Rightarrow> do {
               r1 \<leftarrow> restoreState hs log r;
               Some (Inr (if 0 < sn_LastIncludedIndex snap
                          then (\<lparr>nd_r = r1\<lparr>r_snapshot := snap, r_stableSnapshotIndex := sn_LastIncludedIndex snap\<rparr>,
                                 nd_storage = storage\<rparr>, Some snap)
                          else (\<lparr>nd_r = r1, nd_storage = storage\<rparr>, None)), w1)
             }))"

text \<open>The calls that are passed on to the state machine.\<close>

definition Node_event :: "event \<Rightarrow> Node \<Rightarrow> Node option" where
  "Node_event ev n = map_option (\<lambda>r. n\<lparr>nd_r := r\<rparr>) (apply_event ev (nd_r n))"

definition Node_Status :: "Node \<Rightarrow> Status option" where
  "Node_Status n = Raft_Status (nd_r n)"

definition Node_Entries :: "uint64 \<Rightarrow> uint64 \<Rightarrow> Node \<Rightarrow> LogEntry list option" where
  "Node_Entries start end n = Entries start end (nd_r n)"

text \<open>
  What \<open>Persist\<close> saves: the rewrite with the snapshot, or the hard state and then the entries.
\<close>

definition save_ready :: "Ready \<Rightarrow> Raft \<Rightarrow> PersistentStorage \<Rightarrow> world \<Rightarrow> PersistentStorage saved option" where
  "save_ready rd r s w =
     (case rd_Snapshot rd of
        Some sn \<Rightarrow> do {
          lst \<leftarrow> lastLogIndex r;
          surviving \<leftarrow> Entries (sn_LastIncludedIndex sn) lst r;
          Some (SaveSnapshot \<lparr>hs_Term = r_currentTerm r, hs_Vote = r_votedFor r\<rparr> sn surviving s w)
        }
      | None \<Rightarrow>
          (case (case rd_HardState rd of Some hs \<Rightarrow> SaveHardState hs s w | None \<Rightarrow> (Inr (), s, w)) of
             (Inl e, s1, w1) \<Rightarrow> Some (Inl e, s1, w1)
           | (Inr _, s1, w1) \<Rightarrow>
               Some (if rd_UnstableEntries rd = [] then (Inr (), s1, w1)
                     else SaveEntries (rd_FirstUnstableIndex rd) (rd_UnstableEntries rd) s1 w1)))"

type_synonym persist_out = "Message list \<times> ReadState list \<times> Snapshot option"

definition Persist :: "Node \<Rightarrow> world \<Rightarrow> ((storage_error + persist_out) \<times> Node \<times> world) option" where
  "Persist n w = do {
     rd \<leftarrow> Raft_Ready (nd_r n);
     (res, s, w1) \<leftarrow> save_ready rd (nd_r n) (nd_storage n) w;
     (case res of
        Inl e \<Rightarrow> Some (Inl e, n\<lparr>nd_storage := s\<rparr>, w1)
      | Inr _ \<Rightarrow> do {
          r \<leftarrow> Advance (nd_r n);
          Some (Inr (rd_Messages rd, rd_ReadStates rd, rd_SnapshotToApply rd), \<lparr>nd_r = r, nd_storage = s\<rparr>, w1)
        })
   }"

definition Node_Close :: "Node \<Rightarrow> world \<Rightarrow> Node saved" where
  "Node_Close n w = (case Storage_Close (nd_storage n) w of (res, s, w1) \<Rightarrow> (res, n\<lparr>nd_storage := s\<rparr>, w1))"

section \<open>The durable states of a node\<close>

text \<open>
  The durable states \<open>Persist\<close> passes through, from the one before to the one after; \<open>None\<close> when it panics.
\<close>

definition persist_states :: "Raft \<Rightarrow> disk \<Rightarrow> disk list option" where
  "persist_states r d = do {
     rd \<leftarrow> Raft_Ready r;
     case rd_Snapshot rd of
       Some sn \<Rightarrow> do {
         lst \<leftarrow> lastLogIndex r;
         es \<leftarrow> Entries (sn_LastIncludedIndex sn) lst r;
         Some [d, disk_save_snapshot \<lparr>hs_Term = r_currentTerm r, hs_Vote = r_votedFor r\<rparr> sn es]
       }
     | None \<Rightarrow>
         let d1 = (case rd_HardState rd of Some hs \<Rightarrow> disk_save_hs hs d | None \<Rightarrow> d)
         in Some (d # (if rd_UnstableEntries rd = [] then [d1]
                       else d1 # disk_append (rd_UnstableEntries rd)
                              (disk_truncate (rd_FirstUnstableIndex rd) d1)))
   }"

text \<open>A fresh node, seeded with what was durable.\<close>

definition restart :: "Config \<Rightarrow> (nat \<Rightarrow> nat) \<Rightarrow> disk \<Rightarrow> Raft option" where
  "restart cfg rnd d =
     (case Raft_New cfg rnd of
        Inl _ \<Rightarrow> None
      | Inr r \<Rightarrow> do {
          r1 \<leftarrow> restoreState (dk_hs d) (sentinel_of (dk_snapshot d) # dk_entries d) r;
          Some (if 0 < sn_LastIncludedIndex (dk_snapshot d)
                then r1\<lparr>r_snapshot := dk_snapshot d, r_stableSnapshotIndex := sn_LastIncludedIndex (dk_snapshot d)\<rparr>
                else r1)
        })"

lemma Raft_New_state:
  assumes "Raft_New cfg rnd = Inr r"
  shows "r_id r = cfg_ID cfg \<and> r_peers r = cfg_Peers cfg \<and> r_role r = Follower \<and> r_msgs r = []
    \<and> r_commitIndex r = 0 \<and> r_snapshot r = zero_Snapshot \<and> r_stableSnapshotIndex r = 0"
  using assms by (auto simp: Raft_New_def resetElectionTimeout_def split: option.splits)

lemma restoreState_shape:
  assumes "restoreState hs es r = Some r'" "es \<noteq> []"
  shows "r' = r\<lparr>r_currentTerm := hs_Term hs, r_votedFor := hs_Vote hs, r_stableTerm := hs_Term hs,
    r_stableVote := hs_Vote hs, r_log := es,
    r_commitIndex := (if r_commitIndex r < le_Index (hd es) then le_Index (hd es) else r_commitIndex r),
    r_unstableIndex := le_Index (last es) + 1\<rparr>"
  using assms
  by (simp add: restoreState_def Let_def firstLogIndex_def lastLogIndex_def go_first_Some split: if_splits)

lemma restart_shape:
  assumes "restart cfg rnd d = Some r"
  obtains r0 r1 where "Raft_New cfg rnd = Inr r0"
    "restoreState (dk_hs d) (sentinel_of (dk_snapshot d) # dk_entries d) r0 = Some r1"
    "r = (if 0 < sn_LastIncludedIndex (dk_snapshot d)
       then r1\<lparr>r_snapshot := dk_snapshot d, r_stableSnapshotIndex := sn_LastIncludedIndex (dk_snapshot d)\<rparr> else r1)"
  using assms unfolding restart_def
  by (cases "Raft_New cfg rnd") (auto simp: bind_eq_Some_conv)

lemma OpenNode_restart:
  assumes "restores path w d" "restart cfg rnd d = Some r"
  shows "\<exists>n w'. OpenNode cfg rnd path w
      = Some (Inr (n, if 0 < sn_LastIncludedIndex (dk_snapshot d) then Some (dk_snapshot d) else None), w')
    \<and> nd_r n = r \<and> st_path (nd_storage n) = path \<and> storage_inv (nd_storage n) w' d"
proof -
  obtain s w' where s: "OpenStorage path w
      = (Inr (s, dk_hs d, sentinel_of (dk_snapshot d) # dk_entries d, dk_snapshot d), w')"
    "st_path s = path" "storage_inv s w' d" using assms(1) by (auto simp: restores_def)
  obtain r0 r1 where "Raft_New cfg rnd = Inr r0"
    "restoreState (dk_hs d) (sentinel_of (dk_snapshot d) # dk_entries d) r0 = Some r1"
    "r = (if 0 < sn_LastIncludedIndex (dk_snapshot d)
       then r1\<lparr>r_snapshot := dk_snapshot d, r_stableSnapshotIndex := sn_LastIncludedIndex (dk_snapshot d)\<rparr> else r1)"
    using assms(2) by (rule restart_shape)
  with s show ?thesis
    by (intro exI [of _ "\<lparr>nd_r = r, nd_storage = s\<rparr>"] exI [of _ w']) (simp add: OpenNode_def)
qed

lemma restart_total: "validate cfg = None \<Longrightarrow> \<exists>r. restart cfg rnd d = Some r"
  by (simp add: restart_def Raft_New_def restoreState_def Let_def firstLogIndex_def lastLogIndex_def)

section \<open>Crash safety\<close>

definition storable :: "Raft \<Rightarrow> bool" where
  "storable r \<longleftrightarrow> (\<forall>e \<in> set (r_log r). fits (le_Data e)) \<and> fits (sn_Data (r_snapshot r))"

lemma go_slice_subset: "go_slice xs i j = Some ys \<Longrightarrow> set ys \<subseteq> set xs"
  by (auto simp: go_slice_def split: if_splits dest: in_set_takeD in_set_dropD)

lemma Entries_subset: "Entries a b r = Some es \<Longrightarrow> set es \<subseteq> set (r_log r)"
  by (auto simp: Entries_def Let_def bind_eq_Some_conv split: if_splits dest: go_slice_subset)

lemma Raft_Ready_fields:
  assumes "Raft_Ready r = Some rd"
  shows "set (rd_UnstableEntries rd) \<subseteq> set (r_log r)" "rd_Snapshot rd = Some sn \<Longrightarrow> sn = r_snapshot r"
    "rd_Messages rd = r_msgs r" "rd_ReadStates rd = r_readStates r" "rd_SnapshotToApply rd = r_pendingSnapshotToApply r"
  using assms by (auto simp: Raft_Ready_def bind_eq_Some_conv split: if_splits dest: go_slice_subset [THEN subsetD])

lemma save_ok_mono:
  assumes "save_ok s res s' w' ds" "set ds \<subseteq> set ds'" "last ds' = last ds"
  shows "save_ok s res s' w' ds'"
  using assms by (fastforce simp: save_ok_def)

lemma save_ok_failed:
  assumes "save_ok s res s' w' ds" "res \<noteq> Inr ()" "set ds \<subseteq> set ds'"
  shows "save_ok s res s' w' ds'"
  using assms by (fastforce simp: save_ok_def)

lemma storage_inv_save_ok: "storage_inv s w d \<Longrightarrow> save_ok s (Inr ()) s w [d, d]"
  by (auto simp: save_ok_def storage_inv_def intro: log_file_restores)

lemma save_ready_ok:
  assumes inv: "storage_inv s w d" and rd: "Raft_Ready r = Some rd" and fit: "storable r"
    and sv: "save_ready rd r s w = Some (res, s', w')"
    and fresh: "w_faults w 0 = Ok \<or> map_of (w_files w) (tmp_path (st_path s)) = None"
  shows "\<exists>ds. persist_states r d = Some ds \<and> save_ok s res s' w' ds"
proof (cases "rd_Snapshot rd")
  case (Some sn)
  then obtain lst es where e: "lastLogIndex r = Some lst" "Entries (sn_LastIncludedIndex sn) lst r = Some es"
    "SaveSnapshot \<lparr>hs_Term = r_currentTerm r, hs_Vote = r_votedFor r\<rparr> sn es s w = (res, s', w')"
    using sv by (auto simp: save_ready_def bind_eq_Some_conv)
  have "fits (sn_Data sn)" "\<forall>e \<in> set es. fits (le_Data e)"
    using fit Raft_Ready_fields(2) [OF rd Some] Entries_subset [OF e(2)] by (auto simp: storable_def)
  from SaveSnapshot_ok [OF inv e(3) this fresh] rd Some e show ?thesis by (simp add: persist_states_def)
next
  case None
  let ?es = "rd_UnstableEntries rd"
  let ?d1 = "case rd_HardState rd of Some hs \<Rightarrow> disk_save_hs hs d | None \<Rightarrow> d"
  let ?ds = "d # (if ?es = [] then [?d1] else ?d1 # disk_append ?es (disk_truncate (rd_FirstUnstableIndex rd) ?d1))"
  have fits: "\<forall>e \<in> set ?es. fits (le_Data e)" using Raft_Ready_fields(1) [OF rd] fit by (auto simp: storable_def)
  obtain r1 s1 w1 where h: "(case rd_HardState rd of Some hs \<Rightarrow> SaveHardState hs s w | None \<Rightarrow> (Inr (), s, w)) = (r1, s1, w1)"
    by (metis prod_cases3)
  have h1: "save_ok s r1 s1 w1 [d, ?d1]"
  proof (cases "rd_HardState rd")
    case None
    with h storage_inv_save_ok [OF inv] show ?thesis by simp
  next
    case (Some hs)
    with h SaveHardState_ok [OF inv, of hs r1 s1 w1] show ?thesis by simp
  qed
  have "save_ok s res s' w' ?ds"
  proof (cases r1)
    case (Inl e)
    with sv None h have eq: "res = r1" "s' = s1" "w' = w1" by (auto simp: save_ready_def)
    show ?thesis unfolding eq by (rule save_ok_failed [OF h1]) (simp_all add: Inl)
  next
    case (Inr u)
    show ?thesis
    proof (cases "?es = []")
      case True
      with sv None h Inr h1 show ?thesis by (auto simp: save_ready_def)
    next
      case False
      with sv None h Inr have se: "SaveEntries (rd_FirstUnstableIndex rd) ?es s1 w1 = (res, s', w')"
        by (auto simp: save_ready_def)
      from h1 Inr have s1: "storage_inv s1 w1 ?d1" "st_path s1 = st_path s" by (simp_all add: save_ok_def)
      from SaveEntries_ok [OF s1(1) se fits False]
      have "save_ok s res s' w' (?d1 # disk_append ?es (disk_truncate (rd_FirstUnstableIndex rd) ?d1))"
        by (simp add: save_ok_def s1(2))
      then show ?thesis by (rule save_ok_mono) (use False in auto)
    qed
  qed
  then show ?thesis using rd None by (simp add: persist_states_def Let_def)
qed


definition ex_node_cfg :: Config where
  "ex_node_cfg = \<lparr>cfg_ID = 1, cfg_Peers = [2], cfg_ElectionTick = 2, cfg_HeartbeatTick = 1\<rparr>"

text \<open>A node that has voted for itself in term 1 and has not persisted it; its next write is cut after 5 bytes.\<close>

definition ex_node :: Node where
  "ex_node =
     \<lparr>nd_r = (the (restart ex_node_cfg (\<lambda>_. 0) empty_disk))\<lparr>r_currentTerm := 1, r_votedFor := 1\<rparr>,
      nd_storage = \<lparr>st_w = \<lparr>wal_writer = bufio_NewWriter ''a'', wal_syncOnWrite = True, wal_closed = False, wal_lastSeq = 0\<rparr>,
        st_seq = 0, st_path = ''a''\<rparr>\<rparr>"


end
