(* ===== verification/Raft_Cluster.thy ===== *)
theory Raft_Cluster
  imports Raft_Votes Raft_Node
begin

text \<open>
  A cluster of nodes exchanging messages over a network that may lose, delay, duplicate and reorder
  them, each node with the durable state its storage holds (\<open>persist_states\<close> and \<open>restart\<close>). A node may crash at any moment, also in
  the middle of writing to its storage, and restarts from what was durable. The main result is that
  a term has at most one leader.
\<close>

section \<open>The cluster\<close>

text \<open>
  \<open>c_net\<close> holds every message ever sent: a message that is delivered late, twice or never is one that
  is picked from it late, twice or never. \<open>c_elected\<close> records who has been leader of which term.
\<close>

record cluster =
  c_mem :: "uint64 \<Rightarrow> Raft"
  c_disk :: "uint64 \<Rightarrow> disk"
  c_net :: "Message set"
  c_elected :: "(uint64 \<times> uint64) set"

definition leaders_of :: "Raft \<Rightarrow> (uint64 \<times> uint64) set" where
  "leaders_of r = (if r_role r = Leader then {(r_currentTerm r, r_id r)} else {})"

definition cluster_config :: "uint64 set \<Rightarrow> (uint64 \<Rightarrow> Config) \<Rightarrow> bool" where
  "cluster_config S cfg \<longleftrightarrow>
     (\<forall>i \<in> S. cfg_ID (cfg i) = i \<and> set (cfg_Peers (cfg i)) = S - {i} \<and> distinct (cfg_Peers (cfg i))
        \<and> validate (cfg i) = None)"

inductive cluster_step :: "uint64 set \<Rightarrow> (uint64 \<Rightarrow> Config) \<Rightarrow> cluster \<Rightarrow> cluster \<Rightarrow> bool"
  for S cfg where
  event: "i \<in> S \<Longrightarrow> apply_event ev (c_mem c i) = Some r' \<Longrightarrow>
    (\<And>m. ev = ERecv m \<Longrightarrow> m \<in> c_net c) \<Longrightarrow>
    r_currentTerm (c_mem c i) < r_currentTerm (c_mem c i) + 1 \<Longrightarrow>
    cluster_step S cfg c (c\<lparr>c_mem := (c_mem c)(i := r'), c_elected := c_elected c \<union> leaders_of r'\<rparr>)"
| persist: "i \<in> S \<Longrightarrow> persist_states (c_mem c i) (c_disk c i) = Some ds \<Longrightarrow>
    Advance (c_mem c i) = Some r' \<Longrightarrow>
    cluster_step S cfg c (c\<lparr>c_mem := (c_mem c)(i := r'), c_disk := (c_disk c)(i := last ds),
      c_net := c_net c \<union> set (r_msgs (c_mem c i))\<rparr>)"
| crash: "i \<in> S \<Longrightarrow>
    d = c_disk c i \<or> (\<exists>ds. persist_states (c_mem c i) (c_disk c i) = Some ds \<and> d \<in> set ds) \<Longrightarrow>
    restart (cfg i) rnd d = Some r' \<Longrightarrow>
    cluster_step S cfg c (c\<lparr>c_mem := (c_mem c)(i := r'), c_disk := (c_disk c)(i := d)\<rparr>)"

inductive cluster_init :: "uint64 set \<Rightarrow> (uint64 \<Rightarrow> Config) \<Rightarrow> cluster \<Rightarrow> bool"
  for S cfg where
  "(\<And>i. i \<in> S \<Longrightarrow> restart (cfg i) (rnd i) empty_disk = Some (mem i)) \<Longrightarrow>
   cluster_init S cfg \<lparr>c_mem = mem, c_disk = (\<lambda>_. empty_disk), c_net = {}, c_elected = {}\<rparr>"

inductive reachable :: "uint64 set \<Rightarrow> (uint64 \<Rightarrow> Config) \<Rightarrow> cluster \<Rightarrow> bool"
  for S cfg where
  init: "cluster_init S cfg c \<Longrightarrow> reachable S cfg c"
| step: "reachable S cfg c \<Longrightarrow> cluster_step S cfg c c' \<Longrightarrow> reachable S cfg c'"

section \<open>Quorums\<close>

locale quorums =
  fixes quorum :: "'a set \<Rightarrow> bool"
  assumes intersect: "quorum P \<Longrightarrow> quorum Q \<Longrightarrow> \<exists>v. v \<in> P \<and> v \<in> Q"
begin

text \<open>When no voter supports two candidates, two candidates with quorums are the same.\<close>

lemma one_winner:
  assumes "quorum P" "quorum Q" "\<And>v. v \<in> P \<Longrightarrow> votes v a" "\<And>v. v \<in> Q \<Longrightarrow> votes v b"
    and "\<And>v. votes v a \<Longrightarrow> votes v b \<Longrightarrow> a = b"
  shows "a = b"
  using intersect [OF assms(1,2)] assms(3-5) by blast

end

definition is_majority :: "uint64 set \<Rightarrow> uint64 set \<Rightarrow> bool" where
  "is_majority S Q \<longleftrightarrow> Q \<subseteq> S \<and> card S div 2 + 1 \<le> card Q"

lemma majorities_intersect:
  assumes "is_majority S P" "is_majority S Q"
  shows "\<exists>v. v \<in> P \<and> v \<in> Q"
proof (rule ccontr)
  assume "\<not> ?thesis"
  then have "card (P \<union> Q) = card P + card Q" by (intro card_Un_disjoint) auto
  moreover have "card (P \<union> Q) \<le> card S" using assms by (intro card_mono) (auto simp: is_majority_def)
  ultimately have "card P + card Q \<le> card S" by simp
  moreover have "card S div 2 + 1 \<le> card P" "card S div 2 + 1 \<le> card Q"
    using assms by (simp_all add: is_majority_def)
  moreover have "card S < 2 * (card S div 2 + 1)" by simp
  ultimately show False by linarith
qed

interpretation maj: quorums "is_majority S" for S
  by unfold_locales (rule majorities_intersect)

section \<open>What storage and restart do to the hard state\<close>

lemma disk_append_hs: "d' \<in> set (disk_append es d) \<Longrightarrow> dk_hs d' = dk_hs d"
  by (induction es arbitrary: d) auto

lemma disk_append_nonempty [simp]: "disk_append es d \<noteq> []"
  by (cases es) simp_all

definition hs_of :: "Raft \<Rightarrow> HardState" where
  "hs_of r = \<lparr>hs_Term = r_currentTerm r, hs_Vote = r_votedFor r\<rparr>"

lemma persist_states_hs:
  assumes "persist_states r d = Some ds"
    and "r_stableTerm r = hs_Term (dk_hs d)" "r_stableVote r = hs_Vote (dk_hs d)"
  shows "dk_hs (last ds) = hs_of r" and "d' \<in> set ds \<Longrightarrow> dk_hs d' \<in> {dk_hs d, hs_of r}"
proof -
  obtain rd where rd: "Raft_Ready r = Some rd" using assms(1) by (auto simp: persist_states_def bind_eq_Some_conv)
  have hs: "rd_HardState rd = (if dk_hs d = hs_of r then None else Some (hs_of r))"
    using rd assms(2,3) by (cases "dk_hs d") (auto simp: Raft_Ready_def bind_eq_Some_conv hs_of_def)
  have "dk_hs (last ds) = hs_of r \<and> (\<forall>d' \<in> set ds. dk_hs d' \<in> {dk_hs d, hs_of r})"
  proof (cases "rd_Snapshot rd")
    case None
    define d1 where "d1 = (case rd_HardState rd of Some hs \<Rightarrow> disk_save_hs hs d | None \<Rightarrow> d)"
    define es where "es = disk_append (rd_UnstableEntries rd) (disk_truncate (rd_FirstUnstableIndex rd) d1)"
    have d1: "dk_hs d1 = hs_of r" using hs by (simp add: d1_def disk_save_hs_def)
    have ds: "ds = d # (if rd_UnstableEntries rd = [] then [d1] else d1 # es)"
      using assms(1) rd None
      by (auto simp: persist_states_def Let_def d1_def es_def split: if_splits)
    have es: "dk_hs d' = hs_of r" if "d' \<in> set es" for d'
      using disk_append_hs that d1 by (fastforce simp: es_def disk_truncate_def)
    have "es \<noteq> []" by (simp add: es_def)
    then have "dk_hs (last es) = hs_of r" by (intro es last_in_set)
    with ds d1 es \<open>es \<noteq> []\<close> show ?thesis by (cases "rd_UnstableEntries rd = []") auto
  next
    case (Some sn)
    then show ?thesis
      using assms(1) rd by (auto simp: persist_states_def bind_eq_Some_conv disk_save_snapshot_def hs_of_def)
  qed
  then show "dk_hs (last ds) = hs_of r" "d' \<in> set ds \<Longrightarrow> dk_hs d' \<in> {dk_hs d, hs_of r}" by auto
qed

lemma restart_state:
  assumes "restart cfg rnd d = Some r"
  shows "r_id r = cfg_ID cfg" "r_peers r = cfg_Peers cfg" "r_role r = Follower" "r_msgs r = []"
    "r_currentTerm r = hs_Term (dk_hs d)" "r_votedFor r = hs_Vote (dk_hs d)"
    "r_stableTerm r = hs_Term (dk_hs d)" "r_stableVote r = hs_Vote (dk_hs d)"
proof -
  obtain r0 r1 where *: "Raft_New cfg rnd = Inr r0"
    "restoreState (dk_hs d) (sentinel_of (dk_snapshot d) # dk_entries d) r0 = Some r1"
    "r = (if 0 < sn_LastIncludedIndex (dk_snapshot d)
       then r1\<lparr>r_snapshot := dk_snapshot d, r_stableSnapshotIndex := sn_LastIncludedIndex (dk_snapshot d)\<rparr> else r1)"
    using assms by (rule restart_shape)
  note r0 = Raft_New_state [OF *(1)] and r1 = restoreState_shape [OF *(2), simplified]
  show "r_id r = cfg_ID cfg" "r_peers r = cfg_Peers cfg" "r_role r = Follower" "r_msgs r = []"
    "r_currentTerm r = hs_Term (dk_hs d)" "r_votedFor r = hs_Vote (dk_hs d)"
    "r_stableTerm r = hs_Term (dk_hs d)" "r_stableVote r = hs_Vote (dk_hs d)"
    by (simp_all add: *(3) r0 r1)
qed

lemma Advance_state:
  assumes "Advance r = Some r'"
  shows "r_id r' = r_id r" "r_peers r' = r_peers r" "r_role r' = r_role r" "r_msgs r' = []"
    "r_currentTerm r' = r_currentTerm r" "r_votedFor r' = r_votedFor r"
    "r_votesReceived r' = r_votesReceived r"
    "r_stableTerm r' = r_currentTerm r" "r_stableVote r' = r_votedFor r"
  using assms by (auto simp: Advance_def bind_eq_Some_conv)

section \<open>The invariant of elections\<close>

definition inv_ids :: "uint64 set \<Rightarrow> (uint64 \<Rightarrow> Config) \<Rightarrow> cluster \<Rightarrow> bool" where
  "inv_ids S cfg c \<longleftrightarrow> (\<forall>i \<in> S. r_id (c_mem c i) = i \<and> r_peers (c_mem c i) = cfg_Peers (cfg i))"

text \<open>The durable hard state is the one recorded as stable, and memory is ahead of it.\<close>

definition ahead :: "HardState \<Rightarrow> Raft \<Rightarrow> bool" where
  "ahead h r \<longleftrightarrow> hs_Term h \<le> r_currentTerm r
     \<and> (hs_Term h = r_currentTerm r \<longrightarrow> hs_Vote h = 0 \<or> hs_Vote h = r_votedFor r)"

definition inv_disk :: "uint64 set \<Rightarrow> cluster \<Rightarrow> bool" where
  "inv_disk S c \<longleftrightarrow> (\<forall>i \<in> S. r_stableTerm (c_mem c i) = hs_Term (dk_hs (c_disk c i))
     \<and> r_stableVote (c_mem c i) = hs_Vote (dk_hs (c_disk c i)) \<and> ahead (dk_hs (c_disk c i)) (c_mem c i))"

definition inv_from :: "uint64 set \<Rightarrow> cluster \<Rightarrow> bool" where
  "inv_from S c \<longleftrightarrow> (\<forall>m \<in> c_net c. m_From m \<in> S) \<and> (\<forall>i \<in> S. \<forall>m \<in> set (r_msgs (c_mem c i)). m_From m = i)"

text \<open>\<open>backed h m\<close>: the hard state \<open>h\<close> of the sender remembers the ballot in \<open>m\<close>, or is past its term.\<close>

definition backed :: "uint64 set \<Rightarrow> HardState \<Rightarrow> Message \<Rightarrow> bool" where
  "backed S h m \<longleftrightarrow> (\<forall>t v. ballot m = Some (t, v) \<longrightarrow>
     v \<in> S \<and> t \<le> hs_Term h \<and> (t = hs_Term h \<longrightarrow> v = hs_Vote h))"

definition inv_backed :: "uint64 set \<Rightarrow> cluster \<Rightarrow> bool" where
  "inv_backed S c \<longleftrightarrow> (\<forall>m \<in> c_net c. backed S (dk_hs (c_disk c (m_From m))) m)
     \<and> (\<forall>i \<in> S. \<forall>m \<in> set (r_msgs (c_mem c i)). backed S (hs_of (c_mem c i)) m)"

definition inv_once :: "uint64 set \<Rightarrow> cluster \<Rightarrow> bool" where
  "inv_once S c \<longleftrightarrow> (\<forall>i \<in> S. \<forall>m m' t v v'.
     m \<in> c_net c \<union> set (r_msgs (c_mem c i)) \<longrightarrow> m' \<in> c_net c \<union> set (r_msgs (c_mem c i)) \<longrightarrow>
     m_From m = i \<longrightarrow> m_From m' = i \<longrightarrow> ballot m = Some (t, v) \<longrightarrow> ballot m' = Some (t, v') \<longrightarrow> v = v')"

definition requested :: "cluster \<Rightarrow> Message \<Rightarrow> bool" where
  "requested c m \<longleftrightarrow> (\<forall>t v. granted_to m t v \<longrightarrow>
     (\<exists>q \<in> c_net c. m_Type q = MsgRequestVote \<and> m_From q = v \<and> m_Term q = t))"

definition inv_requested :: "uint64 set \<Rightarrow> cluster \<Rightarrow> bool" where
  "inv_requested S c \<longleftrightarrow> (\<forall>m \<in> c_net c. requested c m)
     \<and> (\<forall>i \<in> S. \<forall>m \<in> set (r_msgs (c_mem c i)). requested c m)"

text \<open>\<open>supports c t i v\<close>: the vote of \<open>v\<close> for \<open>i\<close> in term \<open>t\<close> has reached the network, or \<open>v\<close> is \<open>i\<close> itself.\<close>

definition supports :: "uint64 set \<Rightarrow> cluster \<Rightarrow> uint64 \<Rightarrow> uint64 \<Rightarrow> uint64 \<Rightarrow> bool" where
  "supports S c t i v \<longleftrightarrow> v \<in> S \<and> (v = i \<or> (\<exists>m \<in> c_net c. m_From m = v \<and> granted_to m t i))"

definition inv_candidates :: "uint64 set \<Rightarrow> cluster \<Rightarrow> bool" where
  "inv_candidates S c \<longleftrightarrow> (\<forall>i \<in> S. r_role (c_mem c i) \<in> {Candidate, Leader} \<longrightarrow>
     r_votedFor (c_mem c i) = i \<and> (\<forall>v \<in> r_votesReceived (c_mem c i). supports S c (r_currentTerm (c_mem c i)) i v))"

definition inv_elected :: "uint64 set \<Rightarrow> cluster \<Rightarrow> bool" where
  "inv_elected S c \<longleftrightarrow>
     (\<forall>i \<in> S. r_role (c_mem c i) = Leader \<longrightarrow> (r_currentTerm (c_mem c i), i) \<in> c_elected c)
     \<and> (\<forall>(t, i) \<in> c_elected c. i \<in> S \<and> (\<exists>Q. is_majority S Q \<and> (\<forall>v \<in> Q. supports S c t i v)))"

definition election_inv :: "uint64 set \<Rightarrow> (uint64 \<Rightarrow> Config) \<Rightarrow> cluster \<Rightarrow> bool" where
  "election_inv S cfg c \<longleftrightarrow> inv_ids S cfg c \<and> inv_disk S c \<and> inv_from S c \<and> inv_backed S c
     \<and> inv_once S c \<and> inv_requested S c \<and> inv_candidates S c \<and> inv_elected S c"

lemmas inv_defs = inv_ids_def inv_disk_def inv_from_def inv_backed_def inv_once_def inv_requested_def
  inv_candidates_def inv_elected_def

lemma config_nonzero: "cluster_config S cfg \<Longrightarrow> 0 \<notin> S"
  by (auto simp: cluster_config_def validate_def split: if_splits)

subsection \<open>Single messages and states\<close>

lemma backed_mono:
  assumes "backed S h m" "0 \<notin> S" "hs_Term h \<le> hs_Term h'"
    and "hs_Term h = hs_Term h' \<Longrightarrow> hs_Vote h = 0 \<or> hs_Vote h = hs_Vote h'"
  shows "backed S h' m"
  unfolding backed_def
proof (intro allI impI)
  fix t v assume b: "ballot m = Some (t, v)"
  with assms(1) have *: "v \<in> S" "t \<le> hs_Term h" "t = hs_Term h \<longrightarrow> v = hs_Vote h"
    by (auto simp: backed_def)
  moreover have "t \<le> hs_Term h'" using *(2) assms(3) by simp
  moreover have "v = hs_Vote h'" if "t = hs_Term h'"
  proof -
    have "hs_Term h = hs_Term h'" using that *(2) assms(3) by simp
    with that * assms(2,4) show ?thesis by auto
  qed
  ultimately show "v \<in> S \<and> t \<le> hs_Term h' \<and> (t = hs_Term h' \<longrightarrow> v = hs_Vote h')" by simp
qed

lemma ahead_hs_of: "ahead h r \<Longrightarrow> backed S h m \<Longrightarrow> 0 \<notin> S \<Longrightarrow> backed S (hs_of r) m"
  by (rule backed_mono) (auto simp: ahead_def hs_of_def)

text \<open>Two ballots backed by the same hard state at its own term agree.\<close>

lemma backed_agree:
  "backed S h m \<Longrightarrow> ballot m = Some (hs_Term h, v) \<Longrightarrow> v = hs_Vote h"
  by (simp add: backed_def)

lemma term_ok_ahead:
  assumes "term_ok r r'" "ahead h r"
  shows "ahead h r'"
proof -
  have le: "hs_Term h \<le> r_currentTerm r" "r_currentTerm r \<le> r_currentTerm r'"
    using assms by (simp_all add: term_ok_def ahead_def)
  have "hs_Vote h = 0 \<or> hs_Vote h = r_votedFor r'" if "hs_Term h = r_currentTerm r'"
  proof -
    have "r_currentTerm r' = r_currentTerm r" using le that by simp
    with that assms show ?thesis by (auto simp: term_ok_def ahead_def)
  qed
  with le show ?thesis by (simp add: ahead_def)
qed

lemma term_ok_backed:
  "term_ok r r' \<Longrightarrow> backed S (hs_of r) m \<Longrightarrow> 0 \<notin> S \<Longrightarrow> backed S (hs_of r') m"
  by (erule backed_mono) (auto simp: term_ok_def hs_of_def)

lemma supports_mono: "supports S c t i v \<Longrightarrow> c_net c \<subseteq> c_net c' \<Longrightarrow> supports S c' t i v"
  by (auto simp: supports_def)

lemma requested_mono: "requested c m \<Longrightarrow> c_net c \<subseteq> c_net c' \<Longrightarrow> requested c' m"
  by (force simp: requested_def)

subsection \<open>Events\<close>

lemma vote_step_of_event:
  assumes "election_inv S cfg c" "0 \<notin> S" "i \<in> S" "apply_event ev (c_mem c i) = Some r'"
    and "r_currentTerm (c_mem c i) < r_currentTerm (c_mem c i) + 1"
  shows "vote_step (ev_votes ev (c_mem c i)) (ev_request ev) (c_mem c i) r'"
proof (rule vote_step_event [OF assms(4,5)])
  have "inv_candidates S c" using assms(1) by (simp add: election_inv_def)
  with assms(2,3) show "r_role (c_mem c i) \<in> {Candidate, Leader} \<longrightarrow> r_votedFor (c_mem c i) \<noteq> 0"
    by (auto simp: inv_candidates_def)
qed

text \<open>The messages a node has just produced are backed by its hard state, and were requested.\<close>

lemma event_new_messages:
  assumes "election_inv S cfg c" "i \<in> S" "vote_step vs (ev_request ev) (c_mem c i) r'"
    and "\<And>m. ev = ERecv m \<Longrightarrow> m \<in> c_net c"
  obtains new where "r_msgs r' = r_msgs (c_mem c i) @ new" "\<forall>m \<in> set new. m_From m = i"
    "\<forall>m \<in> set new. backed S (hs_of r') m" "\<forall>m \<in> set new. requested c m"
    "\<forall>m \<in> set new. \<forall>t v. ballot m = Some (t, v) \<longrightarrow> t = r_currentTerm r' \<and> v = r_votedFor r'"
proof -
  have inv: "inv_ids S cfg c" "inv_from S c" using assms(1) by (simp_all add: election_inv_def)
  have id: "r_id (c_mem c i) = i" using inv(1) assms(2) by (simp add: inv_ids_def)
  obtain new where new: "r_msgs r' = r_msgs (c_mem c i) @ new"
    "\<forall>m \<in> set new. m_From m = i
       \<and> (\<forall>t c. ballot m = Some (t, c) \<longrightarrow> t = r_currentTerm r' \<and> c = r_votedFor r')
       \<and> (\<forall>t c. granted_to m t c \<longrightarrow> ev_request ev c t)"
    using assms(3) id by (auto simp: vote_step_def sent_ok_def)
  have req: "\<exists>q \<in> c_net c. m_Type q = MsgRequestVote \<and> m_From q = v \<and> m_Term q = t"
    if "m \<in> set new" "granted_to m t v" for m t v
    using new(2) that assms(4) by (fastforce simp: ev_request_def)
  have "v \<in> S" if "m \<in> set new" "ballot m = Some (t, v)" for m t v
  proof (cases "m_Type m = MsgRequestVote")
    case True
    with that new(2) assms(2) show ?thesis by (auto simp: ballot_def)
  next
    case False
    with that(2) have "granted_to m t v" by (auto simp: ballot_def granted_to_def split: if_splits)
    with req [OF that(1)] inv(2) show ?thesis by (auto simp: inv_from_def)
  qed
  with new(2) have "\<forall>m \<in> set new. backed S (hs_of r') m"
    by (auto simp: backed_def hs_of_def)
  moreover have "\<forall>m \<in> set new. requested c m" using req by (auto simp: requested_def)
  ultimately show thesis using that new by blast
qed

lemma event_preserves_messages:
  fixes e :: "(uint64 \<times> uint64) set"
  assumes inv: "election_inv S cfg c" and "0 \<notin> S" "i \<in> S"
    and v: "vote_step vs (ev_request ev) (c_mem c i) r'"
    and "\<And>m. ev = ERecv m \<Longrightarrow> m \<in> c_net c"
  defines "c' \<equiv> c\<lparr>c_mem := (c_mem c)(i := r'), c_elected := e\<rparr>"
  shows "inv_ids S cfg c'" "inv_disk S c'" "inv_from S c'" "inv_backed S c'" "inv_requested S c'"
    "inv_once S c'"
proof -
  let ?r = "c_mem c i"
  note parts = inv [unfolded election_inv_def]
  have tk: "term_ok ?r r'" using v by (simp add: vote_step_def)
  obtain new where new: "r_msgs r' = r_msgs ?r @ new" "\<forall>m \<in> set new. m_From m = i"
    "\<forall>m \<in> set new. backed S (hs_of r') m" "\<forall>m \<in> set new. requested c m"
    "\<forall>m \<in> set new. \<forall>t v. ballot m = Some (t, v) \<longrightarrow> t = r_currentTerm r' \<and> v = r_votedFor r'"
    using event_new_messages [OF inv assms(3) v assms(5)] by metis
  have net: "c_net c' = c_net c" "c_disk c' = c_disk c" "\<And>m. requested c' m = requested c m"
    by (simp_all add: c'_def requested_def)
  have mem: "c_mem c' j = (if j = i then r' else c_mem c j)" for j by (simp add: c'_def)
  have old: "backed S (hs_of r') m" if "m \<in> set (r_msgs ?r)" for m
    using that parts assms(2,3) tk by (auto simp: inv_backed_def intro: term_ok_backed)
  have disk: "ahead (dk_hs (c_disk c i)) r'"
    using parts assms(3) tk by (auto simp: inv_disk_def intro: term_ok_ahead)
  show "inv_ids S cfg c'" using parts tk by (auto simp: inv_ids_def mem term_ok_def)
  show "inv_disk S c'" using parts tk disk by (auto simp: inv_disk_def mem net term_ok_def)
  show "inv_from S c'" using parts new(1,2) by (auto simp: inv_from_def mem net)
  show "inv_backed S c'" using parts new(1,3) old by (auto simp: inv_backed_def mem net)
  show "inv_requested S c'" using parts new(1,4) by (auto simp: inv_requested_def mem net)
  have hb: "backed S (hs_of r') m" if "m \<in> c_net c \<union> set (r_msgs r')" "m_From m = i" for m
  proof (cases "m \<in> c_net c")
    case True
    then have "backed S (dk_hs (c_disk c i)) m" using parts that(2) by (auto simp: inv_backed_def)
    with disk show ?thesis using assms(2) by (rule ahead_hs_of)
  next
    case False
    with that new(1,3) old show ?thesis by auto
  qed
  show "inv_once S c'"
    unfolding inv_once_def
  proof (intro ballI allI impI)
    fix j m m' t v v'
    assume j: "j \<in> S" and m: "m \<in> c_net c' \<union> set (r_msgs (c_mem c' j))"
      "m' \<in> c_net c' \<union> set (r_msgs (c_mem c' j))" "m_From m = j" "m_From m' = j"
      and b: "ballot m = Some (t, v)" "ballot m' = Some (t, v')"
    show "v = v'"
    proof (cases "j = i \<and> t = r_currentTerm r'")
      case True
      then have "backed S (hs_of r') m" "backed S (hs_of r') m'"
        using hb m by (auto simp: mem net)
      with True b show ?thesis by (auto simp: backed_def hs_of_def)
    next
      case False
      then have "m \<in> c_net c \<union> set (r_msgs (c_mem c j))" "m' \<in> c_net c \<union> set (r_msgs (c_mem c j))"
        using m b new(1,5) by (auto simp: mem net split: if_splits)
      then show ?thesis using parts j m(3,4) b unfolding inv_once_def by blast
    qed
  qed
qed

lemma event_preserves_leaders:
  assumes inv: "election_inv S cfg c" and cfg: "cluster_config S cfg" "i \<in> S"
    and v: "vote_step (ev_votes ev (c_mem c i)) (ev_request ev) (c_mem c i) r'"
    and ev: "\<And>m. ev = ERecv m \<Longrightarrow> m \<in> c_net c"
  defines "c' \<equiv> c\<lparr>c_mem := (c_mem c)(i := r'), c_elected := c_elected c \<union> leaders_of r'\<rparr>"
  shows "inv_candidates S c'" "inv_elected S c'"
proof -
  let ?r = "c_mem c i"
  note parts = inv [unfolded election_inv_def]
  have id: "r_id ?r = i" "r_peers ?r = cfg_Peers (cfg i)"
    using parts cfg(2) by (simp_all add: inv_ids_def)
  have mem: "c_mem c' j = (if j = i then r' else c_mem c j)" for j by (simp add: c'_def)
  have sup: "supports S c' t j u = supports S c t j u" for t j u by (simp add: c'_def supports_def)
  have tk: "term_ok ?r r'" and ck: "candidate_ok (ev_votes ev ?r) ?r r'" and lk: "leader_ok ?r r'"
    using v by (simp_all add: vote_step_def)
  have votes: "r_votedFor r' = i \<and> (\<forall>u \<in> r_votesReceived r'. supports S c (r_currentTerm r') i u)"
    if role: "r_role r' \<in> {Candidate, Leader}"
  proof -
    consider (old) "r_role ?r \<in> {Candidate, Leader}" "r_currentTerm r' = r_currentTerm ?r"
        "r_votedFor r' = r_votedFor ?r" "r_votesReceived r' \<subseteq> r_votesReceived ?r \<union> ev_votes ev ?r"
      | (fresh) "r_votedFor r' = i" "r_votesReceived r' = {i}"
      using ck role unfolding candidate_ok_def id by metis
    then show ?thesis
    proof cases
      case old
      have "supports S c (r_currentTerm ?r) i u" if "u \<in> ev_votes ev ?r" for u
        using that ev parts id by (auto simp: ev_votes_def supports_def inv_from_def)
      with old parts cfg(2) show ?thesis by (auto simp: inv_candidates_def)
    next
      case fresh
      with cfg(2) show ?thesis by (simp add: supports_def)
    qed
  qed
  then show "inv_candidates S c'"
    using parts by (auto simp: inv_candidates_def mem sup)
  have maj: "\<exists>Q. is_majority S Q \<and> (\<forall>u \<in> Q. supports S c (r_currentTerm r') i u)"
    if role: "r_role r' = Leader"
  proof (cases "hasMajorityCount (card (r_votesReceived r')) ?r")
    case True
    have "set (cfg_Peers (cfg i)) = S - {i}" "distinct (cfg_Peers (cfg i))"
      using cfg by (auto simp: cluster_config_def)
    then have "length (cfg_Peers (cfg i)) = card (S - {i})" by (metis distinct_card)
    then have "clusterSize ?r = card S"
      using cfg(2) id card_Suc_Diff1 [of S i] by (simp add: clusterSize_def)
    moreover have "r_votesReceived r' \<subseteq> S" using votes role by (auto simp: supports_def)
    ultimately have "is_majority S (r_votesReceived r')"
      using True by (simp add: is_majority_def hasMajorityCount_def)
    with votes role show ?thesis by blast
  next
    case False
    with lk role have "r_role ?r = Leader" "r_currentTerm r' = r_currentTerm ?r"
      by (auto simp: leader_ok_def)
    then have "(r_currentTerm r', i) \<in> c_elected c" using parts cfg(2) by (auto simp: inv_elected_def)
    with parts show ?thesis by (auto simp: inv_elected_def)
  qed
  have el: "c_elected c' = c_elected c \<union> (if r_role r' = Leader then {(r_currentTerm r', i)} else {})"
    using tk id by (simp add: c'_def leaders_of_def term_ok_def)
  have old: "inv_elected S c" using parts by simp
  show "inv_elected S c'"
    unfolding inv_elected_def mem sup el
    using old [unfolded inv_elected_def] maj cfg(2) by auto
qed

subsection \<open>Persisting and crashing\<close>

text \<open>
  Both replace the memory of a node by one with an empty outbox whose hard state is durable; persisting
  also puts the outbox on the network.
\<close>

lemma settle_preserves:
  assumes inv: "election_inv S cfg c" and S: "0 \<notin> S" "i \<in> S"
    and r': "r_id r' = i" "r_peers r' = cfg_Peers (cfg i)" "r_msgs r' = []"
      "r_stableTerm r' = hs_Term (dk_hs d)" "r_stableVote r' = hs_Vote (dk_hs d)"
      "hs_of r' = dk_hs d"
    and d: "dk_hs d \<in> {dk_hs (c_disk c i), hs_of (c_mem c i)}"
    and out: "out = {} \<or> out = set (r_msgs (c_mem c i)) \<and> dk_hs d = hs_of (c_mem c i)"
  defines "c' \<equiv> c\<lparr>c_mem := (c_mem c)(i := r'), c_disk := (c_disk c)(i := d), c_net := c_net c \<union> out\<rparr>"
  shows "inv_ids S cfg c'" "inv_disk S c'" "inv_from S c'" "inv_backed S c'" "inv_requested S c'"
    "inv_once S c'"
proof -
  note parts = inv [unfolded election_inv_def]
  have mem: "c_mem c' j = (if j = i then r' else c_mem c j)" for j by (simp add: c'_def)
  have disk: "c_disk c' j = (if j = i then d else c_disk c j)" for j by (simp add: c'_def)
  have net: "c_net c' = c_net c \<union> out" by (simp add: c'_def)
  have out_i: "m_From m = i" if "m \<in> out" for m
    using out parts S(2) that by (auto simp: inv_from_def)
  have "ahead (dk_hs (c_disk c i)) (c_mem c i)" using parts S(2) by (simp add: inv_disk_def)
  then have keep: "backed S (dk_hs d) m" if "backed S (dk_hs (c_disk c i)) m" for m
    using d that ahead_hs_of [OF _ that S(1)] by auto
  have sent: "backed S (dk_hs d) m" if "m \<in> out" for m
    using that out parts S(2) by (auto simp: inv_backed_def)
  show "inv_ids S cfg c'" using parts r' by (auto simp: inv_ids_def mem)
  have "ahead (dk_hs d) r'" unfolding r'(6) [symmetric] by (simp add: ahead_def hs_of_def)
  then show "inv_disk S c'" using parts r' by (auto simp: inv_disk_def mem disk)
  show "inv_from S c'" using parts r'(3) out_i S(2) by (auto simp: inv_from_def mem net)
  show "inv_backed S c'"
    using parts r'(3) keep sent out_i by (auto simp: inv_backed_def mem disk net)
  have "requested c m" if "m \<in> out" for m
    using that out parts S(2) by (auto simp: inv_requested_def)
  with parts r'(3) show "inv_requested S c'"
    by (auto simp: inv_requested_def mem net intro: requested_mono [where c = c])
  show "inv_once S c'"
    unfolding inv_once_def
  proof (intro ballI allI impI)
    fix j m m' t v v'
    assume j: "j \<in> S" and m: "m \<in> c_net c' \<union> set (r_msgs (c_mem c' j))"
      "m' \<in> c_net c' \<union> set (r_msgs (c_mem c' j))" "m_From m = j" "m_From m' = j"
      and b: "ballot m = Some (t, v)" "ballot m' = Some (t, v')"
    have "x \<in> c_net c \<union> set (r_msgs (c_mem c j))"
      if "x \<in> c_net c' \<union> set (r_msgs (c_mem c' j))" "m_From x = j" for x
      using that out out_i r'(3) by (auto simp: mem net split: if_splits)
    with m have "m \<in> c_net c \<union> set (r_msgs (c_mem c j))" "m' \<in> c_net c \<union> set (r_msgs (c_mem c j))"
      by blast+
    then show "v = v'" using parts j m(3,4) b unfolding inv_once_def by blast
  qed
qed

lemma settle_preserves_leaders:
  fixes d :: disk and out :: "Message set"
  assumes inv: "election_inv S cfg c" and "i \<in> S"
    and "r_role r' \<in> {Candidate, Leader} \<longrightarrow> r_role r' = r_role (c_mem c i)
      \<and> r_currentTerm r' = r_currentTerm (c_mem c i) \<and> r_votedFor r' = r_votedFor (c_mem c i)
      \<and> r_votesReceived r' = r_votesReceived (c_mem c i)"
  defines "c' \<equiv> c\<lparr>c_mem := (c_mem c)(i := r'), c_disk := (c_disk c)(i := d), c_net := c_net c \<union> out\<rparr>"
  shows "inv_candidates S c'" "inv_elected S c'"
proof -
  note parts = inv [unfolded election_inv_def]
  have mem: "c_mem c' j = (if j = i then r' else c_mem c j)" for j by (simp add: c'_def)
  have el: "c_elected c' = c_elected c" by (simp add: c'_def)
  have sup: "supports S c' t j u" if "supports S c t j u" for t j u
    using that by (rule supports_mono) (simp add: c'_def)
  show "inv_candidates S c'"
    using parts assms(2,3) by (auto simp: inv_candidates_def mem intro: sup)
  have e: "inv_elected S c" using parts by blast
  have "(r_currentTerm (c_mem c' j), j) \<in> c_elected c'" if "j \<in> S" "r_role (c_mem c' j) = Leader" for j
    using e that assms(3) unfolding inv_elected_def mem el by (cases "j = i") simp_all
  moreover have "\<exists>Q. is_majority S Q \<and> (\<forall>v \<in> Q. supports S c' t j v)" "j \<in> S" if "(t, j) \<in> c_elected c'" for t j
    using e that sup unfolding inv_elected_def el by blast+
  ultimately show "inv_elected S c'" unfolding inv_elected_def by blast
qed

subsection \<open>Reachable states\<close>

lemma init_election_inv:
  assumes "cluster_config S cfg" "cluster_init S cfg c"
  shows "election_inv S cfg c"
  using assms(2)
proof cases
  case (1 rnd mem)
  note r = restart_state [OF 1(2)]
  show ?thesis
    using assms(1) unfolding 1(1) election_inv_def
    by (simp add: inv_defs r cluster_config_def ahead_def empty_disk_def backed_def)
qed

lemma step_election_inv:
  assumes cfg: "cluster_config S cfg" and inv: "election_inv S cfg c" and step: "cluster_step S cfg c c'"
  shows "election_inv S cfg c'"
  using step
proof cases
  case (event i ev r')
  note v = vote_step_of_event [OF inv config_nonzero [OF cfg] event(2,3,5)]
  note m = event_preserves_messages [OF inv config_nonzero [OF cfg] event(2) v event(4)]
  note l = event_preserves_leaders [OF inv cfg event(2) v event(4)]
  from m l show ?thesis unfolding event(1) election_inv_def by blast
next
  case (persist i ds r')
  have i: "r_stableTerm (c_mem c i) = hs_Term (dk_hs (c_disk c i))"
    "r_stableVote (c_mem c i) = hs_Vote (dk_hs (c_disk c i))" "r_id (c_mem c i) = i"
    "r_peers (c_mem c i) = cfg_Peers (cfg i)"
    using inv persist(2) by (auto simp: election_inv_def inv_disk_def inv_ids_def)
  note hs = persist_states_hs(1) [OF persist(3) i(1,2)]
  note a = Advance_state [OF persist(4)]
  let ?out = "set (r_msgs (c_mem c i))"
  have eq: "hs_of r' = dk_hs (last ds)" by (simp add: hs hs_of_def a)
  then have st: "r_stableTerm r' = hs_Term (dk_hs (last ds))" "r_stableVote r' = hs_Vote (dk_hs (last ds))"
    using a by (auto simp: hs_of_def simp flip: eq)
  note m = settle_preserves [OF inv config_nonzero [OF cfg] persist(2) _ _ _ st eq, where out = ?out]
  note l = settle_preserves_leaders [OF inv persist(2), where r' = r' and d = "last ds" and out = ?out]
  have "r_id r' = i" "r_peers r' = cfg_Peers (cfg i)" "r_msgs r' = []"
    "dk_hs (last ds) \<in> {dk_hs (c_disk c i), hs_of (c_mem c i)}"
    "?out = {} \<or> ?out = ?out \<and> dk_hs (last ds) = hs_of (c_mem c i)"
    using a i hs by simp_all
  note m' = m [OF this]
  have "r_role r' \<in> {Candidate, Leader} \<longrightarrow> r_role r' = r_role (c_mem c i)
      \<and> r_currentTerm r' = r_currentTerm (c_mem c i) \<and> r_votedFor r' = r_votedFor (c_mem c i)
      \<and> r_votesReceived r' = r_votesReceived (c_mem c i)" by (simp add: a)
  note l' = l [OF this]
  show ?thesis unfolding persist(1) election_inv_def using m' l' by blast
next
  case (crash i d rnd r')
  have i: "r_stableTerm (c_mem c i) = hs_Term (dk_hs (c_disk c i))"
    "r_stableVote (c_mem c i) = hs_Vote (dk_hs (c_disk c i))"
    using inv crash(2) by (auto simp: election_inv_def inv_disk_def)
  have d: "dk_hs d \<in> {dk_hs (c_disk c i), hs_of (c_mem c i)}"
    using crash(3) persist_states_hs(2) [OF _ i] by blast
  have ci: "cfg_ID (cfg i) = i" using cfg crash(2) by (simp add: cluster_config_def)
  note r = restart_state [OF crash(4)]
  have eq: "hs_of r' = dk_hs d" by (cases "dk_hs d") (simp add: hs_of_def r)
  note m = settle_preserves [OF inv config_nonzero [OF cfg] crash(2) _ _ _ r(7,8) eq d, where out = "{}"]
  note l = settle_preserves_leaders [OF inv crash(2), where r' = r' and d = d and out = "{}"]
  have "r_id r' = i" "r_peers r' = cfg_Peers (cfg i)" "r_msgs r' = []" by (simp_all add: r ci)
  note m' = m [OF this]
  show ?thesis unfolding crash(1) election_inv_def using m' l by (simp add: r)
qed

lemma reachable_election_inv:
  "reachable S cfg c \<Longrightarrow> cluster_config S cfg \<Longrightarrow> election_inv S cfg c"
  by (induction rule: reachable.induct) (auto intro: init_election_inv step_election_inv)

end
