(* ===== verification/Raft_Election.thy ===== *)
theory Raft_Election
  imports Raft_Cluster
begin

text \<open>
  Election safety of the cluster, and an executable scheduler for clusters: the actions of a script
  are steps of the cluster, so that a concrete run exhibits a reachable state.
\<close>

section \<open>Scripted runs\<close>

datatype action =
    ANode uint64 event
  | ADeliver nat
  | APersist uint64
  | ACrash uint64

text \<open>
  The state of a run lists the messages and the leaders in the order they appeared. \<open>ADeliver k\<close> hands
  the \<open>k\<close>-th message sent to its addressee; \<open>ACrash\<close> loses everything that was not persisted.
\<close>

record sim =
  s_mem :: "uint64 \<Rightarrow> Raft"
  s_disk :: "uint64 \<Rightarrow> disk"
  s_net :: "Message list"
  s_elected :: "(uint64 \<times> uint64) list"

definition sim_cluster :: "sim \<Rightarrow> cluster" where
  "sim_cluster s = \<lparr>c_mem = s_mem s, c_disk = s_disk s, c_net = set (s_net s), c_elected = set (s_elected s)\<rparr>"

definition sim_event :: "uint64 \<Rightarrow> event \<Rightarrow> sim \<Rightarrow> sim option" where
  "sim_event i ev s =
     (if r_currentTerm (s_mem s i) < r_currentTerm (s_mem s i) + 1 then do {
        r \<leftarrow> apply_event ev (s_mem s i);
        Some (s\<lparr>s_mem := (s_mem s)(i := r),
                s_elected := s_elected s @ (if r_role r = Leader then [(r_currentTerm r, r_id r)] else [])\<rparr>)
      } else None)"

fun sim_step :: "uint64 list \<Rightarrow> (uint64 \<Rightarrow> Config) \<Rightarrow> action \<Rightarrow> sim \<Rightarrow> sim option" where
  "sim_step ids cfg (ANode i ev) s =
     (if i \<in> set ids \<and> (case ev of ERecv m \<Rightarrow> False | _ \<Rightarrow> True) then sim_event i ev s else None)"
| "sim_step ids cfg (ADeliver k) s =
     (if k < length (s_net s) \<and> m_To (s_net s ! k) \<in> set ids
      then sim_event (m_To (s_net s ! k)) (ERecv (s_net s ! k)) s else None)"
| "sim_step ids cfg (APersist i) s =
     (if i \<in> set ids then do {
        ds \<leftarrow> persist_states (s_mem s i) (s_disk s i);
        r \<leftarrow> Advance (s_mem s i);
        Some (s\<lparr>s_mem := (s_mem s)(i := r), s_disk := (s_disk s)(i := last ds),
                s_net := s_net s @ r_msgs (s_mem s i)\<rparr>)
      } else None)"
| "sim_step ids cfg (ACrash i) s =
     (if i \<in> set ids then do {
        r \<leftarrow> restart (cfg i) (\<lambda>_. 0) (s_disk s i);
        Some (s\<lparr>s_mem := (s_mem s)(i := r)\<rparr>)
      } else None)"

definition sim_run :: "uint64 list \<Rightarrow> (uint64 \<Rightarrow> Config) \<Rightarrow> action list \<Rightarrow> sim \<Rightarrow> sim option" where
  "sim_run ids cfg = fold_option (sim_step ids cfg)"

definition sim_start :: "(uint64 \<Rightarrow> Config) \<Rightarrow> sim" where
  "sim_start cfg =
     \<lparr>s_mem = (\<lambda>i. the (restart (cfg i) (\<lambda>_. 0) empty_disk)), s_disk = (\<lambda>_. empty_disk),
      s_net = [], s_elected = []\<rparr>"

lemma sim_event_step:
  assumes "sim_event i ev s = Some s'" "i \<in> S" "\<And>m. ev = ERecv m \<Longrightarrow> m \<in> set (s_net s)"
  shows "cluster_step S cfg (sim_cluster s) (sim_cluster s')"
proof -
  from assms(1) obtain r where r: "apply_event ev (s_mem s i) = Some r"
    "r_currentTerm (s_mem s i) < r_currentTerm (s_mem s i) + 1"
    "s' = s\<lparr>s_mem := (s_mem s)(i := r),
            s_elected := s_elected s @ (if r_role r = Leader then [(r_currentTerm r, r_id r)] else [])\<rparr>"
    by (auto simp: sim_event_def bind_eq_Some_conv split: if_splits)
  have "cluster_step S cfg (sim_cluster s)
    ((sim_cluster s)\<lparr>c_mem := (c_mem (sim_cluster s))(i := r), c_elected := c_elected (sim_cluster s) \<union> leaders_of r\<rparr>)"
    using assms(2,3) r(1,2) by (intro cluster_step.event) (simp_all add: sim_cluster_def)
  moreover have "sim_cluster s' = (sim_cluster s)\<lparr>c_mem := (c_mem (sim_cluster s))(i := r),
    c_elected := c_elected (sim_cluster s) \<union> leaders_of r\<rparr>"
    by (simp add: r(3) sim_cluster_def leaders_of_def)
  ultimately show ?thesis by simp
qed

lemma sim_step_sound:
  assumes "sim_step ids cfg a s = Some s'"
  shows "cluster_step (set ids) cfg (sim_cluster s) (sim_cluster s')"
proof (cases a)
  case (ANode i ev)
  with assms show ?thesis
    by (intro sim_event_step [of i ev]) (auto split: if_splits event.splits)
next
  case (ADeliver k)
  with assms show ?thesis
    by (intro sim_event_step [of "m_To (s_net s ! k)" "ERecv (s_net s ! k)"]) (auto split: if_splits)
next
  case (APersist i)
  with assms obtain ds r where d: "i \<in> set ids" "persist_states (s_mem s i) (s_disk s i) = Some ds"
    "Advance (s_mem s i) = Some r"
    "s' = s\<lparr>s_mem := (s_mem s)(i := r), s_disk := (s_disk s)(i := last ds), s_net := s_net s @ r_msgs (s_mem s i)\<rparr>"
    by (auto simp: bind_eq_Some_conv split: if_splits)
  show ?thesis
    using cluster_step.persist [of i "set ids" "sim_cluster s" ds r cfg] d by (simp add: sim_cluster_def)
next
  case (ACrash i)
  with assms obtain r where r: "i \<in> set ids" "restart (cfg i) (\<lambda>_. 0) (s_disk s i) = Some r"
    "s' = s\<lparr>s_mem := (s_mem s)(i := r)\<rparr>"
    by (auto simp: bind_eq_Some_conv split: if_splits)
  show ?thesis
    using cluster_step.crash [of i "set ids" "s_disk s i" "sim_cluster s" cfg "\<lambda>_. 0" r] r
    by (simp add: sim_cluster_def)
qed

lemma sim_run_reachable:
  assumes "sim_run ids cfg acts s = Some s'" "reachable (set ids) cfg (sim_cluster s)"
  shows "reachable (set ids) cfg (sim_cluster s')"
  using fold_option_invariant [of "sim_step ids cfg" acts s s' "\<lambda>s. reachable (set ids) cfg (sim_cluster s)"]
    assms reachable.step sim_step_sound unfolding sim_run_def by blast

lemma sim_start_reachable:
  assumes "\<And>i. i \<in> S \<Longrightarrow> restart (cfg i) (\<lambda>_. 0) empty_disk \<noteq> None"
  shows "reachable S cfg (sim_cluster (sim_start cfg))"
proof (rule reachable.init)
  show "cluster_init S cfg (sim_cluster (sim_start cfg))"
    using cluster_init.intros [of S cfg "\<lambda>_ _. 0" "s_mem (sim_start cfg)"] assms
    by (auto simp: sim_cluster_def sim_start_def)
qed

section \<open>One leader per term\<close>

text \<open>
  Every vote behind an elected leader is a message on the network: the leader's own vote too, because
  another voter has answered its request.
\<close>

definition voted :: "uint64 set \<Rightarrow> cluster \<Rightarrow> uint64 \<Rightarrow> uint64 \<Rightarrow> uint64 \<Rightarrow> bool" where
  "voted S c t v u \<longleftrightarrow> v \<in> S \<and> (\<exists>m \<in> c_net c. m_From m = v \<and> ballot m = Some (t, u))"

lemma voted_once:
  assumes "election_inv S cfg c" "voted S c t v a" "voted S c t v b"
  shows "a = b"
proof -
  have "inv_once S c" using assms(1) by (simp add: election_inv_def)
  with assms(2,3) show ?thesis unfolding inv_once_def voted_def by blast
qed

lemma elected_ballots:
  assumes inv: "election_inv S cfg c" and "(t, a) \<in> c_elected c" "b \<in> S" "a \<noteq> b"
  obtains Q where "is_majority S Q"
    "\<And>v. v \<in> Q \<Longrightarrow> voted S c t v a"
proof -
  have parts: "inv_once S c" "inv_requested S c" "inv_elected S c" using inv by (simp_all add: election_inv_def)
  from parts(3) assms(2) obtain Q where a: "a \<in> S" and Q: "is_majority S Q" "\<And>v. v \<in> Q \<Longrightarrow> supports S c t a v"
    unfolding inv_elected_def by blast
  have fin: "finite S" by simp
  have "card {a, b} \<le> card S" using a assms(3) fin by (intro card_mono) auto
  with \<open>a \<noteq> b\<close> have "2 \<le> card S" by simp
  then have "2 \<le> card S div 2 + 1" by simp
  with Q(1) have "\<not> Q \<subseteq> {a}" using card_mono [of "{a}" Q] by (auto simp: is_majority_def)
  then obtain w where w: "w \<in> Q" "w \<noteq> a" by blast
  with Q(2) obtain m where m: "m \<in> c_net c" "granted_to m t a" unfolding supports_def by blast
  with parts(2) obtain q where q: "q \<in> c_net c" "m_Type q = MsgRequestVote" "m_From q = a" "m_Term q = t"
    unfolding inv_requested_def requested_def by blast
  show ?thesis
  proof (rule that [OF Q(1)])
    fix v assume v: "v \<in> Q"
    show "voted S c t v a"
    proof (cases "v = a")
      case True then show ?thesis using q a by (auto simp: voted_def ballot_def)
    next
      case False
      then show ?thesis using Q(2) [OF v] by (auto simp: voted_def supports_def granted_to_def ballot_def)
    qed
  qed
qed

text \<open>
  C4. Election safety: in every state that a cluster can reach, with messages lost, delayed, repeated
  and reordered and with nodes crashing at any moment, also in the middle of writing their storage, a
  term has had at most one leader.
\<close>

theorem election_safety:
  assumes "cluster_config S cfg" "reachable S cfg c" "(t, a) \<in> c_elected c" "(t, b) \<in> c_elected c"
  shows "a = b"
proof (rule ccontr)
  assume "a \<noteq> b"
  note inv = reachable_election_inv [OF assms(2,1)]
  from inv assms(3,4) have S: "a \<in> S" "b \<in> S" by (auto simp: election_inv_def inv_elected_def)
  obtain P where P: "is_majority S P" "\<And>v. v \<in> P \<Longrightarrow> voted S c t v a"
    using elected_ballots [OF inv assms(3) S(2) \<open>a \<noteq> b\<close>] by blast
  obtain Q where Q: "is_majority S Q" "\<And>v. v \<in> Q \<Longrightarrow> voted S c t v b"
    using elected_ballots [OF inv assms(4) S(1)] \<open>a \<noteq> b\<close> by blast
  have "a = b"
    using maj.one_winner [where votes = "voted S c t", OF P(1) Q(1)] P(2) Q(2) voted_once [OF inv] by blast
  with \<open>a \<noteq> b\<close> show False by simp
qed

definition ex_cfg :: "uint64 list \<Rightarrow> uint64 \<Rightarrow> Config" where
  "ex_cfg ids i = \<lparr>cfg_ID = i, cfg_Peers = filter (\<lambda>j. j \<noteq> i) ids, cfg_ElectionTick = 2, cfg_HeartbeatTick = 1\<rparr>"

definition ex_election :: "action list" where
  "ex_election = [ANode 1 ETick, ANode 1 ETick, APersist 1, ADeliver 0, APersist 2, ADeliver 1,
     APersist 1, ADeliver 2, APersist 2, ADeliver 3]"

definition ex_elected :: cluster where
  "ex_elected = sim_cluster (the (sim_run [1, 2] (ex_cfg [1, 2]) ex_election (sim_start (ex_cfg [1, 2]))))"

lemma ex_elected_reachable: "reachable {1, 2} (ex_cfg [1, 2]) ex_elected"
proof -
  have "sim_run [1, 2] (ex_cfg [1, 2]) ex_election (sim_start (ex_cfg [1, 2])) \<noteq> None" by code_simp
  moreover have "restart (ex_cfg [1, 2] i) (\<lambda>_. 0) empty_disk \<noteq> None" if "i \<in> {1, 2}" for i
    using that by (elim insertE emptyE; simp only:; code_simp)
  ultimately show ?thesis
    using sim_run_reachable [of "[1, 2]" "ex_cfg [1, 2]" ex_election] sim_start_reachable [of "{1, 2}"]
    by (fastforce simp: ex_elected_def)
qed

theorem election_safety_witness:
  "cluster_config {1, 2} (ex_cfg [1, 2]) \<and> reachable {1, 2} (ex_cfg [1, 2]) ex_elected
   \<and> {a. (1, a) \<in> c_elected ex_elected} = {1}"
proof -
  have 1: "cluster_config {1, 2} (ex_cfg [1, 2])" by (auto simp: cluster_config_def ex_cfg_def validate_def)
  have "s_elected (the (sim_run [1, 2] (ex_cfg [1, 2]) ex_election (sim_start (ex_cfg [1, 2])))) = [(1, 1)]"
    by code_simp
  then have "(1, 1) \<in> c_elected ex_elected" by (simp add: ex_elected_def sim_cluster_def)
  then have "{a. (1, a) \<in> c_elected ex_elected} = {1}"
    using election_safety [OF 1 ex_elected_reachable, of 1 _ 1] by blast
  with 1 ex_elected_reachable show ?thesis by blast
qed

end
