(* ===== verification/Raft_Runs.thy ===== *)
theory Raft_Runs
  imports Raft_Election
begin

text \<open>
  Concrete runs of a cluster of three nodes that end in states the comments of \<open>src/raft/raft.go\<close>
  rule out: two nodes that have committed different entries at one index, a delivery that panics, and
  a confirmed read index below an index that was already committed. In each run the messages between
  two nodes are delivered in the order they were sent, at most once, and some are lost.
\<close>

definition three :: "uint64 \<Rightarrow> Config" where
  "three = ex_cfg [1, 2, 3]"

definition run3 :: "action list \<Rightarrow> sim option" where
  "run3 acts = sim_run [1, 2, 3] three acts (sim_start three)"

lemma run3_reachable:
  assumes "run3 acts = Some s"
  shows "reachable {1, 2, 3} three (sim_cluster s)"
proof -
  have "restart (three i) (\<lambda>_. 0) empty_disk \<noteq> None" if "i \<in> {1, 2, 3}" for i
    using that by (elim insertE emptyE; simp only:; code_simp)
  then show ?thesis
    using sim_run_reachable [of "[1, 2, 3]" three acts "sim_start three" s] sim_start_reachable [of "{1, 2, 3}" three]
      assms by (simp add: run3_def)
qed

lemma run3_witness:
  assumes "map_option P (run3 acts) = Some True"
  obtains s where "reachable {1, 2, 3} three (sim_cluster s)" "P s"
proof -
  from assms obtain s where "run3 acts = Some s" "P s" by (auto simp: map_option_eq_Some)
  with run3_reachable that show thesis by blast
qed

text \<open>Node 1 is elected by node 2.\<close>

definition elect_1 :: "action list" where
  "elect_1 = [ANode 1 ETick, ANode 1 ETick, APersist 1, ADeliver 0, APersist 2, ADeliver 2,
     APersist 1, ADeliver 3, APersist 2, ADeliver 5, APersist 1]"

section \<open>A snapshot that discards acknowledged entries\<close>

text \<open>
  Node 2 acknowledges the entries 1 and 2, then installs a snapshot that ends at 1 and so drops entry 2,
  which the leader commits on the strength of the acknowledgement. Node 2 is then elected by node 3 and
  commits another entry at index 2.
\<close>

definition lose_entry :: "action list" where
  "lose_entry = elect_1 @
    [ANode 1 (EPropose [[65]]), APersist 1, ADeliver 8, APersist 2, ADeliver 10,
     ANode 1 (EPropose [[66]]), ANode 1 ETick, ANode 1 ETick, APersist 1,
     ADeliver 13, ADeliver 15, APersist 2, ADeliver 17, ANode 1 (ESnapshot 1 [65]), ADeliver 18, APersist 1,
     ADeliver 19, ADeliver 20, APersist 2, ADeliver 21, APersist 1,
     ANode 2 ETick, ANode 2 ETick, APersist 2, ADeliver 24, APersist 3, ADeliver 25, APersist 2,
     ADeliver 27, APersist 3, ADeliver 28, ANode 2 (EPropose [[67]]), APersist 2,
     ADeliver 30, APersist 3, ADeliver 33, APersist 2, ADeliver 34, APersist 3, ADeliver 35,
     ANode 2 ETick, APersist 2, ADeliver 37, APersist 3, ADeliver 38, APersist 2]"

definition committed_at :: "uint64 \<Rightarrow> LogEntry \<Rightarrow> Raft \<Rightarrow> bool" where
  "committed_at i e r \<longleftrightarrow> i \<le> r_commitIndex r \<and> Entries (i - 1) i r = Some [e]"

text \<open>
  C26. A cluster whose nodes compact their logs can reach a state in which two nodes have committed
  different entries at the same index.
\<close>

theorem install_snapshot_breaks_agreement:
  "\<exists>c. reachable {1, 2, 3} three c
     \<and> committed_at 2 \<lparr>le_Term = 1, le_Index = 2, le_Data = [66]\<rparr> (c_mem c 1)
     \<and> committed_at 2 \<lparr>le_Term = 2, le_Index = 2, le_Data = [67]\<rparr> (c_mem c 2)"
proof -
  let ?P = "\<lambda>s. committed_at 2 \<lparr>le_Term = 1, le_Index = 2, le_Data = [66]\<rparr> (s_mem s 1)
     \<and> committed_at 2 \<lparr>le_Term = 2, le_Index = 2, le_Data = [67]\<rparr> (s_mem s 2)"
  have "map_option ?P (run3 lose_entry) = Some True" by code_simp
  then show ?thesis by (rule run3_witness) (auto simp: sim_cluster_def)
qed

section \<open>A delivery that panics\<close>

text \<open>
  The first AppendEntries to node 2 is lost; two heartbeats are refused, and each refusal makes the leader
  send the log from the start again. Node 2 takes the first copy, compacts its log, and panics on the second.
\<close>

definition resend_after_compaction :: "action list" where
  "resend_after_compaction = elect_1 @
    [ANode 1 (EPropose [[65], [66]]), ANode 1 ETick, ANode 1 ETick, APersist 1,
     ADeliver 9, APersist 3, ADeliver 14, ADeliver 10, ADeliver 12, APersist 2, ADeliver 15, ADeliver 16, APersist 1,
     ADeliver 17, APersist 2, ANode 2 (ESnapshot 2 [65, 66])]"

text \<open>
  C27. A cluster can reach a state in which an AppendEntries message that is on the network makes its
  addressee panic.
\<close>

theorem append_entries_panics:
  "\<exists>c m. reachable {1, 2, 3} three c \<and> m \<in> c_net c \<and> m_To m = 2 \<and> m_Type m = MsgAppendEntries
     \<and> Step m (c_mem c 2) = None"
proof -
  let ?P = "\<lambda>s. 18 < length (s_net s) \<and> m_To (s_net s ! 18) = 2 \<and> m_Type (s_net s ! 18) = MsgAppendEntries
     \<and> Option.is_none (Step (s_net s ! 18) (s_mem s 2))"
  have "map_option ?P (run3 resend_after_compaction) = Some True" by code_simp
  then obtain s where s: "reachable {1, 2, 3} three (sim_cluster s)" "?P s" by (rule run3_witness)
  then have "s_net s ! 18 \<in> c_net (sim_cluster s)" "Step (s_net s ! 18) (c_mem (sim_cluster s) 2) = None"
    by (simp_all add: sim_cluster_def Option.is_none_def)
  with s show ?thesis by blast
qed

section \<open>A read index that misses a committed entry\<close>

text \<open>
  Node 2 acknowledges entry 1, which node 1 commits, and is elected by node 3 before it hears of the
  commit. It confirms a read at its own commit index, 0.
\<close>

definition early_read :: "action list" where
  "early_read = elect_1 @
    [ANode 1 (EPropose [[65]]), APersist 1, ADeliver 8, APersist 2, ADeliver 10,
     ANode 2 ETick, ANode 2 ETick, APersist 2, ADeliver 12, APersist 3, ADeliver 13, APersist 2,
     ADeliver 15, APersist 3, ADeliver 16, APersist 2, ADeliver 18, ANode 2 (EReadIndex 7), APersist 2,
     ADeliver 20, APersist 3, ADeliver 22]"

text \<open>
  C28. A cluster can reach a state in which the leader of the newest term has confirmed a read at an
  index below one that the leader of an earlier term has committed.
\<close>

theorem read_index_misses_commit:
  "\<exists>c. reachable {1, 2, 3} three c
     \<and> committed_at 1 \<lparr>le_Term = 1, le_Index = 1, le_Data = [65]\<rparr> (c_mem c 1)
     \<and> r_role (c_mem c 2) = Leader \<and> r_currentTerm (c_mem c 1) < r_currentTerm (c_mem c 2)
     \<and> r_readStates (c_mem c 2) = [\<lparr>rs_Index = 0, rs_Context = 7\<rparr>]"
proof -
  let ?P = "\<lambda>s. committed_at 1 \<lparr>le_Term = 1, le_Index = 1, le_Data = [65]\<rparr> (s_mem s 1)
     \<and> r_role (s_mem s 2) = Leader \<and> r_currentTerm (s_mem s 1) < r_currentTerm (s_mem s 2)
     \<and> r_readStates (s_mem s 2) = [\<lparr>rs_Index = 0, rs_Context = 7\<rparr>]"
  have "map_option ?P (run3 early_read) = Some True" by code_simp
  then show ?thesis by (rule run3_witness) (auto simp: sim_cluster_def)
qed

end
