(* ===== verification/Raft_Log.thy ===== *)
theory Raft_Log
  imports Raft_Votes Raft_Node
begin

text \<open>
  The log of a Raft node: its indices have no gaps, and every AppendEntries message carries the entries that
  follow the index it names. Both are kept by every event, so positions computed from indices
  (\<open>logPos\<close>, \<open>Entries\<close>) are right. The second part is about the commit index and the reads that wait for it.
\<close>

section \<open>Gapless logs\<close>

text \<open>The indices of the entries after \<open>p\<close>, without wrapping around.\<close>

definition follows :: "uint64 \<Rightarrow> LogEntry list \<Rightarrow> bool" where
  "follows p es \<longleftrightarrow> (\<forall>i < length es. unat (le_Index (es ! i)) = unat p + 1 + i)"

definition gapless :: "Raft \<Rightarrow> bool" where
  "gapless r \<longleftrightarrow> (\<exists>s es. r_log r = s # es \<and> follows (le_Index s) es)"

text \<open>An index below \<open>2 ^ 63 - 1\<close>: positions are computed in a signed integer.\<close>

definition small :: "uint64 \<Rightarrow> bool" where
  "small i \<longleftrightarrow> unat i + 1 < 2 ^ 63"

definition msg_gapless :: "Message \<Rightarrow> bool" where
  "msg_gapless m \<longleftrightarrow>
     (m_Type m = MsgAppendEntries \<longrightarrow> follows (m_PrevLogIndex m) (m_Entries m) \<and> (\<forall>e \<in> set (m_Entries m). small (le_Index e)))
     \<and> (m_Type m = MsgInstallSnapshot \<longrightarrow> small (sn_LastIncludedIndex (m_Snapshot m)))"

lemma follows_Nil [simp]: "follows p []"
  by (simp add: follows_def)

lemma follows_append:
  "follows p (xs @ ys) \<longleftrightarrow> follows p xs \<and> (\<forall>i < length ys. unat (le_Index (ys ! i)) = unat p + 1 + length xs + i)"
proof
  assume A: "follows p (xs @ ys)"
  have "unat (le_Index (ys ! i)) = unat p + 1 + length xs + i" if "i < length ys" for i
    using A [unfolded follows_def, rule_format, of "length xs + i"] that by simp
  moreover have "follows p xs" unfolding follows_def
    using A [unfolded follows_def, rule_format] by (metis length_append nth_append trans_less_add1)
  ultimately show "follows p xs \<and> (\<forall>i < length ys. unat (le_Index (ys ! i)) = unat p + 1 + length xs + i)" by blast
next
  assume A: "follows p xs \<and> (\<forall>i < length ys. unat (le_Index (ys ! i)) = unat p + 1 + length xs + i)"
  show "follows p (xs @ ys)" unfolding follows_def
  proof (intro allI impI)
    fix i
    assume "i < length (xs @ ys)"
    then show "unat (le_Index ((xs @ ys) ! i)) = unat p + 1 + i"
      using A by (cases "i < length xs") (auto simp: nth_append follows_def)
  qed
qed

lemma follows_take: "follows p xs \<Longrightarrow> follows p (take n xs)"
  by (simp add: follows_def)

lemma follows_Cons: "follows p (e # es) \<longleftrightarrow> unat (le_Index e) = unat p + 1 \<and> follows (le_Index e) es"
  using follows_append [of p "[e]" es] by (auto simp: follows_def less_Suc_eq_0_disj)

lemma follows_snoc: "follows p (xs @ [e]) \<longleftrightarrow> follows p xs \<and> unat (le_Index e) = unat p + 1 + length xs"
  by (auto simp: follows_append)

lemma gaplessE:
  assumes "gapless r"
  obtains s es where "r_log r = s # es" "follows (le_Index s) es" "firstLogIndex r = Some (le_Index s)"
    "lastLogIndex r = Some (le_Index (last (r_log r)))" "unat (le_Index (last (r_log r))) = unat (le_Index s) + length es"
proof -
  obtain s es where l: "r_log r = s # es" "follows (le_Index s) es" using assms by (auto simp: gapless_def)
  have "unat (le_Index (last (s # es))) = unat (le_Index s) + length es"
  proof (cases es rule: rev_cases)
    case (snoc ys y)
    with l(2) show ?thesis by (simp add: follows_snoc)
  qed simp
  with l show thesis by (intro that [OF l]) (simp_all add: firstLogIndex_def lastLogIndex_def)
qed

lemma gapless_nth:
  assumes "gapless r" "i < length (r_log r)"
  shows "unat (le_Index (r_log r ! i)) = unat (le_Index (hd (r_log r))) + i"
  using assms by (cases i) (auto simp: gapless_def follows_def)

lemma gapless_last:
  assumes "gapless r"
  shows "unat (le_Index (last (r_log r))) = unat (le_Index (hd (r_log r))) + (length (r_log r) - 1)"
  using assms by (rule gaplessE) simp

lemma gapless_cong: "r_log r' = r_log r \<Longrightarrow> gapless r' = gapless r"
  by (simp add: gapless_def)

lemma gapless_take:
  assumes "gapless r" "n \<noteq> 0" "r_log r' = take n (r_log r)"
  shows "gapless r'"
  using assms by (cases n) (auto simp: gapless_def intro: follows_take)

lemma gapless_snoc:
  assumes "gapless r" "lastLogIndex r = Some lst" "unat (le_Index e) = unat lst + 1" "r_log r' = r_log r @ [e]"
  shows "gapless r'"
  using assms(1)
proof (cases rule: gaplessE)
  case (1 s es)
  then have "lst = le_Index (last (r_log r))" using assms(2) by simp
  with 1 assms(3,4) show ?thesis by (auto simp: gapless_def follows_snoc)
qed

text \<open>Positions.\<close>

lemma sint_63: "sint w = signed_take_bit 63 (uint w)" for w :: uint64
  by (simp add: sint_uint)

lemma sint_nonneg_unat:
  fixes w :: uint64
  assumes "0 \<le> sint w"
  shows "sint w = int (unat w)"
proof -
  have b: "\<not> bit (uint w) 63" using assms unfolding sint_63 signed_take_bit_nonnegative_iff .
  have "uint w < 2 ^ 64" using uint_lt2p [of w] by simp
  then have "uint w = take_bit (Suc 63) (uint w)" by (intro take_bit_int_eq_self [symmetric]) simp_all
  also have "\<dots> = take_bit 63 (uint w)" unfolding take_bit_Suc_from_most using b by simp
  finally have "uint w = take_bit 63 (uint w)" .
  then show ?thesis unfolding sint_63 signed_take_bit_eq_if_positive [OF b] by simp
qed

lemma sint_small_unat:
  fixes w :: uint64
  assumes "unat w < 2 ^ 63"
  shows "sint w = int (unat w)"
proof -
  have "int (unat w) < int (2 ^ 63)" using assms by (simp only: of_nat_less_iff)
  then have u: "uint w < 2 ^ 63" by simp
  have t: "take_bit 63 (uint w) = uint w" using u by (intro take_bit_int_eq_self) simp_all
  have b: "\<not> bit (uint w) 63" by (metis t bit_take_bit_iff less_irrefl)
  show ?thesis unfolding sint_63 signed_take_bit_eq_if_positive [OF b] t by simp
qed

lemma unat_succ_eq:
  fixes a b :: uint64
  assumes "unat a = unat b + 1"
  shows "a = b + 1"
proof -
  have "(word_of_nat (unat a) :: uint64) = word_of_nat (unat b + 1)" using assms by (simp only:)
  then show ?thesis by simp
qed

lemma unat_plus_one_small:
  fixes a :: uint64
  assumes "unat a + 1 < 2 ^ 64"
  shows "unat (a + 1) = unat a + 1"
proof -
  have "unat (word_of_nat (unat a + 1) :: uint64) = unat a + 1" using assms by (intro unat_of_nat_small) simp
  then show ?thesis by (simp add: add.commute)
qed

lemma unat_diff: "a \<le> b \<Longrightarrow> unat (b - a) = unat b - unat a" for a b :: uint64
  by (rule unat_sub)

text \<open>\<open>Entries\<close> returns the entries after the start, up to the end.\<close>

lemma Entries_gapless:
  assumes "gapless r" "r_log r = s # es" "Entries a b r = Some xs" "le_Index s \<le> a"
  shows "xs = take (unat (min b (le_Index (last (r_log r)))) - unat a) (drop (unat a - unat (le_Index s)) es)"
proof -
  have fst: "firstLogIndex r = Some (le_Index s)" and lst: "lastLogIndex r = Some (le_Index (last (r_log r)))"
    using assms(2) by (simp_all add: firstLogIndex_def lastLogIndex_def)
  define e where "e = min b (le_Index (last (r_log r)))"
  have e: "(if le_Index (last (r_log r)) < b then le_Index (last (r_log r)) else b) = e" by (auto simp: e_def min_def)
  have a: "(if a < le_Index s then le_Index s else a) = a" using assms(4) by auto
  have E: "(if e \<le> a then Some []
      else go_slice (r_log r) (sint (a - le_Index s) + 1) (sint (e - le_Index s) + 1)) = Some xs"
    using assms(3) unfolding Entries_def Let_def fst lst bind.bind_lunit e a by (cases "e \<le> a") (simp_all add: logPos_def fst)
  show ?thesis
  proof (cases "e \<le> a")
    case True
    then have "xs = []" using E by simp
    moreover have "unat e - unat a = 0" using True by (simp add: word_le_nat_alt)
    ultimately show ?thesis unfolding e_def [symmetric] by simp
  next
    case False
    define i j where "i = sint (a - le_Index s)" and "j = sint (e - le_Index s)"
    have sl: "go_slice (r_log r) (i + 1) (j + 1) = Some xs"
      using E False by (simp add: i_def j_def)
    have "a < e" using False by simp
    then have le: "le_Index s \<le> e" "unat a < unat e" using assms(4) by (auto simp: word_less_nat_alt word_le_nat_alt)
    have ij: "0 \<le> i + 1" "i \<le> j" "j + 1 \<le> int (length (r_log r))" using sl by (auto simp: go_slice_def split: if_splits)
    have "i \<noteq> - 1"
    proof
      assume "i = - 1"
      then have "a - le_Index s = - 1" unfolding i_def by (metis sint_n1 signed_word_eqI)
      then have "unat a - unat (le_Index s) = 2 ^ 64 - 1" unfolding unat_diff [OF assms(4), symmetric] by (simp add: unsigned_minus_1_eq_mask mask_eq_exp_minus_1)
      moreover have "unat e < 2 ^ 64" using unat_lt_pow [of e] by simp
      ultimately show False using le(2) by simp
    qed
    then have "0 \<le> i" "0 \<le> j" using ij by simp_all
    then have "i = int (unat a - unat (le_Index s))" "j = int (unat e - unat (le_Index s))"
      unfolding i_def j_def unat_diff [OF assms(4), symmetric] unat_diff [OF le(1), symmetric] by (simp_all only: sint_nonneg_unat)
    then have "go_slice (r_log r) (int (Suc (unat a - unat (le_Index s)))) (int (Suc (unat e - unat (le_Index s)))) = Some xs"
      using sl by (metis add.commute of_nat_Suc)
    then have "xs = take (unat e - unat (le_Index s) - (unat a - unat (le_Index s))) (drop (unat a - unat (le_Index s)) es)"
      by (auto simp: go_slice_def assms(2) simp del: of_nat_Suc split: if_splits)
    moreover have "unat e - unat (le_Index s) - (unat a - unat (le_Index s)) = unat e - unat a"
      using assms(4) le(2) by (simp add: word_le_nat_alt)
    ultimately show ?thesis unfolding e_def [symmetric] by simp
  qed
qed

lemma Entries_follows:
  assumes "gapless r" "Entries a b r = Some xs" "firstLogIndex r = Some first" "first \<le> a"
  shows "follows a xs"
  using assms(1)
proof (cases rule: gaplessE)
  case (1 s es)
  then have f: "first = le_Index s" using assms(3) by simp
  note E = Entries_gapless [OF assms(1) 1(1) assms(2) assms(4) [unfolded f]]
  show ?thesis unfolding follows_def
  proof (intro allI impI)
    fix i
    assume i: "i < length xs"
    then have "xs ! i = es ! (unat a - unat (le_Index s) + i)" "unat a - unat (le_Index s) + i < length es" by (auto simp: E)
    with 1(2) assms(4) f show "unat (le_Index (xs ! i)) = unat a + 1 + i" by (auto simp: follows_def word_le_nat_alt)
  qed
qed

section \<open>Operations keep the log gapless\<close>

text \<open>
  The log starts at the snapshot, and what is not yet durable is after it. The second definition says what an
  operation may do to the two boundaries.
\<close>

definition anchored :: "Raft \<Rightarrow> bool" where
  "anchored r \<longleftrightarrow> gapless r \<and> (\<forall>e \<in> set (r_log r). small (le_Index e))
     \<and> sn_LastIncludedIndex (r_snapshot r) = le_Index (hd (r_log r))
     \<and> r_stableSnapshotIndex r \<le> le_Index (hd (r_log r)) \<and> le_Index (hd (r_log r)) < r_unstableIndex r
     \<and> unat (r_unstableIndex r) \<le> unat (le_Index (last (r_log r))) + 1"

definition moved :: "Raft \<Rightarrow> Raft \<Rightarrow> bool" where
  "moved r r' \<longleftrightarrow> r_stableSnapshotIndex r' = r_stableSnapshotIndex r
     \<and> (le_Index (hd (r_log r')) = le_Index (hd (r_log r)) \<and> r_unstableIndex r' \<le> r_unstableIndex r
        \<or> le_Index (hd (r_log r)) < le_Index (hd (r_log r')))"

definition log_step :: "Raft \<Rightarrow> Raft \<Rightarrow> bool" where
  "log_step r r' \<longleftrightarrow>
     (anchored r \<longrightarrow> anchored r' \<and> moved r r' \<and> (\<exists>new. r_msgs r' = r_msgs r @ new \<and> (\<forall>m \<in> set new. msg_gapless m)))"

lemma moved_trans: "moved r r' \<Longrightarrow> moved r' r'' \<Longrightarrow> moved r r''"
  by (auto simp: moved_def)

lemma log_step_trans [trans]:
  assumes "log_step r r'" "log_step r' r''"
  shows "log_step r r''"
proof (unfold log_step_def, intro impI)
  assume "anchored r"
  then obtain n1 where n1: "anchored r'" "moved r r'" "r_msgs r' = r_msgs r @ n1" "\<forall>m \<in> set n1. msg_gapless m"
    using assms(1) by (auto simp: log_step_def)
  then obtain n2 where "anchored r''" "moved r' r''" "r_msgs r'' = r_msgs r' @ n2" "\<forall>m \<in> set n2. msg_gapless m"
    using assms(2) by (auto simp: log_step_def)
  with n1 show "anchored r'' \<and> moved r r'' \<and> (\<exists>new. r_msgs r'' = r_msgs r @ new \<and> (\<forall>m \<in> set new. msg_gapless m))"
    by (auto intro: moved_trans)
qed

lemma log_step_same [intro]:
  "r_log r' = r_log r \<Longrightarrow> r_msgs r' = r_msgs r \<Longrightarrow> r_unstableIndex r' = r_unstableIndex r \<Longrightarrow> r_snapshot r' = r_snapshot r
    \<Longrightarrow> r_stableSnapshotIndex r' = r_stableSnapshotIndex r \<Longrightarrow> log_step r r'"
  by (simp add: log_step_def gapless_def anchored_def moved_def)

lemma anchored_send [simp]: "anchored (send m r) = anchored r" "moved r' (send m r) = moved r' r"
  by (simp_all add: anchored_def moved_def gapless_def send_def)

lemma log_step_send:
  assumes "log_step r r'" "m_Type m \<noteq> MsgAppendEntries" "m_Type m \<noteq> MsgInstallSnapshot"
  shows "log_step r (send m r')"
proof -
  have "r_msgs (send m r') = r_msgs r' @ [m\<lparr>m_From := r_id r', m_Term := r_currentTerm r'\<rparr>]" by (simp add: send_def)
  then have "log_step r' (send m r')" using assms(2,3) by (auto simp: log_step_def msg_gapless_def moved_def)
  with assms(1) show ?thesis by (rule log_step_trans)
qed

lemma log_step_sendAppendEntries:
  assumes "sendAppendEntries p ctx r = Some r'"
  shows "log_step r r'"
  using assms
proof (cases rule: sendAppendEntries_cases)
  case snapshot
  have "small (sn_LastIncludedIndex (r_snapshot r))" if "anchored r"
    using that by (cases "r_log r") (auto simp: anchored_def gapless_def)
  then show ?thesis unfolding snapshot sendInstallSnapshot_def log_step_def
    by (auto simp: send_def msg_gapless_def anchored_def moved_def gapless_def)
next
  case (entries prev prevTerm lst es f)
  show ?thesis unfolding log_step_def
  proof (intro impI)
    assume a: "anchored r"
    then have g: "gapless r" by (simp add: anchored_def)
    then obtain first where first: "firstLogIndex r = Some first" by (rule gaplessE)
    have sm: "\<forall>e \<in> set es. small (le_Index e)" using Entries_subset [OF entries(3)] a by (auto simp: anchored_def)
    have "follows prev es"
    proof (cases "r_nextIndex r p - 1 < first")
      case False
      with entries(4) first have "first \<le> prev" by auto
      with g entries(3) first show ?thesis by (intro Entries_follows)
    next
      case True
      with assms first have "r' = sendInstallSnapshot p r" by (simp add: sendAppendEntries_def)
      with entries(6) have "r_msgs (sendInstallSnapshot p r) = r_msgs (send ((new_Message MsgAppendEntries p)\<lparr>m_PrevLogIndex := prev,
        m_PrevLogTerm := prevTerm, m_Entries := es, m_LeaderCommit := r_commitIndex r, m_ReadContext := ctx\<rparr>) r)" by simp
      then show ?thesis by (auto simp: sendInstallSnapshot_def send_def new_Message_def)
    qed
    then show "anchored r' \<and> moved r r' \<and> (\<exists>new. r_msgs r' = r_msgs r @ new \<and> (\<forall>m \<in> set new. msg_gapless m))"
      using a sm by (auto simp: entries(6) send_def msg_gapless_def gapless_def anchored_def moved_def)
  qed
qed

lemma log_step_fold_option:
  assumes "fold_option f xs r = Some r'" and "\<And>x r r'. f x r = Some r' \<Longrightarrow> log_step r r'"
  shows "log_step r r'"
  using assms(1) by (rule fold_option_invariant) (auto intro: log_step_trans assms(2))

lemma log_step_sendHeartbeats: "sendHeartbeats r = Some r' \<Longrightarrow> log_step r r'"
  unfolding sendHeartbeats_def by (erule log_step_fold_option) (rule log_step_sendAppendEntries)

lemma log_step_maybeAdvanceCommitIndex:
  assumes "maybeAdvanceCommitIndex r = Some r'"
  shows "log_step r r'"
proof -
  obtain n where "advance_loop n r = Some r'" using assms by (auto simp: maybeAdvanceCommitIndex_def bind_eq_Some_conv)
  then show ?thesis by (cases rule: advance_loop_cases) auto
qed

lemma log_step_refl [simp]: "log_step r r"
  by (rule log_step_same) simp_all

lemma log_step_becomeFollower: "log_step r ((becomeFollower t r)\<lparr>r_leaderID := x\<rparr>)" "log_step r (becomeFollower t r)"
  by (auto simp: becomeFollower_def)

lemma log_step_ask_votes:
  assumes "ask_votes ty r = Some r'" "ty \<noteq> MsgAppendEntries" "ty \<noteq> MsgInstallSnapshot"
  shows "log_step r r'"
proof -
  obtain new where "r' = r\<lparr>r_msgs := r_msgs r @ new\<rparr>" "\<forall>m \<in> set new. m_Type m = ty" using ask_votes_shape [OF assms(1)] by blast
  with assms(2,3) show ?thesis by (simp add: log_step_def msg_gapless_def gapless_def anchored_def moved_def)
qed

lemma log_step_becomeLeader:
  assumes "becomeLeader r = Some r'"
  shows "log_step r r'"
proof -
  obtain f r2 where r2: "sendHeartbeats (r\<lparr>r_role := Leader, r_leaderID := r_id r, r_nextIndex := f,
      r_matchIndex := (\<lambda>_. 0), r_sentIndex := (\<lambda>_. 0), r_pendingReads := (\<lambda>_. None),
      r_heartbeatElapsed := 0\<rparr>) = Some r2" (is "sendHeartbeats ?r1 = _")
    "(if r_peers r = [] then maybeAdvanceCommitIndex r2 else Some r2) = Some r'"
    using assms by (auto simp: becomeLeader_def bind_eq_Some_conv Let_def)
  have "log_step r ?r1" by auto
  also have "log_step ?r1 r2" using r2(1) by (rule log_step_sendHeartbeats)
  also have "log_step r2 r'" using r2(2) by (auto intro: log_step_maybeAdvanceCommitIndex split: if_splits)
  finally show ?thesis .
qed

lemma log_step_becomeCandidate:
  assumes "becomeCandidate r = Some r'"
  shows "log_step r r'"
proof -
  let ?r1 = "resetElectionTimeout (r\<lparr>r_currentTerm := r_currentTerm r + 1, r_role := Candidate, r_votedFor := r_id r,
    r_leaderID := 0, r_votesReceived := {r_id r}\<rparr>)"
  have "log_step r ?r1" by auto
  also have "log_step ?r1 r'"
    using assms by (auto simp: becomeCandidate_def Let_def intro: log_step_becomeLeader log_step_ask_votes split: if_splits)
  finally show ?thesis .
qed

lemma log_step_becomePreCandidate:
  assumes "becomePreCandidate r = Some r'"
  shows "log_step r r'"
proof -
  let ?r1 = "resetElectionTimeout (r\<lparr>r_role := PreCandidate, r_leaderID := 0, r_preVotesReceived := {r_id r}\<rparr>)"
  have "log_step r ?r1" by auto
  also have "log_step ?r1 r'"
    using assms by (auto simp: becomePreCandidate_def Let_def intro: log_step_becomeCandidate log_step_ask_votes split: if_splits)
  finally show ?thesis .
qed

text \<open>The entries of an AppendEntries: a conflicting tail is cut off, then the entry follows the last one.\<close>

lemma small_position:
  assumes "small first" "0 \<le> sint (idx - first)"
  shows "unat idx = unat first + nat (sint (idx - first))"
proof -
  have n: "sint (idx - first) = int (unat (idx - first))" using assms(2) by (rule sint_nonneg_unat)
  have "sint (idx - first) < 2 ^ 63" using sint_lt [of "idx - first"] by simp
  then have "int (unat (idx - first)) < int (2 ^ 63)" unfolding n by simp
  then have "unat (idx - first) < 2 ^ 63" by (simp only: of_nat_less_iff)
  then have lt: "unat first + unat (idx - first) < 2 ^ 64" using assms(1) by (simp add: small_def)
  then have "unat (word_of_nat (unat first + unat (idx - first)) :: uint64) = unat first + unat (idx - first)"
    by (intro unat_of_nat_small) simp
  then show ?thesis unfolding n by simp
qed

lemma cut_conflict_cases:
  assumes "cut_conflict idx e r = Some r1" "lastLogIndex r = Some lst" "anchored r"
  obtains (same) "r1 = r"
    | (cut) n where "idx \<le> lst" "n \<le> length (r_log r)" "unat idx = unat (le_Index (hd (r_log r))) + n"
        "r1 = r\<lparr>r_log := take n (r_log r), r_unstableIndex := min idx (r_unstableIndex r)\<rparr>"
proof (cases "r1 = r")
  case False
  have ne: "r_log r \<noteq> []" "small (le_Index (hd (r_log r)))" using assms(3) by (auto simp: anchored_def gapless_def)
  let ?pos = "sint (idx - le_Index (hd (r_log r)))"
  have "firstLogIndex r = Some (le_Index (hd (r_log r)))" using ne by (simp add: firstLogIndex_def go_first_Some)
  with False assms(1,2) have c: "idx \<le> lst" "0 \<le> ?pos" "nat ?pos \<le> length (r_log r)"
    "r1 = r\<lparr>r_log := take (nat ?pos) (r_log r), r_unstableIndex := min idx (r_unstableIndex r)\<rparr>"
    by (auto simp: cut_conflict_def bind_eq_Some_conv logPos_def go_slice_def min_def split: if_splits)
  show thesis by (rule cut [OF c(1,3) small_position [OF ne(2) c(2)] c(4)])
qed (rule same)

lemma append_entry_anchored:
  assumes a: "anchored r" and ae: "append_entry idx e r = Some r'" and e: "le_Index e = idx" "small idx"
    and lst: "lastLogIndex r = Some lst" "unat idx \<le> unat lst + 1"
  shows "anchored r' \<and> moved r r' \<and> (\<exists>lst'. lastLogIndex r' = Some lst' \<and> idx \<le> lst')"
proof -
  obtain r1 l1 where r1: "cut_conflict idx e r = Some r1" "lastLogIndex r1 = Some l1"
    "r' = (if l1 < idx then r1\<lparr>r_log := r_log r1 @ [e]\<rparr> else r1)"
    using ae by (auto simp: append_entry_def bind_eq_Some_conv)
  have g: "gapless r" using a by (simp add: anchored_def)
  have "anchored r1 \<and> moved r r1 \<and> unat idx \<le> unat l1 + 1"
    using r1(1) lst(1) a
  proof (cases rule: cut_conflict_cases)
    case same
    with a lst r1(2) show ?thesis by (simp add: moved_def)
  next
    case (cut n)
    have n: "n \<noteq> 0" using r1(2) cut(4) by (auto simp: lastLogIndex_def go_last_def split: if_splits)
    have g1: "gapless r1" by (rule gapless_take [OF g n]) (simp add: cut(4))
    from g obtain s es where s: "r_log r = s # es" by (rule gaplessE)
    obtain k where k: "n = Suc k" using n by (cases n) auto
    from g1 obtain s1 es1 where s1: "r_log r1 = s1 # es1" "unat (le_Index (last (r_log r1))) = unat (le_Index s1) + length es1"
      "lastLogIndex r1 = Some (le_Index (last (r_log r1)))" by (rule gaplessE)
    have "s1 = s" "length es1 = k" using s1(1) s cut(2,4) k by auto
    with s1 s r1(2) cut(3) k have l1: "unat idx = unat l1 + 1" by simp
    have "le_Index s < idx" using cut(3) s k by (simp add: word_less_nat_alt)
    moreover have "\<forall>x \<in> set (r_log r1). small (le_Index x)" using a cut(4) by (auto simp: anchored_def dest: in_set_takeD)
    moreover have "le_Index (last (r_log r1)) = l1" "hd (r_log r1) = s" using s1 r1(2) \<open>s1 = s\<close> by simp_all
    moreover have "r_unstableIndex r1 = min idx (r_unstableIndex r)" "r_snapshot r1 = r_snapshot r"
      "r_stableSnapshotIndex r1 = r_stableSnapshotIndex r" by (simp_all add: cut(4))
    ultimately show ?thesis using g1 a l1 s by (auto simp: anchored_def moved_def min_def word_le_nat_alt)
  qed
  then have a1: "anchored r1" "moved r r1" and le: "unat idx \<le> unat l1 + 1" by simp_all
  then have g1: "gapless r1" by (simp add: anchored_def)
  then have ne: "r_log r1 \<noteq> []" by (auto simp: gapless_def)
  show ?thesis
  proof (cases "l1 < idx")
    case True
    then have "unat (le_Index e) = unat l1 + 1" using le e by (simp add: word_less_nat_alt)
    from gapless_snoc [OF g1 r1(2) this, of r'] True r1(3) have "gapless r'" by simp
    moreover have "unat (r_unstableIndex r1) \<le> unat idx + 1"
      using a1(1) r1(2) True ne by (auto simp: anchored_def lastLogIndex_def word_less_nat_alt)
    ultimately show ?thesis using True r1(3) a1 ne e by (auto simp: anchored_def moved_def lastLogIndex_def)
  next
    case False
    with r1 a1 show ?thesis by auto
  qed
qed

lemma append_entries_anchored:
  assumes "append_entries (p + 1) es r = Some r'" "follows p es" "\<forall>e \<in> set es. small (le_Index e)" "anchored r"
    and "lastLogIndex r = Some lst" "p \<le> lst"
  shows "anchored r' \<and> moved r r'"
  using assms
proof (induction es arbitrary: p r lst)
  case (Cons e es)
  then obtain r1 where r1: "append_entry (p + 1) e r = Some r1" "append_entries (p + 1 + 1) es r1 = Some r'"
    by (auto simp: bind_eq_Some_conv)
  have f: "unat (le_Index e) = unat p + 1" "follows (le_Index e) es" using Cons.prems(2) by (simp_all add: follows_Cons)
  then have e: "le_Index e = p + 1" by (intro unat_succ_eq)
  have "unat (p + 1) \<le> unat lst + 1" "small (p + 1)" using f(1) e Cons.prems(3,6) by (simp_all add: word_le_nat_alt)
  from append_entry_anchored [OF Cons.prems(4) r1(1) e this(2) Cons.prems(5) this(1)]
  obtain lst' where "anchored r1" "moved r r1" "lastLogIndex r1 = Some lst'" "p + 1 \<le> lst'" by blast
  with Cons.IH [OF r1(2)] f(2) e Cons.prems(3) show ?case by (auto intro: moved_trans)
qed (simp add: moved_def)

lemma append_entries_msgs: "append_entries idx es r = Some r' \<Longrightarrow> r_msgs r' = r_msgs r \<and> r_commitIndex r' = r_commitIndex r
    \<and> r_pendingReads r' = r_pendingReads r \<and> r_readStates r' = r_readStates r"
proof (induction es arbitrary: idx r)
  case (Cons e es)
  then obtain r1 where r1: "append_entry idx e r = Some r1" "append_entries (idx + 1) es r1 = Some r'" by (auto simp: bind_eq_Some_conv)
  from Cons.IH [OF r1(2)] append_entry_shape [OF r1(1)] show ?case by auto
qed simp

section \<open>Every event keeps the log gapless\<close>

lemma log_step_handleAppendEntries:
  assumes "handleAppendEntries m r = Some r'" "follows (m_PrevLogIndex m) (m_Entries m)"
    "\<forall>e \<in> set (m_Entries m). small (le_Index e)"
  shows "log_step r r'"
proof -
  let ?r1 = "(becomeFollower (m_Term m) r)\<lparr>r_leaderID := m_From m\<rparr>"
  from assms(1) show ?thesis
  proof (cases rule: handleAppendEntries_cases)
    case stale
    show ?thesis unfolding stale(2) by (rule log_step_send) auto
  next
    case (reject lst)
    show ?thesis unfolding reject(4) by (rule log_step_send [OF log_step_becomeFollower(1)]) simp_all
  next
    case (accept lst r2 lst2)
    have "log_step ?r1 r2"
    proof -
      have "r_msgs r2 = r_msgs ?r1" using append_entries_msgs [OF accept(5)] by simp
      with append_entries_anchored [OF accept(5) assms(2,3) _ accept(2,3)] show ?thesis by (simp add: log_step_def)
    qed
    with log_step_becomeFollower(1) have "log_step r r2" by (rule log_step_trans)
    also have "log_step r2 (r2\<lparr>r_commitIndex := c\<rparr>)" for c by auto
    finally have "log_step r (r2\<lparr>r_commitIndex := c\<rparr>)" for c .
    then show ?thesis unfolding accept(7) by (rule log_step_send) simp_all
  qed
qed

lemma log_step_ackReadIndex: "log_step r (if b then ackReadIndex ctx p r else r)"
  by (auto simp: ackReadIndex_def Let_def split: option.split)

lemma log_step_handleAppendEntriesResponse:
  assumes "handleAppendEntriesResponse m r = Some r'"
  shows "log_step r r'"
proof -
  note q1 = log_step_ackReadIndex [of r "m_ReadContext m \<noteq> 0" "m_ReadContext m" "m_From m"]
  have q: "log_step s (s\<lparr>r_matchIndex := n, r_nextIndex := k\<rparr>)" "log_step s (s\<lparr>r_nextIndex := n, r_sentIndex := k\<rparr>)" for s n k
    by auto
  from assms show ?thesis
  proof (cases rule: handleAppendEntriesResponse_cases)
    case success
    from log_step_trans [OF log_step_trans [OF q1 q(1)] log_step_maybeAdvanceCommitIndex [OF success(4)]] show ?thesis .
  next
    case failure
    from log_step_trans [OF log_step_trans [OF q1 q(2)] log_step_sendAppendEntries [OF failure(4)]] show ?thesis .
  qed (auto simp: log_step_becomeFollower)
qed

lemma log_step_handleInstallSnapshot:
  assumes "handleInstallSnapshot m r = Some r'" "small (sn_LastIncludedIndex (m_Snapshot m))"
  shows "log_step r r'"
  using assms(1)
proof (cases rule: handleInstallSnapshot_cases)
  case (stale first)
  show ?thesis unfolding stale(3) by (rule log_step_send) auto
next
  case (covered first)
  show ?thesis unfolding covered(4) by (rule log_step_send [OF log_step_becomeFollower(1)]) simp_all
next
  case (install first)
  let ?li = "sn_LastIncludedIndex (m_Snapshot m)"
  have u: "unat (?li + 1) = unat ?li + 1" using assms(2) by (intro unat_plus_one_small) (simp add: small_def)
  then have li: "?li < ?li + 1" by (simp add: word_less_nat_alt)
  have "le_Index (hd (r_log r)) < ?li" if "r_log r \<noteq> []"
    using install(1,3) that by (simp add: firstLogIndex_def go_first_Some)
  with u li assms(2) have "log_step r ((becomeFollower (m_Term m) r)\<lparr>r_leaderID := m_From m,
      r_log := [\<lparr>le_Term = sn_LastIncludedTerm (m_Snapshot m), le_Index = ?li, le_Data = []\<rparr>], r_commitIndex := c,
      r_unstableIndex := ?li + 1, r_snapshot := m_Snapshot m, r_pendingSnapshotToApply := Some (m_Snapshot m)\<rparr>)" for c
    by (auto simp: log_step_def gapless_def anchored_def moved_def becomeFollower_def)
  then show ?thesis unfolding install(4) by (rule log_step_send) simp_all
qed

lemma log_step_handleInstallSnapshotResponse:
  assumes "handleInstallSnapshotResponse m r = Some r'"
  shows "log_step r r'"
  using assms
proof (cases rule: handleInstallSnapshotResponse_cases)
  case ack
  have "log_step s (s\<lparr>r_matchIndex := n, r_nextIndex := k\<rparr>)" for s n k by auto
  from log_step_trans [OF this log_step_maybeAdvanceCommitIndex [OF ack(3)]] show ?thesis .
qed (auto simp: log_step_becomeFollower)

lemma log_step_handleRequestVote: "handleRequestVote m r = Some r' \<Longrightarrow> log_step r r'"
  by (auto simp: handleRequestVote_def Let_def bind_eq_Some_conv becomeFollower_def split: if_splits intro!: log_step_send)

lemma log_step_handleRequestVoteResponse:
  assumes "handleRequestVoteResponse m r = Some r'"
  shows "log_step r r'"
proof -
  have "log_step s s'" if "becomeLeader (s\<lparr>r_votesReceived := v\<rparr>) = Some s'" for s s' v
    by (rule log_step_trans [OF _ log_step_becomeLeader [OF that]]) auto
  with assms show ?thesis
    by (auto simp: handleRequestVoteResponse_def Let_def log_step_becomeFollower split: if_splits)
qed

lemma log_step_handlePreVote: "handlePreVote m r = Some r' \<Longrightarrow> log_step r r'"
  by (auto simp: handlePreVote_def Let_def bind_eq_Some_conv split: if_splits intro!: log_step_send)

lemma log_step_handlePreVoteResponse:
  assumes "handlePreVoteResponse m r = Some r'"
  shows "log_step r r'"
proof -
  have "log_step s s'" if "becomeCandidate (s\<lparr>r_preVotesReceived := v\<rparr>) = Some s'" for s s' v
    by (rule log_step_trans [OF _ log_step_becomeCandidate [OF that]]) auto
  with assms show ?thesis by (auto simp: handlePreVoteResponse_def Let_def split: if_splits)
qed

lemmas log_step_handlers = log_step_handlePreVote log_step_handlePreVoteResponse log_step_handleRequestVote
  log_step_handleRequestVoteResponse log_step_handleAppendEntries log_step_handleAppendEntriesResponse
  log_step_handleInstallSnapshot log_step_handleInstallSnapshotResponse

lemma log_step_Step:
  assumes "Step m r = Some r'" "msg_gapless m"
  shows "log_step r r'"
  using assms by (auto simp: Step_def msg_gapless_def log_step_same intro: log_step_handlers split: if_splits MessageType.splits)

lemma log_step_Tick:
  assumes "Tick r = Some r'"
  shows "log_step r r'"
proof -
  have "log_step r s'" if "sendHeartbeats (r\<lparr>r_heartbeatElapsed := h\<rparr>) = Some s'" for s' h
    by (rule log_step_trans [OF _ log_step_sendHeartbeats [OF that]]) auto
  moreover have "log_step r s'" if "becomePreCandidate (r\<lparr>r_electionElapsed := h\<rparr>) = Some s'" for s' h
    by (rule log_step_trans [OF _ log_step_becomePreCandidate [OF that]]) auto
  ultimately show ?thesis using assms by (auto simp: Tick_def Let_def split: if_splits)
qed

lemma append_proposals_gapless:
  assumes "append_proposals ds r = Some (is, r')" "gapless r" "lastLogIndex r = Some lst" "unat lst + length ds < 2 ^ 64"
  shows "gapless r'"
  using assms
proof (induction ds arbitrary: r lst "is")
  case (Cons d ds)
  let ?e = "\<lparr>le_Term = r_currentTerm r, le_Index = lst + 1, le_Data = d\<rparr>"
  obtain is' where rest: "append_proposals ds (r\<lparr>r_log := r_log r @ [?e]\<rparr>) = Some (is', r')"
    using Cons.prems(1,3) by (auto simp: bind_eq_Some_conv Let_def)
  have u: "unat (lst + 1) = unat lst + 1" using Cons.prems(4) by (intro unat_plus_one_small) simp
  show ?case
  proof (rule Cons.IH [OF rest])
    show "gapless (r\<lparr>r_log := r_log r @ [?e]\<rparr>)" using u by (intro gapless_snoc [OF Cons.prems(2,3)]) simp_all
    show "lastLogIndex (r\<lparr>r_log := r_log r @ [?e]\<rparr>) = Some (lst + 1)" by (simp add: lastLogIndex_def)
    show "unat (lst + 1) + length ds < 2 ^ 64" using Cons.prems(4) u by simp
  qed
qed simp

definition bounded :: "Raft \<Rightarrow> bool" where
  "bounded r \<longleftrightarrow> (\<forall>e \<in> set (r_log r). small (le_Index e)) \<and> length (r_log r) < 2 ^ 63"

lemma sendAppendEntries_log: "sendAppendEntries p c r = Some r' \<Longrightarrow> r_log r' = r_log r"
  by (erule sendAppendEntries_cases) (simp_all add: sendInstallSnapshot_def send_def)

lemma maybeAdvanceCommitIndex_log: "maybeAdvanceCommitIndex r = Some r' \<Longrightarrow> r_log r' = r_log r"
  by (auto simp: maybeAdvanceCommitIndex_def bind_eq_Some_conv elim: advance_loop_cases)

lemma ProposeBatch_cases:
  assumes "ProposeBatch ds r = Some (Inr (is, r'))"
  obtains r1 r2 where "append_proposals ds r = Some (is, r1)"
    "fold_option (\<lambda>p. sendAppendEntries p 0) (r_peers r1) r1 = Some r2"
    "(if r_peers r2 = [] then maybeAdvanceCommitIndex r2 else Some r2) = Some r'" "r_log r' = r_log r1"
proof -
  obtain r1 r2 where r: "append_proposals ds r = Some (is, r1)"
    "fold_option (\<lambda>p. sendAppendEntries p 0) (r_peers r1) r1 = Some r2"
    "(if r_peers r2 = [] then maybeAdvanceCommitIndex r2 else Some r2) = Some r'"
    using assms by (auto simp: ProposeBatch_def bind_eq_Some_conv split: if_splits)
  have "r_log r2 = r_log r1" using r(2) by (rule fold_option_invariant) (auto dest: sendAppendEntries_log)
  moreover have "r_log r' = r_log r2" using r(3) by (auto dest: maybeAdvanceCommitIndex_log split: if_splits)
  ultimately show thesis using that [OF r] by simp
qed

lemma log_step_ProposeBatch:
  assumes "ProposeBatch ds r = Some (Inr (is, r'))" "bounded r'"
  shows "log_step r r'"
  using assms(1)
proof (cases rule: ProposeBatch_cases)
  case (1 r1 r2)
  have "log_step r r1"
  proof (unfold log_step_def, intro impI)
    assume a: "anchored r"
    then have g: "gapless r" by (simp add: anchored_def)
    then obtain lst where lst: "lastLogIndex r = Some lst" by (rule gaplessE)
    have "r_log r \<noteq> []" using g by (auto simp: gapless_def)
    then have "small lst" using lst a by (auto simp: lastLogIndex_def anchored_def)
    obtain es where es: "r1 = r\<lparr>r_log := r_log r @ es\<rparr>" "length es = length ds" using append_proposals_shape [OF 1(1)] by blast
    then have "length ds < 2 ^ 63" using assms(2) 1(4) by (simp add: bounded_def)
    with \<open>small lst\<close> have "unat lst + length ds < 2 ^ 64" by (simp add: small_def)
    from append_proposals_gapless [OF 1(1) g lst this] have g1: "gapless r1" .
    have "unat (le_Index (last (r_log r))) \<le> unat (le_Index (last (r_log r1)))"
      using gapless_last [OF g] gapless_last [OF g1] \<open>r_log r \<noteq> []\<close> by (simp add: es(1))
    with g1 show "anchored r1 \<and> moved r r1 \<and> (\<exists>new. r_msgs r1 = r_msgs r @ new \<and> (\<forall>m \<in> set new. msg_gapless m))"
      using a assms(2) 1(4) \<open>r_log r \<noteq> []\<close> by (simp add: anchored_def moved_def bounded_def es(1))
  qed
  also have "log_step r1 r2" using 1(2) by (rule log_step_fold_option) (rule log_step_sendAppendEntries)
  also have "log_step r2 r'" using 1(3) by (auto intro: log_step_maybeAdvanceCommitIndex split: if_splits)
  finally show ?thesis .
qed

lemma log_step_RequestReadIndex:
  assumes "RequestReadIndex c r = Some (Inr r')"
  shows "log_step r r'"
proof (cases "hasMajorityCount (card {r_id r}) r")
  case True
  with assms show ?thesis by (auto simp: RequestReadIndex_def split: if_splits)
next
  case False
  then obtain pr where "fold_option (\<lambda>p. sendAppendEntries p c) (r_peers r) (r\<lparr>r_pendingReads := pr\<rparr>) = Some r'"
    using assms by (auto simp: RequestReadIndex_def bind_eq_Some_conv split: if_splits)
  then have "log_step (r\<lparr>r_pendingReads := pr\<rparr>) r'" by (rule log_step_fold_option) (rule log_step_sendAppendEntries)
  then show ?thesis by (rule log_step_trans [rotated]) auto
qed

lemma log_step_CreateSnapshot:
  assumes "CreateSnapshot i d r = Some (Inr r')" "bounded r'"
  shows "log_step r r'"
proof (unfold log_step_def, intro impI)
  assume a: "anchored r"
  then have g: "gapless r" by (simp add: anchored_def)
  then obtain s es where l: "r_log r = s # es" "follows (le_Index s) es" "firstLogIndex r = Some (le_Index s)" by (rule gaplessE)
  obtain trm rest where r': "le_Index s < i" "go_slice (r_log r) (sint (i - le_Index s) + 1) (int (length (r_log r))) = Some rest"
    "r_log r' = \<lparr>le_Term = trm, le_Index = i, le_Data = []\<rparr> # rest" "r_msgs r' = r_msgs r"
    "sn_LastIncludedIndex (r_snapshot r') = i" "r_stableSnapshotIndex r' = r_stableSnapshotIndex r"
    "r_unstableIndex r' = (if r_unstableIndex r \<le> i then i + 1 else r_unstableIndex r)"
    using assms l(3) by (auto simp: CreateSnapshot_def bind_eq_Some_conv logPos_def split: if_splits)
  have le: "le_Index s \<le> i" using r'(1) by simp
  have i: "small i" using assms(2) r'(3) by (simp add: bounded_def)
  then have ui: "unat (i + 1) = unat i + 1" by (intro unat_plus_one_small) (simp add: small_def)
  then have i1: "i < i + 1" by (simp add: word_less_nat_alt)
  have "sint (i - le_Index s) \<noteq> - 1"
  proof
    assume "sint (i - le_Index s) = - 1"
    then have "i - le_Index s = - 1" by (metis sint_n1 signed_word_eqI)
    then have "unat i - unat (le_Index s) = 2 ^ 64 - 1" unfolding unat_diff [OF le, symmetric]
      by (simp add: unsigned_minus_1_eq_mask mask_eq_exp_minus_1)
    then show False using i by (simp add: small_def)
  qed
  then have "0 \<le> sint (i - le_Index s)" using r'(2) by (auto simp: go_slice_def split: if_splits)
  then have p: "sint (i - le_Index s) = int (unat i - unat (le_Index s))" unfolding unat_diff [OF le, symmetric] by (rule sint_nonneg_unat)
  have "go_slice (r_log r) (int (Suc (unat i - unat (le_Index s)))) (int (length (r_log r))) = Some rest"
    using r'(2) unfolding p by (metis add.commute of_nat_Suc)
  then have rest: "rest = drop (unat i - unat (le_Index s)) es" "unat i - unat (le_Index s) \<le> length es"
    by (auto simp: go_slice_def l(1) simp del: of_nat_Suc split: if_splits)
  have "follows i rest" unfolding follows_def
  proof (intro allI impI)
    fix k
    assume "k < length rest"
    then show "unat (le_Index (rest ! k)) = unat i + 1 + k"
      using l(2) le by (simp add: rest(1) follows_def word_le_nat_alt)
  qed
  then have g': "gapless r'" using r'(3) by (simp add: gapless_def)
  have lasts: "unat (le_Index (last (r_log r))) = unat (le_Index s) + length es" "unat (le_Index (last (r_log r'))) = unat i + length rest"
    using gapless_last [OF g] gapless_last [OF g'] l(1) r'(3) by simp_all
  then have u: "unat (r_unstableIndex r') \<le> unat (le_Index (last (r_log r'))) + 1"
    using rest le a ui r'(7) by (auto simp: anchored_def word_le_nat_alt)
  from g' r' i1 l(1) a assms(2) u show "anchored r' \<and> moved r r' \<and> (\<exists>new. r_msgs r' = r_msgs r @ new \<and> (\<forall>m \<in> set new. msg_gapless m))"
    by (auto simp: anchored_def moved_def bounded_def not_le)
qed

lemma log_step_event:
  assumes "apply_event ev r = Some r'" "\<And>m. ev = ERecv m \<Longrightarrow> msg_gapless m"
    and "bounded r'"
  shows "log_step r r'"
proof (cases ev)
  case (EPropose ds)
  with assms obtain res where res: "ProposeBatch ds r = Some res" "r' = case_sum (\<lambda>_. r) snd res" by auto
  then show ?thesis using log_step_ProposeBatch [of ds r] assms(3) by (cases res) auto
next
  case (ESnapshot i d)
  with assms obtain res where "CreateSnapshot i d r = Some res" "r' = case_sum (\<lambda>_. r) id res" by auto
  then show ?thesis using log_step_CreateSnapshot [of i d r] assms(3) by (cases res) auto
next
  case (EReadIndex c)
  with assms obtain res where "RequestReadIndex c r = Some res" "r' = case_sum (\<lambda>_. r) id res" by auto
  then show ?thesis using log_step_RequestReadIndex [of c r] by (cases res) auto
qed (use assms in \<open>auto intro: log_step_Tick log_step_Step\<close>)

section \<open>The commit index and pending reads\<close>

text \<open>A read that waits, or that has been confirmed, asks for an index that is already committed.\<close>

definition reads_ok :: "Raft \<Rightarrow> bool" where
  "reads_ok r \<longleftrightarrow> (\<forall>c p. r_pendingReads r c = Some p \<longrightarrow> pr_index p \<le> r_commitIndex r)
     \<and> (\<forall>rs \<in> set (r_readStates r). rs_Index rs \<le> r_commitIndex r)"

definition commit_step :: "Raft \<Rightarrow> Raft \<Rightarrow> bool" where
  "commit_step r r' \<longleftrightarrow> r_commitIndex r \<le> r_commitIndex r' \<and> (reads_ok r \<longrightarrow> reads_ok r')"

lemma commit_step_trans [trans]: "commit_step r r' \<Longrightarrow> commit_step r' r'' \<Longrightarrow> commit_step r r''"
  by (auto simp: commit_step_def)

lemma commit_step_same [intro]:
  "r_commitIndex r \<le> r_commitIndex r' \<Longrightarrow> r_pendingReads r' = r_pendingReads r \<or> r_pendingReads r' = (\<lambda>_. None)
    \<Longrightarrow> r_readStates r' = r_readStates r \<Longrightarrow> commit_step r r'"
  by (fastforce simp: commit_step_def reads_ok_def intro: order_trans)

lemma commit_step_send [simp]: "commit_step r (send m r') = commit_step r r'"
  by (simp add: commit_step_def reads_ok_def send_def)

lemma commit_step_sendAppendEntries:
  assumes "sendAppendEntries p ctx r = Some r'"
  shows "commit_step r r'"
  using assms by (cases rule: sendAppendEntries_cases) (auto simp: sendInstallSnapshot_def send_def)

lemma commit_step_fold_option:
  assumes "fold_option f xs r = Some r'" and "\<And>x r r'. f x r = Some r' \<Longrightarrow> commit_step r r'"
  shows "commit_step r r'"
  using assms(1) by (rule fold_option_invariant) (auto intro: commit_step_trans assms(2))

lemma commit_step_sendHeartbeats: "sendHeartbeats r = Some r' \<Longrightarrow> commit_step r r'"
  unfolding sendHeartbeats_def by (erule commit_step_fold_option) (rule commit_step_sendAppendEntries)

lemma commit_step_maybeAdvanceCommitIndex:
  assumes "maybeAdvanceCommitIndex r = Some r'"
  shows "commit_step r r'"
proof -
  obtain n where "advance_loop n r = Some r'" using assms by (auto simp: maybeAdvanceCommitIndex_def bind_eq_Some_conv)
  then show ?thesis by (cases rule: advance_loop_cases) auto
qed

lemma commit_step_becomeFollower: "commit_step r ((becomeFollower t r)\<lparr>r_leaderID := x\<rparr>)" "commit_step r (becomeFollower t r)"
  by (auto simp: becomeFollower_def resetElectionTimeout_def)

lemma commit_step_ask_votes: "ask_votes ty r = Some r' \<Longrightarrow> commit_step r r'"
  using ask_votes_shape by fastforce

lemma commit_step_becomeLeader:
  assumes "becomeLeader r = Some r'"
  shows "commit_step r r'"
proof -
  obtain f r2 where r2: "sendHeartbeats (r\<lparr>r_role := Leader, r_leaderID := r_id r, r_nextIndex := f,
      r_matchIndex := (\<lambda>_. 0), r_sentIndex := (\<lambda>_. 0), r_pendingReads := (\<lambda>_. None),
      r_heartbeatElapsed := 0\<rparr>) = Some r2" (is "sendHeartbeats ?r1 = _")
    "(if r_peers r = [] then maybeAdvanceCommitIndex r2 else Some r2) = Some r'"
    using assms by (auto simp: becomeLeader_def bind_eq_Some_conv Let_def)
  have "commit_step r ?r1" by auto
  also have "commit_step ?r1 r2" using r2(1) by (rule commit_step_sendHeartbeats)
  also have "commit_step r2 r'" using r2(2) by (auto intro: commit_step_maybeAdvanceCommitIndex split: if_splits)
  finally show ?thesis .
qed

lemma commit_step_becomeCandidate:
  assumes "becomeCandidate r = Some r'"
  shows "commit_step r r'"
proof -
  let ?r1 = "resetElectionTimeout (r\<lparr>r_currentTerm := r_currentTerm r + 1, r_role := Candidate, r_votedFor := r_id r,
    r_leaderID := 0, r_votesReceived := {r_id r}\<rparr>)"
  have "commit_step r ?r1" by (auto simp: resetElectionTimeout_def)
  also have "commit_step ?r1 r'"
    using assms by (auto simp: becomeCandidate_def Let_def intro: commit_step_becomeLeader commit_step_ask_votes split: if_splits)
  finally show ?thesis .
qed

lemma commit_step_becomePreCandidate:
  assumes "becomePreCandidate r = Some r'"
  shows "commit_step r r'"
proof -
  let ?r1 = "resetElectionTimeout (r\<lparr>r_role := PreCandidate, r_leaderID := 0, r_preVotesReceived := {r_id r}\<rparr>)"
  have "commit_step r ?r1" by (auto simp: resetElectionTimeout_def)
  also have "commit_step ?r1 r'"
    using assms by (auto simp: becomePreCandidate_def Let_def intro: commit_step_becomeCandidate commit_step_ask_votes split: if_splits)
  finally show ?thesis .
qed

lemma commit_step_Tick:
  assumes "Tick r = Some r'"
  shows "commit_step r r'"
proof -
  have "commit_step r s'" if "sendHeartbeats (r\<lparr>r_heartbeatElapsed := h\<rparr>) = Some s'" for s' h
    by (rule commit_step_trans [OF _ commit_step_sendHeartbeats [OF that]]) auto
  moreover have "commit_step r s'" if "becomePreCandidate (r\<lparr>r_electionElapsed := h\<rparr>) = Some s'" for s' h
    by (rule commit_step_trans [OF _ commit_step_becomePreCandidate [OF that]]) auto
  ultimately show ?thesis using assms by (auto simp: Tick_def Let_def split: if_splits)
qed

text \<open>The one assignment that can lower the commit index is the last of \<open>handleAppendEntries\<close>.\<close>

lemma commit_step_handleAppendEntries:
  assumes "handleAppendEntries m r = Some r'" "lastLogIndex r' = Some lst'" "r_commitIndex r \<le> lst'"
  shows "commit_step r r'"
  using assms(1)
proof (cases rule: handleAppendEntries_cases)
  case stale
  then show ?thesis by auto
next
  case (reject lst)
  then show ?thesis by (simp add: commit_step_becomeFollower)
next
  case (accept lst r2 lst2)
  have "lst2 = lst'" using assms(2) accept(6) unfolding accept(7) by (auto simp: lastLogIndex_def)
  moreover have "r_commitIndex r2 = r_commitIndex r" "r_pendingReads r2 = r_pendingReads r" "r_readStates r2 = r_readStates r"
    using append_entries_msgs [OF accept(5)] by (simp_all add: becomeFollower_def resetElectionTimeout_def)
  ultimately show ?thesis unfolding accept(7) using assms(3) by (auto simp: min_def)
qed

lemma commit_step_ackReadIndex: "commit_step r (if b then ackReadIndex ctx p r else r)"
  by (auto simp: ackReadIndex_def Let_def commit_step_def reads_ok_def split: option.split)

lemma commit_step_handleAppendEntriesResponse:
  assumes "handleAppendEntriesResponse m r = Some r'"
  shows "commit_step r r'"
proof -
  note q1 = commit_step_ackReadIndex [of r "m_ReadContext m \<noteq> 0" "m_ReadContext m" "m_From m"]
  have q: "commit_step s (s\<lparr>r_matchIndex := n, r_nextIndex := k\<rparr>)" "commit_step s (s\<lparr>r_nextIndex := n, r_sentIndex := k\<rparr>)" for s n k
    by auto
  from assms show ?thesis
  proof (cases rule: handleAppendEntriesResponse_cases)
    case success
    from commit_step_trans [OF commit_step_trans [OF q1 q(1)] commit_step_maybeAdvanceCommitIndex [OF success(4)]] show ?thesis .
  next
    case failure
    from commit_step_trans [OF commit_step_trans [OF q1 q(2)] commit_step_sendAppendEntries [OF failure(4)]] show ?thesis .
  qed (auto simp: commit_step_becomeFollower)
qed

lemma commit_step_handleInstallSnapshot:
  assumes "handleInstallSnapshot m r = Some r'"
  shows "commit_step r r'"
  using assms
proof (cases rule: handleInstallSnapshot_cases)
  case (install first)
  show ?thesis unfolding install(4) by (auto simp: becomeFollower_def resetElectionTimeout_def)
qed (auto simp: commit_step_becomeFollower)

lemma commit_step_handleInstallSnapshotResponse:
  assumes "handleInstallSnapshotResponse m r = Some r'"
  shows "commit_step r r'"
  using assms
proof (cases rule: handleInstallSnapshotResponse_cases)
  case ack
  have "commit_step s (s\<lparr>r_matchIndex := n, r_nextIndex := k\<rparr>)" for s n k by auto
  from commit_step_trans [OF this commit_step_maybeAdvanceCommitIndex [OF ack(3)]] show ?thesis .
qed (auto simp: commit_step_becomeFollower)

lemma commit_step_handleRequestVote: "handleRequestVote m r = Some r' \<Longrightarrow> commit_step r r'"
  by (auto simp: handleRequestVote_def Let_def bind_eq_Some_conv becomeFollower_def resetElectionTimeout_def send_def
      split: if_splits intro!: commit_step_same)

lemma commit_step_handleRequestVoteResponse:
  assumes "handleRequestVoteResponse m r = Some r'"
  shows "commit_step r r'"
proof -
  have "commit_step s s'" if "becomeLeader (s\<lparr>r_votesReceived := v\<rparr>) = Some s'" for s s' v
    by (rule commit_step_trans [OF _ commit_step_becomeLeader [OF that]]) auto
  with assms show ?thesis
    by (auto simp: handleRequestVoteResponse_def Let_def commit_step_becomeFollower split: if_splits)
qed

lemma commit_step_handlePreVote: "handlePreVote m r = Some r' \<Longrightarrow> commit_step r r'"
  by (auto simp: handlePreVote_def Let_def bind_eq_Some_conv split: if_splits)

lemma commit_step_handlePreVoteResponse:
  assumes "handlePreVoteResponse m r = Some r'"
  shows "commit_step r r'"
proof -
  have "commit_step s s'" if "becomeCandidate (s\<lparr>r_preVotesReceived := v\<rparr>) = Some s'" for s s' v
    by (rule commit_step_trans [OF _ commit_step_becomeCandidate [OF that]]) auto
  with assms show ?thesis by (auto simp: handlePreVoteResponse_def Let_def split: if_splits)
qed

lemmas commit_step_handlers = commit_step_handlePreVote commit_step_handlePreVoteResponse commit_step_handleRequestVote
  commit_step_handleRequestVoteResponse commit_step_handleAppendEntriesResponse
  commit_step_handleInstallSnapshot commit_step_handleInstallSnapshotResponse

lemma commit_step_Step:
  assumes "Step m r = Some r'" "lastLogIndex r' = Some lst'" "r_commitIndex r \<le> lst'"
  shows "commit_step r r'"
  using assms commit_step_handleAppendEntries [OF _ assms(2,3)]
  by (auto simp: Step_def commit_step_same intro: commit_step_handlers split: if_splits MessageType.splits)

lemma commit_step_ProposeBatch:
  assumes "ProposeBatch ds r = Some (Inr (is, r'))"
  shows "commit_step r r'"
proof -
  obtain r1 r2 where r: "append_proposals ds r = Some (is, r1)"
    "fold_option (\<lambda>p. sendAppendEntries p 0) (r_peers r1) r1 = Some r2"
    "(if r_peers r2 = [] then maybeAdvanceCommitIndex r2 else Some r2) = Some r'"
    using assms by (auto simp: ProposeBatch_def bind_eq_Some_conv split: if_splits)
  have "commit_step r r1" using append_proposals_shape [OF r(1)] by auto
  also have "commit_step r1 r2" using r(2) by (rule commit_step_fold_option) (rule commit_step_sendAppendEntries)
  also have "commit_step r2 r'" using r(3) by (auto intro: commit_step_maybeAdvanceCommitIndex split: if_splits)
  finally show ?thesis .
qed

lemma commit_step_RequestReadIndex:
  assumes "RequestReadIndex c r = Some (Inr r')"
  shows "commit_step r r'"
proof (cases "hasMajorityCount (card {r_id r}) r")
  case True
  with assms show ?thesis by (auto simp: RequestReadIndex_def commit_step_def reads_ok_def split: if_splits)
next
  case False
  let ?r1 = "r\<lparr>r_pendingReads := (r_pendingReads r)(c := Some \<lparr>pr_index = r_commitIndex r, pr_acked = {r_id r}\<rparr>)\<rparr>"
  have "fold_option (\<lambda>p. sendAppendEntries p c) (r_peers r) ?r1 = Some r'"
    using assms False by (auto simp: RequestReadIndex_def bind_eq_Some_conv split: if_splits)
  then have "commit_step ?r1 r'" by (rule commit_step_fold_option) (rule commit_step_sendAppendEntries)
  moreover have "commit_step r ?r1" by (auto simp: commit_step_def reads_ok_def)
  ultimately show ?thesis by (blast intro: commit_step_trans)
qed

lemma commit_step_CreateSnapshot: "CreateSnapshot i d r = Some (Inr r') \<Longrightarrow> commit_step r r'"
  by (auto simp: CreateSnapshot_def bind_eq_Some_conv split: if_splits)

lemma commit_step_event:
  assumes "apply_event ev r = Some r'" "lastLogIndex r' = Some lst'" "r_commitIndex r \<le> lst'"
  shows "commit_step r r'"
proof (cases ev)
  case (EPropose ds)
  with assms obtain res where "ProposeBatch ds r = Some res" "r' = case_sum (\<lambda>_. r) snd res" by auto
  then show ?thesis using commit_step_ProposeBatch [of ds r] by (cases res) auto
next
  case (ESnapshot i d)
  with assms obtain res where "CreateSnapshot i d r = Some res" "r' = case_sum (\<lambda>_. r) id res" by auto
  then show ?thesis using commit_step_CreateSnapshot [of i d r] by (cases res) auto
next
  case (EReadIndex c)
  with assms obtain res where "RequestReadIndex c r = Some res" "r' = case_sum (\<lambda>_. r) id res" by auto
  then show ?thesis using commit_step_RequestReadIndex [of c r] by (cases res) auto
qed (use assms in \<open>auto intro: commit_step_Tick commit_step_Step\<close>)

end
