(* ===== verification/Raft_Gapless.thy ===== *)
theory Raft_Gapless
  imports Raft_Log Raft_Election
begin

text \<open>
  In a whole cluster, with messages lost, repeated and reordered and with nodes that crash in the middle of
  writing, every log in memory and on disk stays without gaps, and every AppendEntries message continues at
  the index it names. The proof relates a node's memory to its durable state.
\<close>

section \<open>Memory and disk\<close>

text \<open>
  The durable log is gapless and reaches up to what memory takes for durable, unless a newer snapshot is
  about to replace it.
\<close>

definition durable_log :: "Raft \<Rightarrow> disk \<Rightarrow> bool" where
  "durable_log r d \<longleftrightarrow> r_stableSnapshotIndex r = sn_LastIncludedIndex (dk_snapshot d)
     \<and> (r_stableSnapshotIndex r = le_Index (hd (r_log r))
        \<longrightarrow> unat (r_unstableIndex r) \<le> unat (le_Index (hd (r_log r))) + 1 + length (dk_entries d))"

definition disk_gapless :: "disk \<Rightarrow> bool" where
  "disk_gapless d \<longleftrightarrow> follows (sn_LastIncludedIndex (dk_snapshot d)) (dk_entries d)
     \<and> small (sn_LastIncludedIndex (dk_snapshot d)) \<and> (\<forall>e \<in> set (dk_entries d). small (le_Index e))"

lemma durable_log_moved:
  assumes "durable_log r d" "moved r r'" "anchored r"
  shows "durable_log r' d"
  using assms by (auto simp: durable_log_def moved_def anchored_def word_le_nat_alt word_less_nat_alt)

lemma anchored_first:
  assumes "anchored r"
  shows "r_log r \<noteq> []" "firstLogIndex r = Some (le_Index (hd (r_log r)))" "lastLogIndex r = Some (le_Index (last (r_log r)))"
  using assms by (auto simp: anchored_def gapless_def firstLogIndex_def lastLogIndex_def)

text \<open>Cutting a durable log at an index, and what follows the cut.\<close>

lemma filter_follows:
  "follows p es \<Longrightarrow> filter (\<lambda>e. le_Index e < u) es = take (unat u - unat p - 1) es"
proof (induction es arbitrary: p)
  case (Cons e es)
  then have e: "unat (le_Index e) = unat p + 1" "follows (le_Index e) es" by (simp_all add: follows_Cons)
  note IH = Cons.IH [OF e(2)]
  show ?case
  proof (cases "le_Index e < u")
    case True
    then obtain k where "unat u - unat p - 1 = Suc k" "unat u - unat (le_Index e) - 1 = k" using e(1)
      by (metis Suc_diff_Suc Suc_eq_plus1 diff_diff_left word_less_nat_alt add.commute)
    with True IH show ?thesis by simp
  next
    case False
    then have "unat u \<le> unat p + 1" using e(1) by (simp add: word_less_nat_alt)
    with False IH e(1) show ?thesis by simp
  qed
qed simp

lemma disk_append_member:
  "d' \<in> set (disk_append es d) \<Longrightarrow> \<exists>k. d' = d\<lparr>dk_entries := dk_entries d @ take k es\<rparr>"
proof (induction es arbitrary: d)
  case (Cons e es)
  then consider "d' = d" | "d' \<in> set (disk_append es (d\<lparr>dk_entries := dk_entries d @ [e]\<rparr>))" by auto
  then show ?case
  proof cases
    case 1
    then show ?thesis by (intro exI [of _ 0]) simp
  next
    case 2
    then obtain k where "d' = d\<lparr>dk_entries := dk_entries d @ [e] @ take k es\<rparr>" using Cons.IH by fastforce
    then show ?thesis by (intro exI [of _ "Suc k"]) simp
  qed
qed (auto intro: exI [of _ 0])

lemma disk_append_last: "last (disk_append es d) = d\<lparr>dk_entries := dk_entries d @ es\<rparr>"
  by (induction es arbitrary: d) simp_all

section \<open>Persisting\<close>

text \<open>What is written besides a snapshot: the entries from the unstable index on.\<close>

lemma anchored_unstable:
  assumes "anchored r"
  shows "unat (le_Index (hd (r_log r))) < unat (r_unstableIndex r)" "unat (r_unstableIndex r) < 2 ^ 63"
    "unat (le_Index (last (r_log r))) = unat (le_Index (hd (r_log r))) + (length (r_log r) - 1)"
    "unat (r_unstableIndex r) \<le> unat (le_Index (last (r_log r))) + 1"
proof -
  have "small (le_Index (last (r_log r)))" using assms anchored_first(1) [OF assms] by (simp add: anchored_def)
  with assms gapless_last [of r] show "unat (le_Index (hd (r_log r))) < unat (r_unstableIndex r)" "unat (r_unstableIndex r) < 2 ^ 63"
    "unat (le_Index (last (r_log r))) = unat (le_Index (hd (r_log r))) + (length (r_log r) - 1)"
    "unat (r_unstableIndex r) \<le> unat (le_Index (last (r_log r))) + 1"
    by (auto simp: anchored_def small_def word_less_nat_alt)
qed

lemma Ready_unstable:
  assumes a: "anchored r" and rd: "Raft_Ready r = Some rd"
  defines "n \<equiv> unat (r_unstableIndex r) - unat (le_Index (hd (r_log r)))"
  shows "rd_UnstableEntries rd = drop n (r_log r)"
    "rd_UnstableEntries rd \<noteq> [] \<Longrightarrow> rd_FirstUnstableIndex rd = r_unstableIndex r"
    "rd_Snapshot rd = (if r_stableSnapshotIndex r < le_Index (hd (r_log r)) then Some (r_snapshot r) else None)"
proof -
  note F = anchored_first [OF a] and U = anchored_unstable [OF a]
  let ?u = "r_unstableIndex r" and ?f = "le_Index (hd (r_log r))" and ?l = "le_Index (last (r_log r))"
  have le: "?f \<le> ?u" using U(1) by (simp add: word_le_nat_alt)
  have "sint (?u - ?f) = int (unat (?u - ?f))" using U(2) unat_diff [OF le] by (intro sint_small_unat) simp
  then have pos: "logPos ?u r = Some (int n)" unfolding logPos_def F n_def unat_diff [OF le] by simp
  obtain es where es: "rd_UnstableEntries rd = es" "rd_FirstUnstableIndex rd = (if ?u \<le> ?l then ?u else 0)"
    "(if ?u \<le> ?l then logPos ?u r \<bind> (\<lambda>a. go_slice (r_log r) a (int (length (r_log r)))) else Some []) = Some es"
    "rd_Snapshot rd = (if r_stableSnapshotIndex r < sn_LastIncludedIndex (r_snapshot r) then Some (r_snapshot r) else None)"
    using rd F by (auto simp: Raft_Ready_def bind_eq_Some_conv)
  have "es = drop n (r_log r) \<and> (es \<noteq> [] \<longrightarrow> ?u \<le> ?l)"
  proof (cases "?u \<le> ?l")
    case True
    with es(3) pos show ?thesis by (auto simp: go_slice_def split: if_splits)
  next
    case False
    then have "length (r_log r) \<le> n" using U F(1) by (simp add: n_def word_le_nat_alt)
    with False es(3) show ?thesis by simp
  qed
  then show "rd_UnstableEntries rd = drop n (r_log r)" "rd_UnstableEntries rd \<noteq> [] \<Longrightarrow> rd_FirstUnstableIndex rd = r_unstableIndex r"
    using es(1,2) by auto
  show "rd_Snapshot rd = (if r_stableSnapshotIndex r < ?f then Some (r_snapshot r) else None)"
    using es(4) a by (simp add: anchored_def)
qed

lemma Advance_anchored:
  assumes a: "anchored r" and adv: "Advance r = Some r'"
  shows "anchored r'" "r_log r' = r_log r" "r_stableSnapshotIndex r' = le_Index (hd (r_log r))"
    "unat (r_unstableIndex r') = unat (le_Index (last (r_log r))) + 1"
proof -
  note F = anchored_first [OF a] and U = anchored_unstable [OF a]
  let ?u = "r_unstableIndex r" and ?l = "le_Index (last (r_log r))"
  have r': "r_log r' = r_log r" "r_snapshot r' = r_snapshot r" "r_stableSnapshotIndex r' = sn_LastIncludedIndex (r_snapshot r)"
    "r_unstableIndex r' = (if ?u \<le> ?l then ?l + 1 else ?u)"
    using adv F(3) by (auto simp: Advance_def)
  have "small ?l" using a F(1) by (simp add: anchored_def)
  then have l1: "unat (?l + 1) = unat ?l + 1" by (intro unat_plus_one_small) (simp add: small_def)
  show u: "unat (r_unstableIndex r') = unat ?l + 1" using U(4) l1 r'(4) by (auto simp: word_le_nat_alt)
  show "r_log r' = r_log r" "r_stableSnapshotIndex r' = le_Index (hd (r_log r))" using r' a by (simp_all add: anchored_def)
  then show "anchored r'" using a u r'(2) U(3) by (simp add: anchored_def gapless_def word_less_nat_alt)
qed

lemma disk_gapless_cong: "dk_entries d' = dk_entries d \<Longrightarrow> dk_snapshot d' = dk_snapshot d \<Longrightarrow> disk_gapless d' = disk_gapless d"
  by (simp add: disk_gapless_def)

text \<open>The whole log after the sentinel is what a snapshot is saved with.\<close>

lemma Entries_all:
  assumes "anchored r" "Entries (le_Index (hd (r_log r))) (le_Index (last (r_log r))) r = Some es"
  shows "es = tl (r_log r)"
proof -
  note U = anchored_unstable(3) [OF assms(1)]
  obtain s xs where l: "r_log r = s # xs" using anchored_first(1) [OF assms(1)] by (cases "r_log r") auto
  have "gapless r" using assms(1) by (simp add: anchored_def)
  from Entries_gapless [OF this l assms(2)] l U show ?thesis by simp
qed

lemma tl_disk_gapless:
  assumes "anchored r" "dk_entries d = tl (r_log r)" "sn_LastIncludedIndex (dk_snapshot d) = le_Index (hd (r_log r))"
  shows "disk_gapless d"
proof -
  obtain s xs where "r_log r = s # xs" using anchored_first(1) [OF assms(1)] by (cases "r_log r") auto
  with assms show ?thesis by (auto simp: disk_gapless_def anchored_def gapless_def)
qed

text \<open>Rewriting the tail: the part of the disk before the unstable index, then a part of the tail in memory.\<close>

lemma rewrite_gapless:
  assumes a: "anchored r" and d: "durable_log r d" "disk_gapless d" and st: "r_stableSnapshotIndex r = le_Index (hd (r_log r))"
    and dk: "dk_snapshot d1 = dk_snapshot d" "dk_entries d1 = filter (\<lambda>e. le_Index e < r_unstableIndex r) (dk_entries d) @ take k es"
    and es: "es = drop (unat (r_unstableIndex r) - unat (le_Index (hd (r_log r)))) (r_log r)"
  shows "disk_gapless d1" "length (dk_entries d1) = unat (r_unstableIndex r) - unat (le_Index (hd (r_log r))) - 1 + length (take k es)"
proof -
  note U = anchored_unstable [OF a] and F = anchored_first [OF a]
  let ?f = "le_Index (hd (r_log r))"
  define n where "n = unat (r_unstableIndex r) - unat ?f"
  have f: "sn_LastIncludedIndex (dk_snapshot d) = ?f" "follows ?f (dk_entries d)" "n \<le> 1 + length (dk_entries d)"
    using d st by (auto simp: durable_log_def disk_gapless_def n_def)
  have e1: "dk_entries d1 = take (n - 1) (dk_entries d) @ take k es" using dk(2) filter_follows [OF f(2)] by (simp add: n_def)
  have g: "gapless r" using a by (simp add: anchored_def)
  have "unat (le_Index (take k es ! i)) = unat ?f + 1 + length (take (n - 1) (dk_entries d)) + i" if "i < length (take k es)" for i
  proof -
    have "n + i < length (r_log r)" "i < k" "0 < n" using that U(1) by (auto simp: es n_def [symmetric]) (simp add: n_def)
    with gapless_nth [OF g this(1)] f(3) show ?thesis by (simp add: es n_def [symmetric])
  qed
  with f(2) have "follows ?f (dk_entries d1)" by (simp add: e1 follows_append follows_take)
  moreover have "set (dk_entries d1) \<subseteq> set (dk_entries d) \<union> set (r_log r)"
    unfolding e1 es by (auto dest: in_set_takeD in_set_dropD)
  ultimately show "disk_gapless d1" using dk(1) f(1) d(2) a by (auto simp: disk_gapless_def anchored_def)
  show "length (dk_entries d1) = unat (r_unstableIndex r) - unat (le_Index (hd (r_log r))) - 1 + length (take k es)"
    unfolding e1 n_def [symmetric] using f(3) by simp
qed

lemma persist_gapless:
  assumes a: "anchored r" and ps: "persist_states r d = Some ds" and d: "durable_log r d" "disk_gapless d"
  shows "d' \<in> set ds \<Longrightarrow> disk_gapless d'" "Advance r = Some r' \<Longrightarrow> durable_log r' (last ds)"
proof -
  note F = anchored_first [OF a] and U = anchored_unstable [OF a] and V = Advance_anchored [OF a]
  let ?f = "le_Index (hd (r_log r))" and ?l = "le_Index (last (r_log r))"
  obtain rd where rd: "Raft_Ready r = Some rd" using ps by (auto simp: persist_states_def bind_eq_Some_conv)
  note R = Ready_unstable [OF a rd]
  have durable: "durable_log r' d'" if "Advance r = Some r'" "sn_LastIncludedIndex (dk_snapshot d') = ?f"
      "unat ?l \<le> unat ?f + length (dk_entries d')" for d'
    using V [OF that(1)] that(2,3) by (simp add: durable_log_def)
  have "(\<forall>d' \<in> set ds. disk_gapless d') \<and> (Advance r = Some r' \<longrightarrow> durable_log r' (last ds))"
  proof (cases "r_stableSnapshotIndex r < ?f")
    case True
    then have sn: "rd_Snapshot rd = Some (r_snapshot r)" "sn_LastIncludedIndex (r_snapshot r) = ?f"
      using R(3) a by (simp_all add: anchored_def)
    obtain es hs where es: "Entries ?f ?l r = Some es" "ds = [d, disk_save_snapshot hs (r_snapshot r) es]"
      using ps rd sn F(3) by (auto simp: persist_states_def bind_eq_Some_conv)
    have "es = tl (r_log r)" using Entries_all [OF a es(1)] .
    with es(2) sn(2) a have "disk_gapless (last ds)" "unat ?l \<le> unat ?f + length (dk_entries (last ds))"
      using U(3) by (auto simp: disk_save_snapshot_def intro!: tl_disk_gapless)
    with es(2) d(2) durable [of "last ds"] sn(2) show ?thesis by (simp add: disk_save_snapshot_def)
  next
    case False
    then have st: "r_stableSnapshotIndex r = ?f" "rd_Snapshot rd = None" using R(3) a by (auto simp: anchored_def)
    let ?es = "rd_UnstableEntries rd"
    define d1 where "d1 = (case rd_HardState rd of Some hs \<Rightarrow> disk_save_hs hs d | None \<Rightarrow> d)"
    define d2 where "d2 = disk_truncate (rd_FirstUnstableIndex rd) d1"
    have d1: "dk_entries d1 = dk_entries d" "dk_snapshot d1 = dk_snapshot d"
      by (simp_all add: d1_def disk_save_hs_def split: option.split)
    then have g1: "disk_gapless d1" using d(2) disk_gapless_cong [OF d1] by simp
    have f: "sn_LastIncludedIndex (dk_snapshot d) = ?f" using d(1) st(1) by (simp add: durable_log_def)
    have ds: "ds = d # (if ?es = [] then [d1] else d1 # disk_append ?es d2)"
      using ps rd st(2) by (auto simp: persist_states_def Let_def d1_def d2_def split: if_splits)
    show ?thesis
    proof (cases "?es = []")
      case True
      then have "unat ?l \<le> unat ?f + length (dk_entries d1)" using R(1) U d1 d(1) st(1) by (auto simp: durable_log_def)
      with True ds g1 d(2) durable [of d1] f d1 show ?thesis by simp
    next
      case ne: False
      then have d2: "dk_entries d2 = filter (\<lambda>e. le_Index e < r_unstableIndex r) (dk_entries d)" "dk_snapshot d2 = dk_snapshot d"
        using R(2) d1 by (simp_all add: d2_def disk_truncate_def)
      have app: "disk_gapless (d2\<lparr>dk_entries := dk_entries d2 @ take k ?es\<rparr>)" for k
        by (rule rewrite_gapless(1) [OF a d st(1) _ _ R(1)]) (simp_all add: d2)
      have "length (dk_entries (d2\<lparr>dk_entries := dk_entries d2 @ ?es\<rparr>)) = unat (r_unstableIndex r) - unat ?f - 1 + length ?es"
        using rewrite_gapless(2) [OF a d st(1) _ _ R(1), of "d2\<lparr>dk_entries := dk_entries d2 @ ?es\<rparr>" "length ?es"] by (simp add: d2)
      then have "unat ?l \<le> unat ?f + length (dk_entries (d2\<lparr>dk_entries := dk_entries d2 @ ?es\<rparr>))" using R(1) U F(1) by simp
      with durable [of "d2\<lparr>dk_entries := dk_entries d2 @ ?es\<rparr>"] f d2(2) ne ds g1 d(2) app disk_append_member [of _ ?es d2]
      show ?thesis by (auto simp: disk_append_last)
    qed
  qed
  then show "d' \<in> set ds \<Longrightarrow> disk_gapless d'" "Advance r = Some r' \<Longrightarrow> durable_log r' (last ds)" by blast+
qed

lemma restart_gapless:
  assumes "restart cfg rnd d = Some r" "disk_gapless d"
  shows "anchored r \<and> durable_log r d"
proof -
  obtain r0 r1 where *: "Raft_New cfg rnd = Inr r0"
    "restoreState (dk_hs d) (sentinel_of (dk_snapshot d) # dk_entries d) r0 = Some r1"
    "r = (if 0 < sn_LastIncludedIndex (dk_snapshot d)
       then r1\<lparr>r_snapshot := dk_snapshot d, r_stableSnapshotIndex := sn_LastIncludedIndex (dk_snapshot d)\<rparr> else r1)"
    using assms(1) by (rule restart_shape)
  note r0 = Raft_New_state [OF *(1)] and r1 = restoreState_shape [OF *(2), simplified]
  let ?s = "sentinel_of (dk_snapshot d)" and ?i = "sn_LastIncludedIndex (dk_snapshot d)"
  have s: "le_Index ?s = ?i" by (simp add: sentinel_of_def word_gt_0)
  have r: "r_log r = ?s # dk_entries d" "sn_LastIncludedIndex (r_snapshot r) = ?i" "r_stableSnapshotIndex r = ?i"
    "r_unstableIndex r = le_Index (last (?s # dk_entries d)) + 1"
    using * r0 r1 by (simp_all add: zero_Snapshot_def word_gt_0)
  have sm: "\<forall>e \<in> set (r_log r). small (le_Index e)" using assms(2) s r(1) by (simp add: disk_gapless_def)
  then have "small (le_Index (last (r_log r)))" using r(1) by simp
  then have u: "unat (r_unstableIndex r) = unat (le_Index (last (r_log r))) + 1"
    unfolding r(4) r(1) [symmetric] by (intro unat_plus_one_small) (simp add: small_def)
  have g: "gapless r" using assms(2) r(1) s by (auto simp: disk_gapless_def gapless_def)
  with gapless_last [OF g] r(1) s u sm r(2,3) show ?thesis
    by (simp add: anchored_def durable_log_def word_less_nat_alt del: last.simps)
qed

section \<open>The cluster\<close>

text \<open>Runs in which no log grows past index \<open>2 ^ 63\<close>.\<close>

inductive reachable_bounded :: "uint64 set \<Rightarrow> (uint64 \<Rightarrow> Config) \<Rightarrow> cluster \<Rightarrow> bool"
  for S cfg where
  init: "cluster_init S cfg c \<Longrightarrow> reachable_bounded S cfg c"
| step: "reachable_bounded S cfg c \<Longrightarrow> cluster_step S cfg c c' \<Longrightarrow> (\<And>i. i \<in> S \<Longrightarrow> bounded (c_mem c' i))
    \<Longrightarrow> reachable_bounded S cfg c'"

definition logs_inv :: "uint64 set \<Rightarrow> cluster \<Rightarrow> bool" where
  "logs_inv S c \<longleftrightarrow> (\<forall>i \<in> S. anchored (c_mem c i) \<and> durable_log (c_mem c i) (c_disk c i) \<and> disk_gapless (c_disk c i)
       \<and> (\<forall>m \<in> set (r_msgs (c_mem c i)). msg_gapless m))
     \<and> (\<forall>m \<in> c_net c. msg_gapless m)"

lemma logs_inv_step:
  assumes "cluster_step S cfg c c'" "logs_inv S c" "\<And>i. i \<in> S \<Longrightarrow> bounded (c_mem c' i)"
  shows "logs_inv S c'"
  using assms(1)
proof cases
  case (event i ev r')
  then have "log_step (c_mem c i) r'"
    using assms(2) assms(3) [of i] by (intro log_step_event [OF event(3)]) (auto simp: logs_inv_def)
  moreover have i: "anchored (c_mem c i)" "durable_log (c_mem c i) (c_disk c i)" using assms(2) event(2) by (auto simp: logs_inv_def)
  ultimately obtain new where N: "anchored r'" "moved (c_mem c i) r'" "r_msgs r' = r_msgs (c_mem c i) @ new"
    "\<forall>m \<in> set new. msg_gapless m" by (auto simp: log_step_def)
  have "durable_log r' (c_disk c i)" by (rule durable_log_moved [OF i(2) N(2) i(1)])
  with N assms(2) event(1,2) show ?thesis by (auto simp: logs_inv_def)
next
  case (persist i ds r')
  have i: "anchored (c_mem c i)" "durable_log (c_mem c i) (c_disk c i)" "disk_gapless (c_disk c i)"
    "\<forall>m \<in> set (r_msgs (c_mem c i)). msg_gapless m" using assms(2) persist(2) by (auto simp: logs_inv_def)
  have "ds \<noteq> []" using persist(3) by (auto simp: persist_states_def bind_eq_Some_conv Let_def split: option.splits)
  then have "disk_gapless (last ds)" using persist_gapless(1) [OF i(1) persist(3) i(2,3)] by simp
  moreover have "r_msgs r' = []" using persist(4) by (auto simp: Advance_def bind_eq_Some_conv)
  ultimately show ?thesis using assms(2) persist(1,2) i persist_gapless(2) [OF i(1) persist(3) i(2,3) persist(4)]
      Advance_anchored(1) [OF i(1) persist(4)] by (auto simp: logs_inv_def)
next
  case (crash i d rnd r')
  have i: "anchored (c_mem c i)" "durable_log (c_mem c i) (c_disk c i)" "disk_gapless (c_disk c i)"
    using assms(2) crash(2) by (auto simp: logs_inv_def)
  then have "disk_gapless d" using crash(3) persist_gapless(1) by blast
  with crash restart_gapless [OF crash(4)] assms(2) restart_state(4) [OF crash(4)] show ?thesis by (auto simp: logs_inv_def)
qed

lemma reachable_logs_inv: "reachable_bounded S cfg c \<Longrightarrow> logs_inv S c"
proof (induction rule: reachable_bounded.induct)
  case (init c)
  then show ?case
  proof cases
    case (1 rnd mem)
    have "disk_gapless empty_disk" by (simp add: disk_gapless_def empty_disk_def small_def zero_Snapshot_def)
    with 1 restart_gapless restart_state(4) show ?thesis by (fastforce simp: logs_inv_def)
  qed
next
  case (step c c')
  then show ?case by (blast intro: logs_inv_step)
qed

text \<open>
  C5. No log has a gap. In every reachable state of a cluster, after any sequence of events, lost, repeated and
  reordered messages, and crashes at any point of writing to storage, the indices of every node's log, in memory
  and on disk, are consecutive from the index of its snapshot on, and the entries of every AppendEntries message
  follow the index the message names. The log starts at the snapshot, and the first index that is not yet
  durable is within it or just behind it.
\<close>

theorem logs_gapless:
  assumes "reachable_bounded S cfg c"
  shows "(\<forall>i \<in> S. (\<forall>k < length (r_log (c_mem c i)).
        unat (le_Index (r_log (c_mem c i) ! k)) = unat (sn_LastIncludedIndex (r_snapshot (c_mem c i))) + k)
      \<and> follows (sn_LastIncludedIndex (dk_snapshot (c_disk c i))) (dk_entries (c_disk c i))
      \<and> sn_LastIncludedIndex (r_snapshot (c_mem c i)) < r_unstableIndex (c_mem c i)
      \<and> unat (r_unstableIndex (c_mem c i)) \<le> unat (sn_LastIncludedIndex (r_snapshot (c_mem c i))) + length (r_log (c_mem c i)))
    \<and> (\<forall>m \<in> c_net c. m_Type m = MsgAppendEntries \<longrightarrow> follows (m_PrevLogIndex m) (m_Entries m))"
proof (intro conjI ballI)
  have inv: "logs_inv S c" using assms by (rule reachable_logs_inv)
  then show "m_Type m = MsgAppendEntries \<longrightarrow> follows (m_PrevLogIndex m) (m_Entries m)" if "m \<in> c_net c" for m
    using that by (simp add: logs_inv_def msg_gapless_def)
  fix i
  assume "i \<in> S"
  then have i: "anchored (c_mem c i)" "disk_gapless (c_disk c i)" using inv by (auto simp: logs_inv_def)
  then have g: "gapless (c_mem c i)" "sn_LastIncludedIndex (r_snapshot (c_mem c i)) = le_Index (hd (r_log (c_mem c i)))"
    by (simp_all add: anchored_def)
  note U = anchored_unstable [OF i(1)] and F = anchored_first(1) [OF i(1)]
  show "\<forall>k < length (r_log (c_mem c i)).
      unat (le_Index (r_log (c_mem c i) ! k)) = unat (sn_LastIncludedIndex (r_snapshot (c_mem c i))) + k"
    using gapless_nth [OF g(1)] g(2) by simp
  show "follows (sn_LastIncludedIndex (dk_snapshot (c_disk c i))) (dk_entries (c_disk c i))" using i(2) by (simp add: disk_gapless_def)
  show "sn_LastIncludedIndex (r_snapshot (c_mem c i)) < r_unstableIndex (c_mem c i)"
    using U(1) g(2) by (simp add: word_less_nat_alt)
  show "unat (r_unstableIndex (c_mem c i)) \<le> unat (sn_LastIncludedIndex (r_snapshot (c_mem c i))) + length (r_log (c_mem c i))"
    using U(3,4) g(2) F by (cases "r_log (c_mem c i)") simp_all
qed

text \<open>A run of two nodes in which the leader's first entry reaches the other node and one of them restarts.\<close>

definition sim_small :: "uint64 list \<Rightarrow> sim \<Rightarrow> bool" where
  "sim_small ids s \<longleftrightarrow>
     list_all (\<lambda>i. list_all (\<lambda>e. le_Index e < 1000) (r_log (s_mem s i)) \<and> length (r_log (s_mem s i)) < 1000) ids"

definition sim_step_small :: "uint64 list \<Rightarrow> (uint64 \<Rightarrow> Config) \<Rightarrow> action \<Rightarrow> sim \<Rightarrow> sim option" where
  "sim_step_small ids cfg a s = Option.bind (sim_step ids cfg a s) (\<lambda>s'. if sim_small ids s' then Some s' else None)"

lemma sim_small_bounded:
  assumes "sim_small ids s" "i \<in> set ids"
  shows "bounded (c_mem (sim_cluster s) i)"
proof -
  have "small x" if "x < 1000" for x :: uint64
    using that unfolding small_def by (simp add: word_less_nat_alt)
  with assms show ?thesis by (auto simp: sim_small_def bounded_def sim_cluster_def list_all_iff)
qed

lemma sim_step_bounded:
  assumes "sim_step_small ids cfg a s = Some s'" "reachable_bounded (set ids) cfg (sim_cluster s)"
  shows "reachable_bounded (set ids) cfg (sim_cluster s')"
proof -
  have "sim_step ids cfg a s = Some s'" and small: "sim_small ids s'"
    using assms(1) by (auto simp: sim_step_small_def bind_eq_Some_conv split: if_splits)
  from sim_step_sound [OF this(1)] show ?thesis
    by (rule reachable_bounded.step [OF assms(2)]) (rule sim_small_bounded [OF small])
qed

lemma sim_run_bounded:
  assumes "fold_option (sim_step_small ids cfg) acts s = Some s'" "reachable_bounded (set ids) cfg (sim_cluster s)"
  shows "reachable_bounded (set ids) cfg (sim_cluster s')"
  using assms by (rule fold_option_invariant) (rule sim_step_bounded)

definition ex_replicated :: "sim option" where
  "ex_replicated = fold_option (sim_step_small [1, 2] (ex_cfg [1, 2]))
     (ex_election @ [ANode 1 (EPropose [[7]]), APersist 1, ADeliver 5, APersist 2, ACrash 2]) (sim_start (ex_cfg [1, 2]))"

lemma ex_replicated_reachable: "reachable_bounded {1, 2} (ex_cfg [1, 2]) (sim_cluster (the ex_replicated))"
proof -
  have "ex_replicated \<noteq> None" by code_simp
  then obtain s where s: "ex_replicated = Some s" by blast
  have "restart (ex_cfg [1, 2] i) (\<lambda>_. 0) empty_disk \<noteq> None" if "i \<in> {1, 2}" for i
    using that by (elim insertE emptyE; simp only:; code_simp)
  then have "cluster_init {1, 2} (ex_cfg [1, 2]) (sim_cluster (sim_start (ex_cfg [1, 2])))"
    using cluster_init.intros [of "{1, 2}" "ex_cfg [1, 2]" "\<lambda>_ _. 0" "s_mem (sim_start (ex_cfg [1, 2]))"]
    by (auto simp: sim_cluster_def sim_start_def)
  then have "reachable_bounded (set [1, 2]) (ex_cfg [1, 2]) (sim_cluster (sim_start (ex_cfg [1, 2])))"
    by (simp add: reachable_bounded.init)
  from sim_run_bounded [OF s [unfolded ex_replicated_def] this] show ?thesis unfolding s option.sel by simp
qed

theorem logs_gapless_witness:
  "map le_Data (r_log (c_mem (sim_cluster (the ex_replicated)) 2)) = [[], [7]]
   \<and> unat (le_Index (r_log (c_mem (sim_cluster (the ex_replicated)) 2) ! 1))
     = unat (sn_LastIncludedIndex (r_snapshot (c_mem (sim_cluster (the ex_replicated)) 2))) + 1
   \<and> follows (sn_LastIncludedIndex (dk_snapshot (c_disk (sim_cluster (the ex_replicated)) 2))) (dk_entries (c_disk (sim_cluster (the ex_replicated)) 2))"
proof -
  have "map le_Data (r_log (s_mem (the ex_replicated) 2)) = [[], [7]]" by code_simp
  then have d: "map le_Data (r_log (c_mem (sim_cluster (the ex_replicated)) 2)) = [[], [7]]" by (simp add: sim_cluster_def)
  then have "length (r_log (c_mem (sim_cluster (the ex_replicated)) 2)) = 2" by (metis length_map list.size(3,4) One_nat_def Suc_1 add.commute plus_1_eq_Suc)
  with logs_gapless [OF ex_replicated_reachable] d show ?thesis by auto
qed

end
