(* ===== verification/Transport_Codec.thy ===== *)
theory Transport_Codec
  imports Raft_Types
begin

text \<open>
  The wire format of Raft messages and its framing (\<open>src/transport/codec.go\<close>). Decoding reads at offsets of
  a byte slice; reading past its end is the run-time panic \<open>ReadPanic\<close>, which is shown not to happen.
\<close>

section \<open>Messages\<close>

datatype transport_error = ErrMalformed | ReadPanic

definition entryHeaderSize :: nat where
  "entryHeaderSize = 8 + 8 + 4"

definition fixedFieldsSize :: nat where
  "fixedFieldsSize = 1 + 8 + 8 + 8 + 8 + 8 + 1 + 8 + 8 + 4 + 8 + 1 + 8 + 8 + 8 + 8 + 4"

definition boolByte :: "bool \<Rightarrow> byte" where
  "boolByte b = (if b then 1 else 0)"

text \<open>The conversions between \<open>MessageType\<close> and \<open>byte\<close>.\<close>

fun type_byte :: "MessageType \<Rightarrow> byte" where
  "type_byte MsgPreVote = 0"
| "type_byte MsgPreVoteResponse = 1"
| "type_byte MsgRequestVote = 2"
| "type_byte MsgRequestVoteResponse = 3"
| "type_byte MsgAppendEntries = 4"
| "type_byte MsgAppendEntriesResponse = 5"
| "type_byte MsgInstallSnapshot = 6"
| "type_byte MsgInstallSnapshotResponse = 7"
| "type_byte (MsgUnknown b) = b"

definition byte_type :: "byte \<Rightarrow> MessageType" where
  "byte_type b =
     (if b = 0 then MsgPreVote else if b = 1 then MsgPreVoteResponse
      else if b = 2 then MsgRequestVote else if b = 3 then MsgRequestVoteResponse
      else if b = 4 then MsgAppendEntries else if b = 5 then MsgAppendEntriesResponse
      else if b = 6 then MsgInstallSnapshot else if b = 7 then MsgInstallSnapshotResponse
      else MsgUnknown b)"

definition encode_entry :: "LogEntry \<Rightarrow> bytes" where
  "encode_entry e = PutUint64 (le_Term e) @ PutUint64 (le_Index e)
     @ PutUint32 (word_of_nat (length (le_Data e))) @ le_Data e"

definition encodeMessage :: "Message \<Rightarrow> bytes" where
  "encodeMessage m =
     [type_byte (m_Type m)]
     @ PutUint64 (m_From m) @ PutUint64 (m_To m) @ PutUint64 (m_Term m)
     @ PutUint64 (m_LastLogIndex m) @ PutUint64 (m_LastLogTerm m)
     @ [boolByte (m_VoteGranted m)]
     @ PutUint64 (m_PrevLogIndex m) @ PutUint64 (m_PrevLogTerm m)
     @ PutUint32 (word_of_nat (length (m_Entries m)))
     @ concat (map encode_entry (m_Entries m))
     @ PutUint64 (m_LeaderCommit m) @ [boolByte (m_Success m)]
     @ PutUint64 (m_MatchIndex m) @ PutUint64 (m_ReadContext m)
     @ PutUint64 (sn_LastIncludedIndex (m_Snapshot m)) @ PutUint64 (sn_LastIncludedTerm (m_Snapshot m))
     @ PutUint32 (word_of_nat (length (sn_Data (m_Snapshot m))))
     @ sn_Data (m_Snapshot m)"

text \<open>Reads at an offset, which they advance.\<close>

definition getUint64 :: "bytes \<Rightarrow> nat \<Rightarrow> transport_error + uint64 \<times> nat" where
  "getUint64 data off =
     (if off + 8 \<le> length data then Inr (Uint64 (drop off data), off + 8) else Inl ReadPanic)"

definition getUint32 :: "bytes \<Rightarrow> nat \<Rightarrow> transport_error + uint32 \<times> nat" where
  "getUint32 data off =
     (if off + 4 \<le> length data then Inr (Uint32 (drop off data), off + 4) else Inl ReadPanic)"

definition getByte :: "bytes \<Rightarrow> nat \<Rightarrow> transport_error + byte \<times> nat" where
  "getByte data off = (if off < length data then Inr (data ! off, off + 1) else Inl ReadPanic)"

definition getData :: "bytes \<Rightarrow> nat \<Rightarrow> uint32 \<Rightarrow> transport_error + bytes \<times> nat" where
  "getData data off dlen =
     (if (word_of_nat (length data - off) :: uint32) < dlen then Inl ErrMalformed
      else if 0 < dlen then
        (case go_slice data (int off) (int off + int (unat dlen)) of
           None \<Rightarrow> Inl ReadPanic
         | Some d \<Rightarrow> Inr (d, off + unat dlen))
      else Inr ([], off))"

fun decode_entries :: "nat \<Rightarrow> bytes \<Rightarrow> nat \<Rightarrow> transport_error + LogEntry list \<times> nat" where
  "decode_entries 0 data off = Inr ([], off)"
| "decode_entries (Suc n) data off =
     (if length data - off < entryHeaderSize then Inl ErrMalformed
      else
        sum_bind (getUint64 data off) (\<lambda>(trm, off).
        sum_bind (getUint64 data off) (\<lambda>(index, off).
        sum_bind (getUint32 data off) (\<lambda>(dlen, off).
        sum_bind (getData data off dlen) (\<lambda>(d, off).
        sum_bind (decode_entries n data off) (\<lambda>(es, off).
        Inr (\<lparr>le_Term = trm, le_Index = index, le_Data = d\<rparr> # es, off)))))))"

text \<open>The fields after the entries, filled into the message read so far.\<close>

definition decode_rest :: "bytes \<Rightarrow> nat \<Rightarrow> Message \<Rightarrow> transport_error + Message" where
  "decode_rest data off m =
     (if length data - off < 8 + 1 + 8 + 8 then Inl ErrMalformed
      else
        sum_bind (getUint64 data off) (\<lambda>(commit, off).
        sum_bind (getByte data off) (\<lambda>(success, off).
        sum_bind (getUint64 data off) (\<lambda>(matchIndex, off).
        sum_bind (getUint64 data off) (\<lambda>(readContext, off).
        if length data - off < 8 + 8 + 4 then Inl ErrMalformed
        else
        sum_bind (getUint64 data off) (\<lambda>(snapIndex, off).
        sum_bind (getUint64 data off) (\<lambda>(snapTerm, off).
        sum_bind (getUint32 data off) (\<lambda>(snapLen, off).
        sum_bind (getData data off snapLen) (\<lambda>(snapData, off).
        Inr (m\<lparr>m_LeaderCommit := commit, m_Success := (success \<noteq> 0), m_MatchIndex := matchIndex,
               m_ReadContext := readContext,
               m_Snapshot := \<lparr>sn_LastIncludedIndex = snapIndex, sn_LastIncludedTerm = snapTerm,
                              sn_Data = snapData\<rparr>\<rparr>))))))))))"

definition decodeMessage :: "bytes \<Rightarrow> transport_error + Message" where
  "decodeMessage data =
     (if length data < fixedFieldsSize then Inl ErrMalformed
      else
        sum_bind (getByte data 0) (\<lambda>(ty, off).
        sum_bind (getUint64 data off) (\<lambda>(from, off).
        sum_bind (getUint64 data off) (\<lambda>(to, off).
        sum_bind (getUint64 data off) (\<lambda>(trm, off).
        sum_bind (getUint64 data off) (\<lambda>(lastIndex, off).
        sum_bind (getUint64 data off) (\<lambda>(lastTerm, off).
        sum_bind (getByte data off) (\<lambda>(granted, off).
        sum_bind (getUint64 data off) (\<lambda>(prevIndex, off).
        sum_bind (getUint64 data off) (\<lambda>(prevTerm, off).
        sum_bind (getUint32 data off) (\<lambda>(count, off).
        if (word_of_nat (length data - off) :: uint32) div word_of_nat entryHeaderSize < count then Inl ErrMalformed
        else
        sum_bind (decode_entries (unat count) data off) (\<lambda>(entries, off).
        decode_rest data off
          ((new_Message (byte_type ty) to)
             \<lparr>m_From := from, m_Term := trm, m_LastLogIndex := lastIndex, m_LastLogTerm := lastTerm,
              m_VoteGranted := (granted \<noteq> 0), m_PrevLogIndex := prevIndex, m_PrevLogTerm := prevTerm,
              m_Entries := entries\<rparr>)))))))))))))"

section \<open>Round trip\<close>

text \<open>\<open>at data off bs\<close>: the bytes from the offset on are \<open>bs\<close>.\<close>

definition at :: "bytes \<Rightarrow> nat \<Rightarrow> bytes \<Rightarrow> bool" where
  "at data off bs \<longleftrightarrow> off \<le> length data \<and> drop off data = bs"

lemma at_length: "at data off bs \<Longrightarrow> length data = off + length bs"
  by (auto simp: at_def)

lemma at_step:
  assumes "at data off (xs @ bs)"
  shows "at data (off + length xs) bs"
proof -
  have "drop (length xs) (drop off data) = bs" using assms by (simp only: at_def append_eq_conv_conj) simp
  then show ?thesis using at_length [OF assms] by (simp add: at_def add.commute)
qed

lemma getUint64_at:
  assumes "at data off (PutUint64 v @ bs)"
  shows "getUint64 data off = Inr (v, off + 8)" "at data (off + 8) bs"
  using at_length [OF assms] at_step [OF assms] assms by (auto simp: getUint64_def at_def)

lemma getUint32_at:
  assumes "at data off (PutUint32 v @ bs)"
  shows "getUint32 data off = Inr (v, off + 4)" "at data (off + 4) bs"
  using at_length [OF assms] at_step [OF assms] assms by (auto simp: getUint32_def at_def)

lemma getByte_at:
  assumes "at data off (b # bs)"
  shows "getByte data off = Inr (b, off + 1)" "at data (off + 1) bs"
proof -
  have "data ! off = b" using assms nth_via_drop by (force simp: at_def)
  with at_length [OF assms] at_step [of data off "[b]" bs] assms
  show "getByte data off = Inr (b, off + 1)" "at data (off + 1) bs" by (simp_all add: getByte_def)
qed

lemma getData_at:
  assumes "at data off (d @ bs)" "length data < 2 ^ 32"
  shows "getData data off (word_of_nat (length d)) = Inr (d, off + length d)" "at data (off + length d) bs"
proof -
  have len: "length data = off + length d + length bs" using at_length [OF assms(1)] by simp
  then have u: "unat (word_of_nat (length d) :: uint32) = length d" using assms(2) by simp
  have v: "unat (word_of_nat (length data - off) :: uint32) = length data - off"
    by (rule unat_of_nat_small) (use assms(2) in simp)
  have "go_slice data (int off) (int off + int (length d)) = Some d"
    using go_slice_nat [of off "off + length d" data] len assms(1) by (simp add: at_def)
  then show "getData data off (word_of_nat (length d)) = Inr (d, off + length d)"
    using u v len by (auto simp: getData_def word_less_nat_alt)
  show "at data (off + length d) bs" using at_step [OF assms(1)] .
qed

lemma length_encode_entry [simp]: "length (encode_entry e) = entryHeaderSize + length (le_Data e)"
  by (simp add: encode_entry_def entryHeaderSize_def)

lemma decode_entries_at:
  assumes "at data off (concat (map encode_entry es) @ bs)" "length data < 2 ^ 32"
  shows "decode_entries (length es) data off = Inr (es, off + length (concat (map encode_entry es)))
    \<and> at data (off + length (concat (map encode_entry es))) bs"
  using assms
proof (induction es arbitrary: off)
  case Nil
  then show ?case by simp
next
  case (Cons e es)
  let ?rest = "concat (map encode_entry es) @ bs"
  have at0: "at data off (PutUint64 (le_Term e) @ PutUint64 (le_Index e)
      @ PutUint32 (word_of_nat (length (le_Data e))) @ le_Data e @ ?rest)"
    using Cons.prems(1) encode_entry_def [of e] by simp
  note g1 = getUint64_at [OF at0]
  note g2 = getUint64_at [OF g1(2)]
  note g3 = getUint32_at [OF g2(2)]
  note g4 = getData_at [OF g3(2) Cons.prems(2)]
  have len: "\<not> length data - off < entryHeaderSize"
    using at_length [OF at0] by (simp add: entryHeaderSize_def)
  note IH = Cons.IH [OF g4(2) Cons.prems(2)]
  have eq: "off + 8 + 8 + 4 + length (le_Data e) + length (concat (map encode_entry es))
      = off + length (concat (map encode_entry (e # es)))"
    by (simp add: entryHeaderSize_def)
  have n: "length (e # es) = Suc (length es)" by simp
  have "decode_entries (length (e # es)) data off = Inr (e # es, off + length (concat (map encode_entry (e # es))))"
    unfolding n decode_entries.simps
    by (simp only: len if_False g1(1) g2(1) g3(1) g4(1) IH sum_bind_simps case_prod_conv eq) simp
  with IH show ?case unfolding eq by blast
qed

definition wire_type :: "MessageType \<Rightarrow> bool" where
  "wire_type ty \<longleftrightarrow> byte_type (type_byte ty) = ty"

text \<open>The messages that can be sent: the encoding has less than \<open>2^32\<close> bytes.\<close>

definition sendable :: "Message \<Rightarrow> bool" where
  "sendable m \<longleftrightarrow> wire_type (m_Type m) \<and> length (encodeMessage m) < 2 ^ 32"

lemma length_encodeMessage:
  "length (encodeMessage m) = fixedFieldsSize + sum_list (map (\<lambda>e. entryHeaderSize + length (le_Data e)) (m_Entries m))
     + length (sn_Data (m_Snapshot m))"
  by (simp add: encodeMessage_def fixedFieldsSize_def length_concat comp_def)

lemma entries_fit: "entryHeaderSize * length es \<le> length (concat (map encode_entry es))"
  by (induction es) (simp_all add: entryHeaderSize_def)

lemma count_ok:
  assumes "entryHeaderSize * n \<le> k" "k < 2 ^ 32"
  shows "\<not> (word_of_nat k :: uint32) div word_of_nat entryHeaderSize < word_of_nat n"
    and "unat (word_of_nat n :: uint32) = n"
proof -
  have n: "n \<le> k div entryHeaderSize" using assms(1) by (simp add: entryHeaderSize_def)
  then have "n < 2 ^ 32" using assms(2) by (meson div_le_dividend le_less_trans)
  then show u: "unat (word_of_nat n :: uint32) = n" by simp
  have "unat (word_of_nat k :: uint32) = k" "unat (word_of_nat entryHeaderSize :: uint32) = entryHeaderSize"
    using assms(2) by (simp_all add: entryHeaderSize_def)
  with n u show "\<not> (word_of_nat k :: uint32) div word_of_nat entryHeaderSize < word_of_nat n"
    by (simp add: word_less_nat_alt unat_div)
qed

lemma boolByte_nonzero [simp]: "boolByte b \<noteq> 0 \<longleftrightarrow> b"
  by (simp add: boolByte_def)

lemma decode_encode_Message:
  assumes "wire_type (m_Type m)" "length (encodeMessage m @ extra) < 2 ^ 32"
  shows "decodeMessage (encodeMessage m @ extra) = Inr m"
proof -
  define data where "data = encodeMessage m @ extra"
  have bound: "length data < 2 ^ 32" using assms(2) by (simp add: data_def)
  have at0: "at data 0 (type_byte (m_Type m)
     # PutUint64 (m_From m) @ PutUint64 (m_To m) @ PutUint64 (m_Term m)
     @ PutUint64 (m_LastLogIndex m) @ PutUint64 (m_LastLogTerm m)
     @ (boolByte (m_VoteGranted m)
     # PutUint64 (m_PrevLogIndex m) @ PutUint64 (m_PrevLogTerm m)
     @ PutUint32 (word_of_nat (length (m_Entries m)))
     @ concat (map encode_entry (m_Entries m))
     @ PutUint64 (m_LeaderCommit m) @ (boolByte (m_Success m)
     # PutUint64 (m_MatchIndex m) @ PutUint64 (m_ReadContext m)
     @ PutUint64 (sn_LastIncludedIndex (m_Snapshot m)) @ PutUint64 (sn_LastIncludedTerm (m_Snapshot m))
     @ PutUint32 (word_of_nat (length (sn_Data (m_Snapshot m))))
     @ sn_Data (m_Snapshot m) @ extra)))"
    by (simp add: at_def data_def encodeMessage_def)
  note f1 = getByte_at [OF at0] note f2 = getUint64_at [OF f1(2)] note f3 = getUint64_at [OF f2(2)]
  note f4 = getUint64_at [OF f3(2)] note f5 = getUint64_at [OF f4(2)] note f6 = getUint64_at [OF f5(2)]
  note f7 = getByte_at [OF f6(2)] note f8 = getUint64_at [OF f7(2)] note f9 = getUint64_at [OF f8(2)]
  note f10 = getUint32_at [OF f9(2)]
  note es = decode_entries_at [OF f10(2) bound]
  note g1 = getUint64_at [OF conjunct2 [OF es]] note g2 = getByte_at [OF g1(2)]
  note g3 = getUint64_at [OF g2(2)] note g4 = getUint64_at [OF g3(2)]
  note h1 = getUint64_at [OF g4(2)] note h2 = getUint64_at [OF h1(2)] note h3 = getUint32_at [OF h2(2)]
  note h4 = getData_at [OF h3(2) bound]
  have "entryHeaderSize * length (m_Entries m) \<le> length data - (0 + 1 + 8 + 8 + 8 + 8 + 8 + 1 + 8 + 8 + 4)"
    using at_length [OF f10(2)] entries_fit [of "m_Entries m"] by simp
  note count = count_ok [OF this le_less_trans [OF diff_le_self bound]]
  have len: "\<not> length data < fixedFieldsSize" by (simp add: data_def length_encodeMessage)
  have l1: "\<not> length data - (0 + 1 + 8 + 8 + 8 + 8 + 8 + 1 + 8 + 8 + 4 + length (concat (map encode_entry (m_Entries m)))) < 8 + 1 + 8 + 8"
    using at_length [OF conjunct2 [OF es]] by simp
  have l2: "\<not> length data - (0 + 1 + 8 + 8 + 8 + 8 + 8 + 1 + 8 + 8 + 4 + length (concat (map encode_entry (m_Entries m))) + 8 + 1 + 8 + 8) < 8 + 8 + 4"
    using at_length [OF g4(2)] by simp
  show ?thesis
    unfolding data_def [symmetric] decodeMessage_def
    by (simp only: decode_rest_def len f1(1) f2(1) f3(1) f4(1) f5(1) f6(1) f7(1) f8(1) f9(1) f10(1) count l1 l2 es
        g1(1) g2(1) g3(1) g4(1) h1(1) h2(1) h3(1) h4(1) sum_bind_simps case_prod_conv if_False boolByte_nonzero
        assms(1) [unfolded wire_type_def])
      (simp add: new_Message_def)
qed

section \<open>Decoding never panics\<close>

lemma get_cases:
  "off + 8 \<le> length data \<Longrightarrow> getUint64 data off = Inr (Uint64 (drop off data), off + 8)"
  "off + 4 \<le> length data \<Longrightarrow> getUint32 data off = Inr (Uint32 (drop off data), off + 4)"
  "off < length data \<Longrightarrow> getByte data off = Inr (data ! off, off + 1)"
  by (simp_all add: getUint64_def getUint32_def getByte_def)

lemma getData_cases:
  assumes "off \<le> length data" "length data < 2 ^ 32"
  shows "getData data off dlen \<noteq> Inl ReadPanic \<and> (\<forall>d off'. getData data off dlen = Inr (d, off') \<longrightarrow> off' \<le> length data)"
proof -
  have v: "unat (word_of_nat (length data - off) :: uint32) = length data - off"
    by (rule unat_of_nat_small) (use assms(2) in simp)
  have "go_slice data (int off) (int off + int (unat dlen)) = Some (take (unat dlen) (drop off data))
      \<and> off + unat dlen \<le> length data"
    if "\<not> (word_of_nat (length data - off) :: uint32) < dlen"
  proof -
    from that v assms(1) have "off + unat dlen \<le> length data" by (simp add: word_less_nat_alt)
    with go_slice_nat [of off "off + unat dlen" data] show ?thesis by simp
  qed
  with assms(1) show ?thesis by (auto simp: getData_def)
qed

lemma decode_entries_safe:
  assumes "off \<le> length data" "length data < 2 ^ 32"
  shows "decode_entries n data off \<noteq> Inl ReadPanic
    \<and> (\<forall>es off'. decode_entries n data off = Inr (es, off') \<longrightarrow> off' \<le> length data)"
  using assms(1)
proof (induction n arbitrary: off)
  case 0
  then show ?case by simp
next
  case (Suc n)
  show ?case
  proof (cases "length data - off < entryHeaderSize")
    case True
    then show ?thesis by simp
  next
    case False
    then have len: "off + 20 \<le> length data" using Suc.prems by (simp add: entryHeaderSize_def)
    let ?dlen = "Uint32 (drop (16 + off) data)"
    have step: "decode_entries (Suc n) data off =
      sum_bind (getData data (20 + off) ?dlen) (\<lambda>(d, off').
        sum_bind (decode_entries n data off') (\<lambda>(es, off'').
        Inr (\<lparr>le_Term = Uint64 (drop off data), le_Index = Uint64 (drop (off + 8) data), le_Data = d\<rparr> # es, off'')))"
      using False len by (simp add: get_cases)
    note d = getData_cases [OF len [unfolded add.commute [of off]] assms(2), of ?dlen]
    show ?thesis
    proof (cases "getData data (20 + off) ?dlen")
      case (Inl e)
      with d step show ?thesis by simp
    next
      case (Inr p)
      then obtain x off' where p: "getData data (20 + off) ?dlen = Inr (x, off')" by (cases p) simp
      with d have "off' \<le> length data" by blast
      note IH = Suc.IH [OF this]
      show ?thesis unfolding step p using IH by (cases "decode_entries n data off'") auto
    qed
  qed
qed

lemma decode_rest_safe:
  assumes "length data < 2 ^ 32"
  shows "decode_rest data off m \<noteq> Inl ReadPanic"
proof (cases "length data - off < 8 + 1 + 8 + 8 \<or> length data - (off + 25) < 8 + 8 + 4")
  case True
  then show ?thesis by (auto simp: decode_rest_def get_cases)
next
  case False
  then have len: "off + 45 \<le> length data" by linarith
  then have "getData data (45 + off) dlen \<noteq> Inl ReadPanic" for dlen
    using getData_cases [of "45 + off" data dlen] assms by simp
  then show ?thesis
    using len by (simp add: decode_rest_def get_cases sum_bind_not split: prod.split)
qed

lemma decodeMessage_safe:
  assumes "length data < 2 ^ 32"
  shows "decodeMessage data \<noteq> Inl ReadPanic"
proof (cases "length data < fixedFieldsSize")
  case True
  then show ?thesis by (simp add: decodeMessage_def)
next
  case False
  then have len: "107 \<le> length data" and ne: "data \<noteq> []" by (auto simp: fixedFieldsSize_def)
  have "decode_entries n data 62 \<noteq> Inl ReadPanic" for n
    using decode_entries_safe [of 62 data n] len assms by simp
  then show ?thesis
    unfolding decodeMessage_def
    using False len ne decode_rest_safe [OF assms] by (simp add: get_cases sum_bind_not split: prod.split)
qed

text \<open>
  C18. A message survives the wire: every message whose encoding has less than 4 GiB is decoded to itself,
  whatever follows it, and decoding any other bytes of less than 4 GiB returns a message or the error for a
  malformed one, without reading outside the bytes.
\<close>

theorem message_roundtrip:
  assumes "wire_type (m_Type m)" "length (encodeMessage m @ extra) < 2 ^ 32" "length data < 2 ^ 32"
  shows "decodeMessage (encodeMessage m @ extra) = Inr m
    \<and> (decodeMessage data = Inl ErrMalformed \<or> (\<exists>m'. decodeMessage data = Inr m'))"
proof -
  have "decodeMessage data = Inl ErrMalformed \<or> (\<exists>m'. decodeMessage data = Inr m')"
    using decodeMessage_safe [OF assms(3)] by (metis sum.exhaust transport_error.exhaust)
  then show ?thesis using decode_encode_Message [OF assms(1,2)] by blast
qed

definition ex_message :: Message where
  "ex_message = (new_Message MsgAppendEntries 2)\<lparr>m_From := 1, m_Term := 3,
     m_Entries := [\<lparr>le_Term = 3, le_Index = 7, le_Data = [1, 2]\<rparr>]\<rparr>"

theorem message_roundtrip_witness:
  "decodeMessage (encodeMessage ex_message @ [9]) = Inr ex_message
   \<and> (decodeMessage (replicate 200 7) = Inl ErrMalformed \<or> (\<exists>m'. decodeMessage (replicate 200 7) = Inr m'))"
proof -
  have "wire_type (m_Type ex_message)" by (simp add: ex_message_def new_Message_def wire_type_def byte_type_def)
  moreover have "length (encodeMessage ex_message @ [9]) < 2 ^ 32"
    by (simp add: length_encodeMessage ex_message_def new_Message_def fixedFieldsSize_def entryHeaderSize_def zero_Snapshot_def)
  ultimately show ?thesis using message_roundtrip [of ex_message "[9]" "replicate 200 7"] by simp
qed

section \<open>Framing\<close>

definition maxMessageSize :: nat where
  "maxMessageSize = 64 * 1024 * 1024"

text \<open>What \<open>writeFramed\<close> puts on the connection; its two writes either succeed or end the connection.\<close>

definition frame :: "bytes \<Rightarrow> bytes" where
  "frame payload = PutUint32 (word_of_nat (length payload)) @ payload"

text \<open>The number of bytes a connection still takes; a write beyond it fails after the bytes that fit.\<close>

record conn_out =
  co_sent :: bytes
  co_room :: nat

definition conn_Write :: "bytes \<Rightarrow> conn_out \<Rightarrow> bool \<times> conn_out" where
  "conn_Write bs c =
     (length bs \<le> co_room c,
      c\<lparr>co_sent := co_sent c @ take (co_room c) bs, co_room := co_room c - length bs\<rparr>)"

definition writeFramed :: "bytes \<Rightarrow> conn_out \<Rightarrow> bool \<times> conn_out" where
  "writeFramed payload c =
     (case conn_Write (PutUint32 (word_of_nat (length payload))) c of
        (False, c1) \<Rightarrow> (False, c1)
      | (True, c1) \<Rightarrow> conn_Write payload c1)"

datatype frame_error = FrameEOF | FrameLength uint32 | FramePayload

text \<open>\<open>readFramed\<close> on the bytes a connection will deliver, up to its end.\<close>

definition readFramed :: "bytes \<Rightarrow> (frame_error + bytes) \<times> bytes" where
  "readFramed r =
     (if length r < 4 then (Inl FrameEOF, [])
      else
        let len = Uint32 r; r1 = drop 4 r
        in if word_of_nat maxMessageSize < len then (Inl (FrameLength len), r1)
           else if length r1 < unat len then (Inl FramePayload, [])
           else (Inr (take (unat len) r1), drop (unat len) r1))"

lemma readFramed_frame:
  assumes "length payload \<le> maxMessageSize"
  shows "readFramed (frame payload @ rest) = (Inr payload, rest)"
proof -
  have "length payload < 2 ^ 32" using assms by (simp add: maxMessageSize_def)
  then have u: "unat (word_of_nat (length payload) :: uint32) = length payload" by simp
  then have "\<not> (word_of_nat maxMessageSize :: uint32) < word_of_nat (length payload)"
    using assms by (simp add: word_less_nat_alt maxMessageSize_def)
  with u show ?thesis by (simp add: readFramed_def frame_def Let_def)
qed

lemma readFramed_torn:
  assumes "length payload \<le> maxMessageSize" "strict_prefix torn (frame payload)"
  shows "\<exists>e r. readFramed torn = (Inl e, r)"
proof (cases "length torn < 4")
  case True
  then show ?thesis by (simp add: readFramed_def)
next
  case False
  obtain zs where zs: "frame payload = torn @ zs" "zs \<noteq> []" using assms(2) by (auto simp: strict_prefix_def prefix_def)
  have "take 4 torn = take 4 (frame payload)" using False zs(1) by simp
  then have "Uint32 torn = word_of_nat (length payload)"
    using Uint32_cong_take [of torn "frame payload"] by (simp add: frame_def)
  moreover have "unat (word_of_nat (length payload) :: uint32) = length payload"
    using assms(1) by (simp add: maxMessageSize_def)
  moreover have "length torn < 4 + length payload"
  proof -
    have "length (frame payload) = length torn + length zs" by (simp add: zs(1))
    moreover have "0 < length zs" using zs(2) by simp
    ultimately show ?thesis by (simp add: frame_def)
  qed
  ultimately show ?thesis using False by (auto simp: readFramed_def Let_def)
qed

text \<open>
  C24. A payload above \<open>maxMessageSize\<close> (and below 4 GiB) is written without an error on a connection with
  room for it, and always refused by the reader.
\<close>

theorem oversized_frame_refused:
  assumes "maxMessageSize < length payload" "length payload < 2 ^ 32" "4 + length payload \<le> co_room c"
  shows "\<exists>c'. writeFramed payload c = (True, c') \<and> co_sent c' = co_sent c @ frame payload
    \<and> fst (readFramed (frame payload @ rest)) = Inl (FrameLength (word_of_nat (length payload)))"
proof -
  have "(word_of_nat maxMessageSize :: uint32) < word_of_nat (length payload)"
    using assms(1,2) by (simp add: word_less_nat_alt maxMessageSize_def)
  then have "fst (readFramed (frame payload @ rest)) = Inl (FrameLength (word_of_nat (length payload)))"
    by (simp add: readFramed_def frame_def Let_def)
  with assms(3) show ?thesis by (simp add: writeFramed_def conn_Write_def frame_def)
qed

theorem oversized_frame_refused_witness:
  "\<exists>c'. writeFramed (replicate (maxMessageSize + 1) 0) \<lparr>co_sent = [], co_room = maxMessageSize + 5\<rparr> = (True, c')
    \<and> co_sent c' = frame (replicate (maxMessageSize + 1) 0)
    \<and> fst (readFramed (frame (replicate (maxMessageSize + 1) 0) @ [])) = Inl (FrameLength (word_of_nat (maxMessageSize + 1)))"
  using oversized_frame_refused [of "replicate (maxMessageSize + 1) 0" "\<lparr>co_sent = [], co_room = maxMessageSize + 5\<rparr>" "[]"]
  by (simp only: length_replicate) (simp add: maxMessageSize_def)

section \<open>Message streams\<close>

text \<open>
  The loop of \<open>handleConn\<close>: the messages it delivers from the bytes of a connection, up to the first
  frame that is torn, too long or malformed.
\<close>

lemma readFramed_shorter: "readFramed r = (Inr p, r') \<Longrightarrow> length r' < length r"
  by (auto simp: readFramed_def Let_def split: if_splits)

function receive :: "bytes \<Rightarrow> Message list" where
  "receive r =
     (case readFramed r of
        (Inl _, _) \<Rightarrow> []
      | (Inr payload, r') \<Rightarrow>
          (case decodeMessage payload of Inl _ \<Rightarrow> [] | Inr m \<Rightarrow> m # receive r'))"
  by pat_completeness auto
termination
  by (relation "measure length") (auto dest: readFramed_shorter [OF sym])

declare receive.simps [simp del]

definition deliverable :: "Message \<Rightarrow> bool" where
  "deliverable m \<longleftrightarrow> wire_type (m_Type m) \<and> length (encodeMessage m) \<le> maxMessageSize"

lemma receive_frame:
  assumes "deliverable m"
  shows "receive (frame (encodeMessage m) @ rest) = m # receive rest"
proof -
  have "decodeMessage (encodeMessage m @ []) = Inr m"
    using assms by (intro decode_encode_Message) (auto simp: deliverable_def maxMessageSize_def)
  then show ?thesis
    using assms readFramed_frame [of "encodeMessage m" rest]
    by (subst receive.simps) (simp add: deliverable_def)
qed

lemma receive_frames:
  "\<forall>m \<in> set ms. deliverable m \<Longrightarrow> receive (concat (map (frame \<circ> encodeMessage) ms) @ rest) = ms @ receive rest"
  by (induction ms) (simp_all add: receive_frame)

text \<open>
  C19. What a peer sends on one connection is received in order: a connection that carried complete frames
  and then broke in the middle of one delivers exactly the messages of the complete frames.
\<close>

theorem stream_in_order:
  assumes "\<forall>m \<in> set ms. deliverable m" "deliverable m" "strict_prefix torn (frame (encodeMessage m))"
  shows "receive (concat (map (frame \<circ> encodeMessage) ms) @ torn) = ms"
proof -
  obtain e r where "readFramed torn = (Inl e, r)"
    using readFramed_torn [of "encodeMessage m" torn] assms(2,3) by (auto simp: deliverable_def)
  then have "receive torn = []" by (subst receive.simps) simp
  with receive_frames [OF assms(1)] show ?thesis by simp
qed

theorem stream_in_order_witness:
  "receive (concat (map (frame \<circ> encodeMessage) [ex_message, ex_message]) @ take 30 (frame (encodeMessage ex_message)))
     = [ex_message, ex_message]"
proof (rule stream_in_order [of _ ex_message])
  show d: "deliverable ex_message"
    by (simp add: deliverable_def length_encodeMessage ex_message_def new_Message_def fixedFieldsSize_def
        entryHeaderSize_def zero_Snapshot_def wire_type_def byte_type_def maxMessageSize_def)
  then show "\<forall>m \<in> set [ex_message, ex_message]. deliverable m" by simp
  have "length (frame (encodeMessage ex_message)) > 30"
    by (simp add: frame_def length_encodeMessage fixedFieldsSize_def)
  then show "strict_prefix (take 30 (frame (encodeMessage ex_message))) (frame (encodeMessage ex_message))"
    by (metis length_take min.absorb4 nat_less_le strict_prefix_def take_is_prefix)
qed

end
