(* ===== verification/Transport_Conns.thy ===== *)
theory Transport_Conns
  imports Transport_Codec
begin

text \<open>
  The connections of a transport (\<open>src/transport/transport.go\<close>) and the goroutines that share them: the
  accept loop, one reader per accepted connection, senders that dial on demand, and \<open>Close\<close>. Every critical
  section under \<open>t.mu\<close> is one operation; a run-time panic (assignment to a nil map, a send on or a second close
  of a closed channel, a negative WaitGroup) is the value \<open>None\<close>.
\<close>

section \<open>The transport\<close>

type_synonym conn = nat

text \<open>A nil map is \<open>None\<close>. \<open>t_open\<close> is the set of connections that have not been closed on this side.\<close>

record Transport =
  t_selfID :: uint64
  t_peerAddrs :: "uint64 \<Rightarrow> string option"
  t_listening :: bool
  t_incoming :: "Message list"
  t_incoming_open :: bool
  t_done :: bool
  t_wg :: nat
  t_closed :: bool
  t_outConns :: "(uint64 \<Rightarrow> conn option) option"
  t_inConns :: "conn set option"
  t_open :: "conn set"

definition incoming_cap :: nat where
  "incoming_cap = 256"

definition Listen :: "uint64 \<Rightarrow> (uint64 \<Rightarrow> string option) \<Rightarrow> Transport" where
  "Listen selfID peerAddrs =
     \<lparr>t_selfID = selfID, t_peerAddrs = peerAddrs, t_listening = True, t_incoming = [], t_incoming_open = True,
      t_done = False, t_wg = 1, t_closed = False, t_outConns = Some (\<lambda>_. None), t_inConns = Some {}, t_open = {}\<rparr>"

definition wg_Done :: "Transport \<Rightarrow> Transport option" where
  "wg_Done t = (if t_wg t = 0 then None else Some (t\<lparr>t_wg := t_wg t - 1\<rparr>))"

definition close_conn :: "conn \<Rightarrow> Transport \<Rightarrow> Transport" where
  "close_conn c t = t\<lparr>t_open := t_open t - {c}\<rparr>"

definition registerAccepted :: "conn \<Rightarrow> Transport \<Rightarrow> (bool \<times> Transport) option" where
  "registerAccepted c t =
     (if t_closed t then Some (False, t)
      else case t_inConns t of
          None \<Rightarrow> None
        | Some cs \<Rightarrow> Some (True, t\<lparr>t_inConns := Some (insert c cs)\<rparr>))"

text \<open>The deferred function of \<open>handleConn\<close>; deleting from a nil map does nothing.\<close>

definition handleConn_exit :: "conn \<Rightarrow> Transport \<Rightarrow> Transport option" where
  "handleConn_exit c t =
     wg_Done (close_conn c (t\<lparr>t_inConns := map_option (\<lambda>cs. cs - {c}) (t_inConns t)\<rparr>))"

text \<open>
  \<open>deliver\<close>: the send when the channel has room, or giving up when the transport is shutting down; a
  select with neither ready blocks, which is no step.
\<close>

definition deliver :: "Message \<Rightarrow> Transport \<Rightarrow> (bool \<times> Transport) option list" where
  "deliver m t =
     (if \<not> t_incoming_open t then [None]
      else if length (t_incoming t) < incoming_cap then [Some (True, t\<lparr>t_incoming := t_incoming t @ [m]\<rparr>)] else [])
     @ (if t_done t then [Some (False, t)] else [])"

text \<open>The two critical sections of \<open>getConn\<close>, before and after dialing.\<close>

datatype lookup = LClosed | LCached conn | LDial

definition getConn_lookup :: "uint64 \<Rightarrow> Transport \<Rightarrow> lookup" where
  "getConn_lookup i t =
     (if t_closed t then LClosed
      else case Option.bind (t_outConns t) (\<lambda>m. m i) of Some c \<Rightarrow> LCached c | None \<Rightarrow> LDial)"

definition registerDialed :: "uint64 \<Rightarrow> conn \<Rightarrow> Transport \<Rightarrow> (conn option \<times> Transport) option" where
  "registerDialed i c t =
     (if t_closed t then Some (None, close_conn c t)
      else case Option.bind (t_outConns t) (\<lambda>m. m i) of
          Some c' \<Rightarrow> Some (Some c', close_conn c t)
        | None \<Rightarrow>
            (case t_outConns t of
               None \<Rightarrow> None
             | Some m \<Rightarrow> Some (Some c, t\<lparr>t_outConns := Some (m(i \<mapsto> c))\<rparr>)))"

definition dropConn :: "uint64 \<Rightarrow> Transport \<Rightarrow> Transport" where
  "dropConn i t =
     (case t_outConns t of
        None \<Rightarrow> t
      | Some m \<Rightarrow> (case m i of None \<Rightarrow> t | Some c \<Rightarrow> close_conn c (t\<lparr>t_outConns := Some (m(i := None))\<rparr>)))"

text \<open>
  \<open>Send\<close> when no other goroutine runs in between: \<open>dialed\<close> is the connection the dial returns, if any, and
  \<open>room\<close> the number of bytes the connection takes.
\<close>

datatype send_error = ErrUnknownPeer | ErrTransportClosed | ErrDial | ErrSend

definition getConn :: "uint64 \<Rightarrow> conn option \<Rightarrow> Transport \<Rightarrow> ((send_error + conn) \<times> Transport) option" where
  "getConn i dialed t =
     (case getConn_lookup i t of
        LClosed \<Rightarrow> Some (Inl ErrTransportClosed, t)
      | LCached c \<Rightarrow> Some (Inr c, t)
      | LDial \<Rightarrow>
          (case dialed of
             None \<Rightarrow> Some (Inl ErrDial, t)
           | Some c \<Rightarrow>
               map_option (\<lambda>(x, t'). (case x of None \<Rightarrow> Inl ErrTransportClosed | Some c' \<Rightarrow> Inr c', t'))
                 (registerDialed i c (t\<lparr>t_open := insert c (t_open t)\<rparr>))))"

definition Send :: "Message \<Rightarrow> conn option \<Rightarrow> nat \<Rightarrow> Transport \<Rightarrow> ((send_error + bytes) \<times> Transport) option" where
  "Send m dialed room t =
     (case t_peerAddrs t (m_To m) of
        None \<Rightarrow> Some (Inl ErrUnknownPeer, t)
      | Some _ \<Rightarrow>
          (case getConn (m_To m) dialed t of
             None \<Rightarrow> None
           | Some (Inl e, t1) \<Rightarrow> Some (Inl e, t1)
           | Some (Inr c, t1) \<Rightarrow>
               (case writeFramed (encodeMessage m) \<lparr>co_sent = [], co_room = room\<rparr> of
                  (True, out) \<Rightarrow> Some (Inr (co_sent out), t1)
                | (False, _) \<Rightarrow> Some (Inl ErrSend, dropConn (m_To m) t1))))"

text \<open>\<open>Close\<close> before and after it waits for the goroutines.\<close>

definition Close_begin :: "Transport \<Rightarrow> Transport option" where
  "Close_begin t =
     (if t_closed t then Some t
      else if t_done t then None
      else Some (t\<lparr>t_closed := True, t_done := True, t_listening := False,
                   t_open := t_open t - (case t_inConns t of None \<Rightarrow> {} | Some cs \<Rightarrow> cs)
                                      - (case t_outConns t of None \<Rightarrow> {} | Some m \<Rightarrow> ran m),
                   t_inConns := None, t_outConns := None\<rparr>))"

definition Close_end :: "Transport \<Rightarrow> Transport option" where
  "Close_end t = (if t_incoming_open t then Some (t\<lparr>t_incoming_open := False\<rparr>) else None)"

section \<open>The goroutines\<close>

text \<open>
  \<open>g_accepted\<close> is a connection the accept loop has registered and not yet started a reader for;
  \<open>g_dialing\<close> are the connections dialed and not yet registered; \<open>g_used\<close> are all connections there have been.
\<close>

record tsys =
  g_t :: Transport
  g_accepting :: bool
  g_accepted :: "conn option"
  g_handlers :: "conn set"
  g_dialing :: "(uint64 \<times> conn) set"
  g_closing :: bool
  g_used :: "conn set"

definition tsys_start :: "uint64 \<Rightarrow> (uint64 \<Rightarrow> string option) \<Rightarrow> tsys" where
  "tsys_start i addrs =
     \<lparr>g_t = Listen i addrs, g_accepting = True, g_accepted = None, g_handlers = {}, g_dialing = {},
      g_closing = False, g_used = {}\<rparr>"

text \<open>One step of some goroutine: an operation and its effect, \<open>None\<close> when it panics.\<close>

inductive tstep :: "tsys \<Rightarrow> tsys option \<Rightarrow> bool" where
  accept: "g_accepting s \<Longrightarrow> g_accepted s = None \<Longrightarrow> t_listening (g_t s) \<Longrightarrow> c \<notin> g_used s \<Longrightarrow>
    tstep s (case registerAccepted c ((g_t s)\<lparr>t_open := insert c (t_open (g_t s))\<rparr>) of
               None \<Rightarrow> None
             | Some (True, t) \<Rightarrow> Some (s\<lparr>g_t := t, g_accepted := Some c, g_used := insert c (g_used s)\<rparr>)
             | Some (False, t) \<Rightarrow>
                 map_option (\<lambda>t. s\<lparr>g_used := insert c (g_used s), g_t := t, g_accepting := False\<rparr>) (wg_Done (close_conn c t)))"
| spawn: "g_accepted s = Some c \<Longrightarrow>
    tstep s (Some (s\<lparr>g_t := (g_t s)\<lparr>t_wg := t_wg (g_t s) + 1\<rparr>, g_accepted := None, g_handlers := insert c (g_handlers s)\<rparr>))"
| accept_fail: "g_accepting s \<Longrightarrow> g_accepted s = None \<Longrightarrow>
    tstep s (map_option (\<lambda>t. s\<lparr>g_t := t, g_accepting := False\<rparr>) (wg_Done (g_t s)))"
| deliver: "c \<in> g_handlers s \<Longrightarrow> r \<in> set (deliver m (g_t s)) \<Longrightarrow>
    tstep s (case r of
               None \<Rightarrow> None
             | Some (True, t) \<Rightarrow> Some (s\<lparr>g_t := t\<rparr>)
             | Some (False, t) \<Rightarrow> map_option (\<lambda>t. s\<lparr>g_t := t, g_handlers := g_handlers s - {c}\<rparr>) (handleConn_exit c t))"
| read_fail: "c \<in> g_handlers s \<Longrightarrow>
    tstep s (map_option (\<lambda>t. s\<lparr>g_t := t, g_handlers := g_handlers s - {c}\<rparr>) (handleConn_exit c (g_t s)))"
| recv: "t_incoming (g_t s) = m # ms \<Longrightarrow> tstep s (Some (s\<lparr>g_t := (g_t s)\<lparr>t_incoming := ms\<rparr>\<rparr>))"
| dial: "getConn_lookup i (g_t s) = LDial \<Longrightarrow> c \<notin> g_used s \<Longrightarrow>
    tstep s (Some (s\<lparr>g_t := (g_t s)\<lparr>t_open := insert c (t_open (g_t s))\<rparr>, g_dialing := insert (i, c) (g_dialing s),
                     g_used := insert c (g_used s)\<rparr>))"
| register: "(i, c) \<in> g_dialing s \<Longrightarrow>
    tstep s (map_option (\<lambda>(_, t). s\<lparr>g_t := t, g_dialing := g_dialing s - {(i, c)}\<rparr>) (registerDialed i c (g_t s)))"
| send_fail: "tstep s (Some (s\<lparr>g_t := dropConn i (g_t s)\<rparr>))"
| close_begin: "\<not> t_closed (g_t s) \<Longrightarrow> tstep s (map_option (\<lambda>t. s\<lparr>g_t := t, g_closing := True\<rparr>) (Close_begin (g_t s)))"
| close_end: "g_closing s \<Longrightarrow> t_wg (g_t s) = 0 \<Longrightarrow>
    tstep s (map_option (\<lambda>t. s\<lparr>g_t := t, g_closing := False\<rparr>) (Close_end (g_t s)))"

inductive treachable :: "tsys \<Rightarrow> bool" where
  start: "treachable (tsys_start i addrs)"
| step: "treachable s \<Longrightarrow> tstep s (Some s') \<Longrightarrow> treachable s'"

section \<open>The invariant\<close>

definition wg_inv :: "tsys \<Rightarrow> bool" where
  "wg_inv s \<longleftrightarrow> finite (g_handlers s)
     \<and> t_wg (g_t s) = card (g_handlers s) + (if g_accepting s then 1 else 0)
     \<and> (g_accepted s \<noteq> None \<longrightarrow> g_accepting s)
     \<and> (\<forall>c. g_accepted s = Some c \<longrightarrow> c \<notin> g_handlers s)
     \<and> g_handlers s \<union> set_option (g_accepted s) \<union> snd ` g_dialing s \<subseteq> g_used s"

definition close_inv :: "tsys \<Rightarrow> bool" where
  "close_inv s \<longleftrightarrow>
     (t_closed (g_t s) \<longleftrightarrow> t_done (g_t s)) \<and> (t_closed (g_t s) \<longleftrightarrow> t_inConns (g_t s) = None)
     \<and> (t_closed (g_t s) \<longleftrightarrow> t_outConns (g_t s) = None)
     \<and> (g_closing s \<longrightarrow> t_closed (g_t s) \<and> t_incoming_open (g_t s))
     \<and> (t_closed (g_t s) \<longrightarrow> g_closing s \<or> \<not> t_incoming_open (g_t s))
     \<and> (\<not> t_incoming_open (g_t s) \<longrightarrow> t_closed (g_t s) \<and> t_wg (g_t s) = 0)"

text \<open>Every open connection is known to a map or to the goroutine that dialed it.\<close>

definition conn_inv :: "tsys \<Rightarrow> bool" where
  "conn_inv s \<longleftrightarrow>
     t_open (g_t s) \<subseteq> (case t_inConns (g_t s) of None \<Rightarrow> {} | Some cs \<Rightarrow> cs)
       \<union> (case t_outConns (g_t s) of None \<Rightarrow> {} | Some m \<Rightarrow> ran m) \<union> snd ` g_dialing s
     \<and> (\<forall>cs. t_inConns (g_t s) = Some cs \<longrightarrow> cs = g_handlers s \<union> set_option (g_accepted s))"

definition t_inv :: "tsys \<Rightarrow> bool" where
  "t_inv s \<longleftrightarrow> wg_inv s \<and> close_inv s \<and> conn_inv s"

lemmas t_inv_defs = t_inv_def wg_inv_def close_inv_def conn_inv_def

lemmas t_ops = registerAccepted_def handleConn_exit_def wg_Done_def close_conn_def deliver_def registerDialed_def
  dropConn_def Close_begin_def Close_end_def getConn_lookup_def

lemma start_inv: "t_inv (tsys_start i addrs)"
  by (auto simp: t_inv_defs tsys_start_def Listen_def)

text \<open>The end of a reader, for whichever reason.\<close>

lemma exit_inv:
  assumes inv: "t_inv s" and c: "c \<in> g_handlers s"
  shows "\<exists>t. handleConn_exit c (g_t s) = Some t \<and> t_inv (s\<lparr>g_t := t, g_handlers := g_handlers s - {c}\<rparr>)"
proof -
  have fin: "finite (g_handlers s)" and wg: "t_wg (g_t s) = card (g_handlers s) + (if g_accepting s then 1 else 0)"
    using inv by (simp_all add: t_inv_defs)
  then have pos: "t_wg (g_t s) \<noteq> 0" and card: "card (g_handlers s - {c}) = card (g_handlers s) - 1"
    "0 < card (g_handlers s)" using c by (auto simp: card_gt_0_iff)
  let ?t = "(g_t s)\<lparr>t_inConns := map_option (\<lambda>cs. cs - {c}) (t_inConns (g_t s)), t_open := t_open (g_t s) - {c},
      t_wg := t_wg (g_t s) - 1\<rparr>"
  have "handleConn_exit c (g_t s) = Some ?t" using pos by (simp add: t_ops)
  moreover have "t_inv (s\<lparr>g_t := ?t, g_handlers := g_handlers s - {c}\<rparr>)"
    using inv card pos wg c by (auto simp: t_inv_defs split: option.splits)
  ultimately show ?thesis by blast
qed

lemma done_inv:
  assumes "t_inv s" "g_accepting s" "g_accepted s = None"
  shows "\<exists>t. wg_Done (g_t s) = Some t \<and> t_inv (s\<lparr>g_t := t, g_accepting := False\<rparr>)"
  using assms by (auto simp: t_inv_defs wg_Done_def)

lemma closed_conns:
  assumes "t_inv s" "t_closed (g_t s)"
  shows "t_open (g_t s) \<subseteq> snd ` g_dialing s"
proof -
  have "t_inConns (g_t s) = None" "t_outConns (g_t s) = None" using assms by (simp_all add: t_inv_def close_inv_def)
  with assms(1) show ?thesis by (simp add: t_inv_def conn_inv_def)
qed

lemma running_conns:
  assumes "t_inv s" "\<not> t_closed (g_t s)"
  obtains m where "t_inConns (g_t s) = Some (g_handlers s \<union> set_option (g_accepted s))" "t_outConns (g_t s) = Some m"
    "t_open (g_t s) \<subseteq> g_handlers s \<union> set_option (g_accepted s) \<union> ran m \<union> snd ` g_dialing s"
proof -
  have "t_inConns (g_t s) \<noteq> None" "t_outConns (g_t s) \<noteq> None" using assms by (simp_all add: t_inv_def close_inv_def)
  then obtain cs m where m: "t_inConns (g_t s) = Some cs" "t_outConns (g_t s) = Some m" by blast
  have "conn_inv s" using assms(1) by (simp add: t_inv_def)
  with m have "cs = g_handlers s \<union> set_option (g_accepted s) \<and> t_open (g_t s) \<subseteq> cs \<union> ran m \<union> snd ` g_dialing s"
    by (auto simp: conn_inv_def)
  with m that show thesis by blast
qed

lemma used_conns:
  assumes "t_inv s" "c \<notin> g_used s"
  shows "c \<notin> g_handlers s" "c \<notin> set_option (g_accepted s)" "c \<notin> snd ` g_dialing s"
  using assms by (auto simp: t_inv_def wg_inv_def)

lemma snd_remove:
  assumes "A \<subseteq> B \<union> snd ` D"
  shows "A - {c} \<subseteq> B \<union> snd ` (D - {(i, c)})" "A \<subseteq> insert c B \<union> snd ` (D - {(i, c)})"
    "snd ` (D - {(i, c)}) \<subseteq> snd ` D"
proof -
  have "x \<in> snd ` (D - {(i, c)})" if "x \<in> snd ` D" "x \<noteq> c" for x using that by force
  with assms show "A - {c} \<subseteq> B \<union> snd ` (D - {(i, c)})" "A \<subseteq> insert c B \<union> snd ` (D - {(i, c)})" by blast+
qed blast

lemma register_inv:
  assumes inv: "t_inv s"
  shows "\<exists>x t. registerDialed i c (g_t s) = Some (x, t) \<and> t_inv (s\<lparr>g_t := t, g_dialing := g_dialing s - {(i, c)}\<rparr>)"
proof (cases "t_closed (g_t s)")
  case True
  have "t_inConns (g_t s) = None" "t_outConns (g_t s) = None" using inv True by (simp_all add: t_inv_def close_inv_def)
  moreover have "snd ` g_dialing s \<subseteq> g_used s" using inv by (simp add: t_inv_def wg_inv_def)
  moreover note snd_remove [where A = "t_open (g_t s)" and B = "{}" and D = "g_dialing s" and c = c and i = i]
  ultimately show ?thesis
    using inv True closed_conns [OF inv True] order_trans [of "snd ` (g_dialing s - {(i, c)})" "snd ` g_dialing s" "g_used s"]
    by (simp add: registerDialed_def close_conn_def t_inv_defs) (auto split: if_splits)
next
  case False
  obtain m where o: "t_inConns (g_t s) = Some (g_handlers s \<union> set_option (g_accepted s))" "t_outConns (g_t s) = Some m"
    "t_open (g_t s) \<subseteq> g_handlers s \<union> set_option (g_accepted s) \<union> ran m \<union> snd ` g_dialing s"
    using running_conns [OF inv False] .
  note r = snd_remove [OF o(3), where c = c and i = i]
  have "snd ` g_dialing s \<subseteq> g_used s" using inv by (simp add: t_inv_def wg_inv_def)
  with r(3) have used: "snd ` (g_dialing s - {(i, c)}) \<subseteq> g_used s" by (rule order_trans)
  show ?thesis
  proof (cases "m i")
    case None
    then have "ran (m(i \<mapsto> c)) = insert c (ran m)" by simp
    with inv False o None r(2) used show ?thesis
      by (simp add: registerDialed_def t_inv_defs Un_assoc)
  next
    case (Some c')
    with inv False o r(1) used show ?thesis
      by (simp add: registerDialed_def close_conn_def t_inv_defs)
  qed
qed

lemma drop_inv:
  assumes inv: "t_inv s"
  shows "t_inv (s\<lparr>g_t := dropConn i (g_t s)\<rparr>)"
proof (cases "Option.bind (t_outConns (g_t s)) (\<lambda>m. m i)")
  case None
  then have "dropConn i (g_t s) = g_t s" by (auto simp: dropConn_def split: option.splits Option.bind_splits)
  with inv show ?thesis by simp
next
  case (Some c)
  then obtain m where m: "t_outConns (g_t s) = Some m" "m i = Some c" by (auto split: Option.bind_splits)
  have "x \<in> insert c (ran (m(i := None)))" if "m j = Some x" for j x
    using m(2) that ranI [of "m(i := None)" j x] by (cases "j = i") auto
  then have ran: "ran m \<subseteq> insert c (ran (m(i := None)))" unfolding ran_def [of m] by blast
  have open': "\<not> t_closed (g_t s)" using inv m by (auto simp: t_inv_def close_inv_def)
  obtain m' where o: "t_inConns (g_t s) = Some (g_handlers s \<union> set_option (g_accepted s))" "t_outConns (g_t s) = Some m'"
    "t_open (g_t s) \<subseteq> g_handlers s \<union> set_option (g_accepted s) \<union> ran m' \<union> snd ` g_dialing s"
    using running_conns [OF inv open'] .
  have "t_open (g_t s) - {c} \<subseteq> g_handlers s \<union> set_option (g_accepted s) \<union> ran (m(i := None)) \<union> snd ` g_dialing s"
    using o m ran by auto
  with inv m o(1) open' show ?thesis
    by (simp add: dropConn_def close_conn_def t_inv_defs)
qed

lemma close_inv_step:
  assumes "t_inv s" "\<not> t_closed (g_t s)"
  shows "\<exists>t. Close_begin (g_t s) = Some t \<and> t_inv (s\<lparr>g_t := t, g_closing := True\<rparr>)"
proof -
  obtain m where o: "t_inConns (g_t s) = Some (g_handlers s \<union> set_option (g_accepted s))" "t_outConns (g_t s) = Some m"
    "t_open (g_t s) \<subseteq> g_handlers s \<union> set_option (g_accepted s) \<union> ran m \<union> snd ` g_dialing s"
    using running_conns [OF assms] .
  have "t_open (g_t s) - (g_handlers s \<union> set_option (g_accepted s)) - ran m \<subseteq> snd ` g_dialing s" using o(3) by blast
  with assms o(1,2) show ?thesis by (simp add: Close_begin_def t_inv_defs)
qed

lemma tstep_inv:
  assumes "tstep s r" "t_inv s"
  shows "case r of None \<Rightarrow> False | Some s' \<Rightarrow> t_inv s'"
  using assms
proof cases
  case (accept c)
  show ?thesis
  proof (cases "t_closed (g_t s)")
    case True
    let ?s = "s\<lparr>g_used := insert c (g_used s)\<rparr>"
    have "wg_inv ?s" using assms(2) by (simp add: t_inv_def wg_inv_def subset_insertI2)
    moreover have "close_inv ?s = close_inv s" "conn_inv ?s = conn_inv s"
      by (simp_all add: close_inv_def conn_inv_def)
    ultimately have "t_inv ?s" using assms(2) by (simp add: t_inv_def)
    then have "\<exists>t. wg_Done (g_t ?s) = Some t \<and> t_inv (?s\<lparr>g_t := t, g_accepting := False\<rparr>)"
      using accept by (intro done_inv) simp_all
    moreover have "close_conn c ((g_t s)\<lparr>t_open := insert c (t_open (g_t s))\<rparr>) = g_t s"
    proof -
      have "snd ` g_dialing s \<subseteq> g_used s" using assms(2) by (simp add: t_inv_defs)
      with closed_conns [OF assms(2) True] accept(5) have "c \<notin> t_open (g_t s)" by blast
      then show ?thesis by (simp add: close_conn_def)
    qed
    ultimately show ?thesis using accept(1) True by (auto simp: registerAccepted_def)
  next
    case False
    obtain m where o: "t_inConns (g_t s) = Some (g_handlers s)" "t_outConns (g_t s) = Some m"
      "t_open (g_t s) \<subseteq> g_handlers s \<union> ran m \<union> snd ` g_dialing s"
      using running_conns [OF assms(2) False] accept(3) by auto
    show ?thesis
      using assms(2) False o used_conns [OF assms(2) accept(5)] accept(2,3)
      by (simp add: accept(1) registerAccepted_def t_inv_defs subset_insertI2)
  qed
next
  case (spawn c)
  with assms(2) show ?thesis by (auto simp: t_inv_defs)
next
  case accept_fail
  with done_inv [OF assms(2)] show ?thesis by auto
next
  case (deliver c x m)
  show ?thesis
  proof (cases x)
    case None
    with deliver assms(2) show ?thesis by (auto simp: t_inv_defs deliver_def split: if_splits)
  next
    case (Some p)
    obtain b t where p: "p = (b, t)" by fastforce
    show ?thesis
    proof (cases b)
      case True
      with deliver Some p assms(2) show ?thesis by (auto simp: t_inv_defs deliver_def split: if_splits)
    next
      case False
      with deliver Some p have "t = g_t s" by (auto simp: deliver_def split: if_splits)
      with deliver Some p False exit_inv [OF assms(2), of c] show ?thesis by auto
    qed
  qed
next
  case (read_fail c)
  with exit_inv [OF assms(2), of c] show ?thesis by auto
next
  case (recv m ms)
  with assms(2) show ?thesis by (auto simp: t_inv_defs)
next
  case (dial i c)
  then have open': "\<not> t_closed (g_t s)" by (auto simp: getConn_lookup_def split: if_splits)
  obtain m where o: "t_inConns (g_t s) = Some (g_handlers s \<union> set_option (g_accepted s))" "t_outConns (g_t s) = Some m"
    "t_open (g_t s) \<subseteq> g_handlers s \<union> set_option (g_accepted s) \<union> ran m \<union> snd ` g_dialing s"
    using running_conns [OF assms(2) open'] .
  let ?s = "s\<lparr>g_t := (g_t s)\<lparr>t_open := insert c (t_open (g_t s))\<rparr>, g_dialing := insert (i, c) (g_dialing s),
      g_used := insert c (g_used s)\<rparr>"
  have "wg_inv ?s" using assms(2) by (simp add: t_inv_def wg_inv_def subset_insertI2)
  moreover have "close_inv ?s = close_inv s" by (simp add: close_inv_def)
  moreover have "conn_inv ?s" using o by (simp add: conn_inv_def subset_insertI2)
  ultimately show ?thesis using assms(2) by (simp add: dial(1) t_inv_def)
next
  case (register i c)
  with register_inv [OF assms(2), of i c] show ?thesis by auto
next
  case (send_fail i)
  with drop_inv [OF assms(2), of i] show ?thesis by simp
next
  case close_begin
  with close_inv_step [OF assms(2)] show ?thesis by auto
next
  case close_end
  have "t_closed (g_t s)" "t_done (g_t s)" "t_inConns (g_t s) = None" "t_outConns (g_t s) = None" "t_incoming_open (g_t s)"
    using assms(2) close_end(2) by (auto simp: t_inv_def close_inv_def)
  with assms(2) close_end(3) show ?thesis by (simp add: close_end(1) t_inv_defs Close_end_def)
qed

lemma treachable_inv: "treachable s \<Longrightarrow> t_inv s"
proof (induction rule: treachable.induct)
  case (start i addrs)
  show ?case by (rule start_inv)
next
  case (step s s')
  from tstep_inv [OF step.hyps(2) step.IH] show ?case by simp
qed



text \<open>
  C23. A successful \<open>Send\<close> puts exactly the frame of the message on the connection; one whose write fails
  forgets the connection, so that the next \<open>Send\<close> to that peer dials again.
\<close>

theorem send_frames_or_redials:
  assumes "Send m dialed room t = Some (res, t')" "\<not> t_closed t" "t_outConns t \<noteq> None"
  shows "case res of
      Inr sent \<Rightarrow> sent = frame (encodeMessage m)
    | Inl e \<Rightarrow> e = ErrSend \<longrightarrow> getConn_lookup (m_To m) t' = LDial"
proof -
  let ?w = "writeFramed (encodeMessage m) \<lparr>co_sent = [], co_room = room\<rparr>"
  have w: "co_sent (snd ?w) = frame (encodeMessage m)" if "fst ?w"
    using that by (auto simp: writeFramed_def conn_Write_def frame_def split: bool.splits)
  have g: "t_outConns t1 \<noteq> None \<and> \<not> t_closed t1" if "getConn (m_To m) dialed t = Some (Inr c, t1)" for c t1
    using that assms(2,3) by (auto simp: getConn_def registerDialed_def close_conn_def getConn_lookup_def
        split: lookup.splits option.splits if_splits Option.bind_splits)
  have d: "getConn_lookup i (dropConn i t1) = LDial" if "t_outConns t1 \<noteq> None" "\<not> t_closed t1" for i t1
    using that by (auto simp: getConn_lookup_def dropConn_def close_conn_def split: option.splits Option.bind_splits)
  show ?thesis
  proof (cases "t_peerAddrs t (m_To m)")
    case None
    with assms(1) show ?thesis by (auto simp: Send_def)
  next
    case (Some a)
    then obtain x t1 where x: "getConn (m_To m) dialed t = Some (x, t1)" using assms(1) by (auto simp: Send_def split: option.splits)
    show ?thesis
    proof (cases x)
      case (Inl e)
      with assms(1) Some x have "res = Inl e" by (auto simp: Send_def)
      moreover from x Inl have "e \<noteq> ErrSend"
        by (auto simp: getConn_def split: lookup.splits option.splits prod.splits)
      ultimately show ?thesis by simp
    next
      case (Inr c)
      with assms(1) Some x w g [of c t1] d [of t1 "m_To m"] show ?thesis
        by (cases ?w) (auto simp: Send_def split: bool.splits)
    qed
  qed
qed

theorem send_frames_or_redials_witness:
  "case Send ex_message (Some 1) 10 (Listen 1 (\<lambda>_. Some ''b'')) of
     Some (Inl e, t') \<Rightarrow> e = ErrSend \<and> getConn_lookup 2 t' = LDial | _ \<Rightarrow> False"
proof -
  let ?t = "Listen 1 (\<lambda>_. Some ''b'')"
  have t: "\<not> t_closed ?t" "t_outConns ?t \<noteq> None" "m_To ex_message = 2"
    by (simp_all add: Listen_def ex_message_def new_Message_def)
  obtain t' where s: "Send ex_message (Some 1) 10 ?t = Some (Inl ErrSend, t')"
  proof -
    have "\<not> fst (writeFramed (encodeMessage ex_message) \<lparr>co_sent = [], co_room = 10\<rparr>)"
      by (simp add: writeFramed_def conn_Write_def length_encodeMessage fixedFieldsSize_def)
    then show thesis using that
      by (cases "writeFramed (encodeMessage ex_message) \<lparr>co_sent = [], co_room = 10\<rparr>")
        (auto simp: Send_def getConn_def getConn_lookup_def registerDialed_def Listen_def)
  qed
  from send_frames_or_redials [OF s t(1,2)] s t(3) show ?thesis by simp
qed

end
