(* ===== verification/Server_Command.thy ===== *)
theory Server_Command
  imports Go_Std
begin

text \<open>
  The commands a node proposes to Raft (\<open>src/server/command.go\<close>): one put or delete as the data of a log
  entry, and that decoding returns what was encoded.
\<close>

section \<open>Encoding\<close>

definition cmdPut :: byte where
  "cmdPut = 0"

definition cmdDelete :: byte where
  "cmdDelete = 1"

record command =
  cmd_Type :: byte
  cmd_Key :: bytes
  cmd_Value :: bytes

definition encodeCommand :: "command \<Rightarrow> bytes" where
  "encodeCommand c =
     [cmd_Type c] @ PutUint32 (word_of_nat (length (cmd_Key c))) @ cmd_Key c
       @ PutUint32 (word_of_nat (length (cmd_Value c))) @ cmd_Value c"

text \<open>
  The decoder keeps an offset into the data; a length is compared with what is left as a 32-bit number.
  \<open>None\<close> is \<open>errMalformedCommand\<close>.
\<close>

definition decodeCommand :: "bytes \<Rightarrow> command option" where
  "decodeCommand data =
     (if length data < 1 + 4 then None
      else
        let keyLen = Uint32 (drop 1 data); off = 1 + 4
        in if (word_of_nat (length data - off) :: uint32) < keyLen then None
           else
             let key = take (unat keyLen) (drop off data); off = off + unat keyLen
             in if length data - off < 4 then None
                else
                  let valLen = Uint32 (drop off data); off = off + 4
                  in if (word_of_nat (length data - off) :: uint32) < valLen then None
                     else Some \<lparr>cmd_Type = data ! 0, cmd_Key = key, cmd_Value = take (unat valLen) (drop off data)\<rparr>)"

section \<open>Round trip\<close>

text \<open>A command whose two parts and the length between them stay below 4 GiB.\<close>

definition command_fits :: "command \<Rightarrow> bool" where
  "command_fits c \<longleftrightarrow> length (cmd_Key c) + 4 + length (cmd_Value c) < 2 ^ 32"

lemma unat32: "n < 2 ^ 32 \<Longrightarrow> unat (word_of_nat n :: uint32) = n"
  by (simp add: unat_of_nat_small)

lemma word32_le: "m \<le> n \<Longrightarrow> n < 2 ^ 32 \<Longrightarrow> \<not> (word_of_nat n :: uint32) < word_of_nat m"
  by (simp add: word_less_nat_alt unat32)

lemma decodeCommand_encode:
  assumes "length (cmd_Key c) + 4 + length (cmd_Value c) + length rest < 2 ^ 32"
  shows "decodeCommand (encodeCommand c @ rest) = Some c"
proof -
  let ?k = "cmd_Key c" and ?v = "cmd_Value c"
  let ?K = "PutUint32 (word_of_nat (length ?k))" and ?V = "PutUint32 (word_of_nat (length ?v))"
  have data: "encodeCommand c @ rest = cmd_Type c # ?K @ ?k @ ?V @ ?v @ rest" by (simp add: encodeCommand_def)
  have len: "length (encodeCommand c @ rest) = 9 + length ?k + length ?v + length rest" by (simp add: data)
  have d1: "drop 5 (encodeCommand c @ rest) = ?k @ ?V @ ?v @ rest" by (simp add: data)
  have d2: "drop (5 + length ?k) (encodeCommand c @ rest) = ?V @ ?v @ rest"
    using d1 by (metis add.commute drop_append_exact drop_drop)
  have d3: "drop (9 + length ?k) (encodeCommand c @ rest) = ?v @ rest"
  proof -
    have "drop (9 + length ?k) (encodeCommand c @ rest) = drop 4 (drop (5 + length ?k) (encodeCommand c @ rest))"
      by (simp only: drop_drop) (simp add: add.assoc)
    then show ?thesis unfolding d2 by simp
  qed
  have k: "Uint32 (drop 1 (encodeCommand c @ rest)) = word_of_nat (length ?k)" by (simp add: data)
  have v: "Uint32 (drop (5 + length ?k) (encodeCommand c @ rest)) = word_of_nat (length ?v)" by (simp only: d2 Uint32_PutUint32)
  have small: "unat (word_of_nat (length ?k) :: uint32) = length ?k" "unat (word_of_nat (length ?v) :: uint32) = length ?v"
    using assms by (simp_all add: unat32)
  have le: "\<not> (word_of_nat (length (encodeCommand c @ rest) - 5) :: uint32) < word_of_nat (length ?k)"
    "\<not> (word_of_nat (length (encodeCommand c @ rest) - (9 + length ?k)) :: uint32) < word_of_nat (length ?v)"
    unfolding len by (rule word32_le; use assms in simp)+
  have head: "(encodeCommand c @ rest) ! 0 = cmd_Type c" by (simp add: data)
  have off: "(1::nat) + 4 = 5" "5 + length ?k + 4 = 9 + length ?k" by simp_all
  have long: "\<not> length (encodeCommand c @ rest) < 5" "\<not> length (encodeCommand c @ rest) - (5 + length ?k) < 4" unfolding len by simp_all
  show ?thesis
    unfolding decodeCommand_def Let_def off k small v d1 d3 head if_not_P [OF long(1)] if_not_P [OF long(2)] if_not_P [OF le(1)] if_not_P [OF le(2)]
    by simp
qed

text \<open>
  C25. Decoding a command returns the command that was encoded, as long as its key, its value and the length
  between them stay below 4 GiB together.
\<close>

theorem command_roundtrip: "command_fits c \<Longrightarrow> decodeCommand (encodeCommand c) = Some c"
  using decodeCommand_encode [of c "[]"] by (simp add: command_fits_def)

theorem command_roundtrip_witness:
  "decodeCommand (encodeCommand \<lparr>cmd_Type = cmdDelete, cmd_Key = [0x6B], cmd_Value = []\<rparr>)
    = Some \<lparr>cmd_Type = cmdDelete, cmd_Key = [0x6B], cmd_Value = []\<rparr>"
  by (rule command_roundtrip) (simp add: command_fits_def)

text \<open>Distinct commands are proposed as distinct data.\<close>

lemma encodeCommand_inj: "command_fits c \<Longrightarrow> command_fits d \<Longrightarrow> encodeCommand c = encodeCommand d \<Longrightarrow> c = d"
  using decodeCommand_encode [of c "[]"] decodeCommand_encode [of d "[]"] by (simp add: command_fits_def)

end
