(* ===== verification/Server_Core.thy ===== *)
theory Server_Core
  imports Server_Command Engine_Snapshot Raft_Node
begin

text \<open>
  One node of the cluster (\<open>src/server/server.go\<close>): the event loop \<open>Run\<close> that drives the Raft node and
  applies committed entries to the storage engine. The loop is a step per iteration; the calls of clients are
  steps that put a request on a channel. A result channel is a number, and the values sent to result channels
  are recorded in the order of the sends. The Raft log and the engine are in different directories, so each has
  a file system of its own. An outer \<open>None\<close> is a panic or a call that does not return, which ends the process.
\<close>

section \<open>State\<close>

datatype server_error =
    SrvStopped
  | SrvSuperseded
  | SrvDecode uint64
  | SrvUnknownCommand byte uint64
  | SrvApply uint64 engine_error
  | SrvRaft raft_error
  | SrvEngine engine_error
  | SrvProposeTimeout
  | SrvReadTimeout

text \<open>\<open>applyResult\<close> holds an error that may be nil.\<close>

type_synonym applyResult = "server_error option"

record pendingPropose =
  pp_data :: bytes
  pp_resultCh :: nat

type_synonym readIndexResult = "server_error + uint64"

record Server =
  sv_node :: Node
  sv_disk :: world
  sv_eng :: Engine
  sv_dir :: world
  sv_batchWindow :: int
  sv_maxBatchSize :: int
  sv_lastApplied :: uint64
  sv_waiters :: "(uint64 \<times> pendingPropose) list"
  sv_snapshotThreshold :: int
  sv_lastSnapshotIndex :: uint64
  sv_pendingReadIndexes :: "(uint64 \<times> nat) list"
  sv_nextReadCtx :: uint64
  sv_cachedStatus :: Status
  sv_sent :: "Message list"
  sv_replies :: "(nat \<times> applyResult) list"
  sv_readReplies :: "(nat \<times> readIndexResult) list"

text \<open>
  What the program leaves to the runtime: the coin flips of the skip lists, the floating-point formulas of
  the bloom filter, and the order in which a map is visited.
\<close>

record env =
  en_rnd :: "nat \<Rightarrow> bool"
  en_fl :: "real \<Rightarrow> floats"
  en_visit :: "bytes list \<Rightarrow> bytes list"

definition proposeChBufferSize :: nat where
  "proposeChBufferSize = 256"

definition defaultBatchWindow :: int where
  "defaultBatchWindow = 500 * 1000"

definition defaultMaxBatchSize :: int where
  "defaultMaxBatchSize = 64"

definition defaultSnapshotThreshold :: int where
  "defaultSnapshotThreshold = 10000"

definition Server_New :: "Node \<Rightarrow> world \<Rightarrow> Engine \<Rightarrow> world \<Rightarrow> Server option" where
  "Server_New node disk eng dir = do {
     st \<leftarrow> Node_Status node;
     Some \<lparr>sv_node = node, sv_disk = disk, sv_eng = eng, sv_dir = dir, sv_batchWindow = defaultBatchWindow,
           sv_maxBatchSize = defaultMaxBatchSize, sv_lastApplied = 0, sv_waiters = [],
           sv_snapshotThreshold = defaultSnapshotThreshold, sv_lastSnapshotIndex = 0, sv_pendingReadIndexes = [],
           sv_nextReadCtx = 1, sv_cachedStatus = st, sv_sent = [], sv_replies = [], sv_readReplies = []\<rparr>
   }"

definition SetBatchWindow :: "int \<Rightarrow> Server \<Rightarrow> Server" where
  "SetBatchWindow d s = s\<lparr>sv_batchWindow := d\<rparr>"

definition SetMaxBatchSize :: "int \<Rightarrow> Server \<Rightarrow> Server" where
  "SetMaxBatchSize n s = s\<lparr>sv_maxBatchSize := n\<rparr>"

definition SetSnapshotThreshold :: "int \<Rightarrow> Server \<Rightarrow> Server" where
  "SetSnapshotThreshold n s = s\<lparr>sv_snapshotThreshold := n\<rparr>"

definition SeedAppliedIndex :: "uint64 \<Rightarrow> Server \<Rightarrow> Server" where
  "SeedAppliedIndex i s = s\<lparr>sv_lastApplied := i, sv_lastSnapshotIndex := i\<rparr>"

section \<open>Calls of the components\<close>

definition Node_ProposeBatch :: "bytes list \<Rightarrow> Node \<Rightarrow> (raft_error + uint64 list \<times> Node) option" where
  "Node_ProposeBatch ds n = map_option (map_sum id (\<lambda>(is, r). (is, n\<lparr>nd_r := r\<rparr>))) (ProposeBatch ds (nd_r n))"

definition Node_RequestReadIndex :: "uint64 \<Rightarrow> Node \<Rightarrow> (raft_error + Node) option" where
  "Node_RequestReadIndex c n = map_option (map_sum id (\<lambda>r. n\<lparr>nd_r := r\<rparr>)) (RequestReadIndex c (nd_r n))"

definition Node_CreateSnapshot :: "uint64 \<Rightarrow> bytes \<Rightarrow> Node \<Rightarrow> (raft_error + Node) option" where
  "Node_CreateSnapshot i d n = map_option (map_sum id (\<lambda>r. n\<lparr>nd_r := r\<rparr>)) (CreateSnapshot i d (nd_r n))"

text \<open>A call of the engine that panics or does not end takes the server with it.\<close>

definition returned :: "engine_error option \<times> Engine \<times> world \<Rightarrow> (engine_error option \<times> Engine \<times> world) option" where
  "returned x = (if fst x = Some EngineNoReturn then None else Some x)"

section \<open>Applying committed entries\<close>

definition decodeAndValidateCommand :: "LogEntry \<Rightarrow> server_error + command" where
  "decodeAndValidateCommand entry =
     (case decodeCommand (le_Data entry) of
        None \<Rightarrow> Inl (SrvDecode (le_Index entry))
      | Some cmd \<Rightarrow>
          if cmd_Type cmd \<noteq> cmdPut \<and> cmd_Type cmd \<noteq> cmdDelete
          then Inl (SrvUnknownCommand (cmd_Type cmd) (le_Index entry))
          else Inr cmd)"

definition batch_op :: "command \<Rightarrow> BatchOp" where
  "batch_op cmd = \<lparr>bo_Key = cmd_Key cmd, bo_Value = cmd_Value cmd, bo_Deleted = (cmd_Type cmd = cmdDelete)\<rparr>"

fun entries_ops :: "LogEntry list \<Rightarrow> BatchOp list" where
  "entries_ops [] = []"
| "entries_ops (e # es) =
     (case decodeAndValidateCommand e of Inl _ \<Rightarrow> entries_ops es | Inr cmd \<Rightarrow> batch_op cmd # entries_ops es)"

text \<open>The second loop of \<open>applyCommitted\<close>: move \<open>lastApplied\<close> on and answer the proposer waiting at the index.\<close>

definition answer_entry :: "engine_error option \<Rightarrow> LogEntry \<Rightarrow> Server \<Rightarrow> Server" where
  "answer_entry batchErr entry s0 =
     (let s = s0\<lparr>sv_lastApplied := le_Index entry\<rparr>;
          res = (case decodeAndValidateCommand entry of
                   Inl err \<Rightarrow> Some err
                 | Inr _ \<Rightarrow> map_option (SrvApply (le_Index entry)) batchErr)
      in case map_of (sv_waiters s) (le_Index entry) of
           None \<Rightarrow> s
         | Some p \<Rightarrow>
             s\<lparr>sv_waiters := AList.delete (le_Index entry) (sv_waiters s),
               sv_replies := sv_replies s
                 @ [(pp_resultCh p, if pp_data p \<noteq> le_Data entry then Some SrvSuperseded else res)]\<rparr>)"

definition applyCommitted :: "env \<Rightarrow> Server \<Rightarrow> Server option" where
  "applyCommitted en s = do {
     status \<leftarrow> Node_Status (sv_node s);
     if st_CommitIndex status \<le> sv_lastApplied s then Some s
     else do {
       entries \<leftarrow> Node_Entries (sv_lastApplied s) (st_CommitIndex status) (sv_node s);
       if entries = [] then Some s
       else do {
         (batchErr, eng, dir) \<leftarrow>
           (if entries_ops entries = [] then Some (None, sv_eng s, sv_dir s)
            else returned (ApplyBatch (en_rnd en) (en_fl en) (entries_ops entries) (sv_eng s) (sv_dir s)));
         Some (fold (answer_entry batchErr) entries (s\<lparr>sv_eng := eng, sv_dir := dir\<rparr>))
       }
     }
   }"

definition maybeSnapshot :: "env \<Rightarrow> Server \<Rightarrow> Server option" where
  "maybeSnapshot en s =
     (if sv_snapshotThreshold s \<le> 0 then Some s
      else if sv_lastApplied s \<le> sv_lastSnapshotIndex s then Some s
      else if sv_lastApplied s - sv_lastSnapshotIndex s < word_of_int (sv_snapshotThreshold s) then Some s
      else
        case Engine_Snapshot (en_visit en) (sv_eng s) (sv_dir s) of
          (Inl EngineNoReturn, _, _) \<Rightarrow> None
        | (Inl _, eng, dir) \<Rightarrow> Some (s\<lparr>sv_eng := eng, sv_dir := dir\<rparr>)
        | (Inr data, eng, dir) \<Rightarrow>
            map_option
              (\<lambda>r. case r of
                 Inl _ \<Rightarrow> s\<lparr>sv_eng := eng, sv_dir := dir\<rparr>
               | Inr node \<Rightarrow> s\<lparr>sv_eng := eng, sv_dir := dir, sv_node := node, sv_lastSnapshotIndex := sv_lastApplied s\<rparr>)
              (Node_CreateSnapshot (sv_lastApplied s) data (sv_node s)))"

text \<open>The single-entry path, which the event loop does not use.\<close>

definition applyEntry :: "env \<Rightarrow> LogEntry \<Rightarrow> Server \<Rightarrow> (applyResult \<times> Server) option" where
  "applyEntry en entry s =
     (case decodeAndValidateCommand entry of
        Inl err \<Rightarrow> Some (Some err, s)
      | Inr cmd \<Rightarrow> do {
          (err, eng, dir) \<leftarrow> returned
            (if cmd_Type cmd = cmdPut
             then Engine_Put (en_rnd en) (en_fl en) (cmd_Key cmd) (cmd_Value cmd) (sv_eng s) (sv_dir s)
             else Engine_Delete (en_rnd en) (en_fl en) (cmd_Key cmd) (sv_eng s) (sv_dir s));
          Some (map_option (SrvApply (le_Index entry)) err, s\<lparr>sv_eng := eng, sv_dir := dir\<rparr>)
        })"

section \<open>The pump\<close>

definition resolve_read :: "ReadState \<Rightarrow> Server \<Rightarrow> Server" where
  "resolve_read rs s =
     (case map_of (sv_pendingReadIndexes s) (rs_Context rs) of
        None \<Rightarrow> s
      | Some ch \<Rightarrow>
          s\<lparr>sv_pendingReadIndexes := AList.delete (rs_Context rs) (sv_pendingReadIndexes s),
            sv_readReplies := sv_readReplies s @ [(ch, Inr (rs_Index rs))]\<rparr>)"

definition refreshCachedStatus :: "Server \<Rightarrow> Server option" where
  "refreshCachedStatus s = map_option (\<lambda>st. s\<lparr>sv_cachedStatus := st\<rparr>) (Node_Status (sv_node s))"

text \<open>A snapshot the node has just received replaces the engine's contents; a failure is only logged.\<close>

definition restore_received :: "env \<Rightarrow> Snapshot option \<Rightarrow> Server \<Rightarrow> Server option" where
  "restore_received en snapshotToApply s =
     (case snapshotToApply of
        None \<Rightarrow> Some s
      | Some sn \<Rightarrow> do {
          (err, eng, dir) \<leftarrow> returned (RestoreSnapshot (en_rnd en) (en_fl en) (sn_Data sn) (sv_eng s) (sv_dir s));
          let s1 = s\<lparr>sv_eng := eng, sv_dir := dir\<rparr>;
          Some (if err = None
                then s1\<lparr>sv_lastApplied := sn_LastIncludedIndex sn, sv_lastSnapshotIndex := sn_LastIncludedIndex sn\<rparr>
                else s1)
        })"

definition pump :: "env \<Rightarrow> Server \<Rightarrow> Server option" where
  "pump en s = do {
     (res, node, disk) \<leftarrow> Persist (sv_node s) (sv_disk s);
     let s1 = s\<lparr>sv_node := node, sv_disk := disk\<rparr>;
     (case res of
        Inl _ \<Rightarrow> Some s1
      | Inr (msgs, readStates, snapshotToApply) \<Rightarrow> do {
          s2 \<leftarrow> restore_received en snapshotToApply s1;
          s3 \<leftarrow> applyCommitted en (s2\<lparr>sv_sent := sv_sent s2 @ msgs\<rparr>);
          s4 \<leftarrow> maybeSnapshot en s3;
          refreshCachedStatus (fold resolve_read readStates s4)
        })
   }"

section \<open>Proposals and reads\<close>

type_synonym proposeRequest = pendingPropose

definition reply_all :: "proposeRequest list \<Rightarrow> server_error \<Rightarrow> Server \<Rightarrow> Server" where
  "reply_all reqs err s = s\<lparr>sv_replies := sv_replies s @ map (\<lambda>r. (pp_resultCh r, Some err)) reqs\<rparr>"

definition failPending :: "proposeRequest list \<Rightarrow> server_error \<Rightarrow> Server \<Rightarrow> Server" where
  "failPending reqs err s = reply_all reqs err s"

definition failPendingReadIndexes :: "server_error \<Rightarrow> Server \<Rightarrow> Server" where
  "failPendingReadIndexes err s =
     s\<lparr>sv_readReplies := sv_readReplies s @ map (\<lambda>(_, ch). (ch, Inl err)) (sv_pendingReadIndexes s),
       sv_pendingReadIndexes := []\<rparr>"

definition add_waiters :: "uint64 list \<Rightarrow> proposeRequest list \<Rightarrow> Server \<Rightarrow> Server" where
  "add_waiters indices reqs s =
     s\<lparr>sv_waiters := fold (\<lambda>(i, r). AList.update i r) (zip indices reqs) (sv_waiters s)\<rparr>"

definition submitBatch :: "env \<Rightarrow> proposeRequest list \<Rightarrow> Server \<Rightarrow> Server option" where
  "submitBatch en reqs s =
     (if reqs = [] then Some s
      else do {
        res \<leftarrow> Node_ProposeBatch (map pp_data reqs) (sv_node s);
        case res of
          Inl err \<Rightarrow> Some (reply_all reqs (SrvRaft err) s)
        | Inr (indices, node) \<Rightarrow> pump en (add_waiters indices reqs (s\<lparr>sv_node := node\<rparr>))
      })"

definition request_read :: "env \<Rightarrow> nat \<Rightarrow> Server \<Rightarrow> Server option" where
  "request_read en ch s =
     (let ctx = sv_nextReadCtx s; s = s\<lparr>sv_nextReadCtx := ctx + 1\<rparr>
      in do {
        res \<leftarrow> Node_RequestReadIndex ctx (sv_node s);
        case res of
          Inl err \<Rightarrow> Some (s\<lparr>sv_readReplies := sv_readReplies s @ [(ch, Inl (SrvRaft err))]\<rparr>)
        | Inr node \<Rightarrow>
            pump en (s\<lparr>sv_node := node, sv_pendingReadIndexes := AList.update ctx ch (sv_pendingReadIndexes s)\<rparr>)
      })"

section \<open>The event loop and its clients\<close>

text \<open>
  The local variables of \<open>Run\<close> (\<open>pending\<close> and whether the batch timer is armed), the two request channels, and
  the number of the next result channel.
\<close>

record system =
  sy_server :: Server
  sy_pending :: "proposeRequest list"
  sy_armed :: bool
  sy_returned :: bool
  sy_proposeCh :: "proposeRequest list"
  sy_readIndexCh :: "nat list"
  sy_next :: nat

definition start_system :: "Server \<Rightarrow> system" where
  "start_system s = \<lparr>sy_server = s, sy_pending = [], sy_armed = False, sy_returned = False, sy_proposeCh = [],
     sy_readIndexCh = [], sy_next = 0\<rparr>"

datatype run_event =
    RunTick
  | RunRecv "Message option"
  | RunPropose
  | RunReadIndex
  | RunTimer
  | RunStop

definition with_server :: "system \<Rightarrow> Server option \<Rightarrow> system option" where
  "with_server y so = map_option (\<lambda>s. y\<lparr>sy_server := s\<rparr>) so"

definition take_propose :: "env \<Rightarrow> proposeRequest \<Rightarrow> system \<Rightarrow> system option" where
  "take_propose en req y =
     (let s = sy_server y; pending = sy_pending y @ [req]
      in if sv_batchWindow s \<le> 0 \<or> sv_maxBatchSize s \<le> int (length pending)
         then with_server (y\<lparr>sy_pending := [], sy_armed := False\<rparr>) (submitBatch en pending s)
         else Some (y\<lparr>sy_pending := pending, sy_armed := (length pending = 1 \<or> sy_armed y)\<rparr>))"

text \<open>One iteration; a channel that is not ready, and a loop that has returned, leave the state as it is.\<close>

definition Run_step :: "env \<Rightarrow> run_event \<Rightarrow> system \<Rightarrow> system option" where
  "Run_step en ev y =
     (let s = sy_server y
      in if sy_returned y then Some y
         else case ev of
           RunTick \<Rightarrow> with_server y (Option.bind (Node_event ETick (sv_node s)) (\<lambda>n. pump en (s\<lparr>sv_node := n\<rparr>)))
         | RunRecv None \<Rightarrow> Some (y\<lparr>sy_server := failPending (sy_pending y) SrvStopped s, sy_pending := [], sy_returned := True\<rparr>)
         | RunRecv (Some m) \<Rightarrow> with_server y (Option.bind (Node_event (ERecv m) (sv_node s)) (\<lambda>n. pump en (s\<lparr>sv_node := n\<rparr>)))
         | RunPropose \<Rightarrow>
             (case sy_proposeCh y of [] \<Rightarrow> Some y | req # reqs \<Rightarrow> take_propose en req (y\<lparr>sy_proposeCh := reqs\<rparr>))
         | RunReadIndex \<Rightarrow>
             (case sy_readIndexCh y of
                [] \<Rightarrow> Some y
              | ch # chs \<Rightarrow> with_server (y\<lparr>sy_readIndexCh := chs\<rparr>) (request_read en ch s))
         | RunTimer \<Rightarrow>
             if sy_armed y
             then with_server (y\<lparr>sy_pending := [], sy_armed := False\<rparr>) (submitBatch en (sy_pending y) s)
             else Some y
         | RunStop \<Rightarrow>
             Some (y\<lparr>sy_server := failPendingReadIndexes SrvStopped (failPending (sy_pending y) SrvStopped s),
                     sy_pending := [], sy_returned := True\<rparr>))"

section \<open>Client calls\<close>

definition send_propose :: "bytes \<Rightarrow> system \<Rightarrow> system" where
  "send_propose data y =
     (if length (sy_proposeCh y) < proposeChBufferSize
      then y\<lparr>sy_proposeCh := sy_proposeCh y @ [\<lparr>pp_data = data, pp_resultCh = sy_next y\<rparr>], sy_next := sy_next y + 1\<rparr>
      else y)"

definition send_read :: "system \<Rightarrow> system" where
  "send_read y =
     (if length (sy_readIndexCh y) < proposeChBufferSize
      then y\<lparr>sy_readIndexCh := sy_readIndexCh y @ [sy_next y], sy_next := sy_next y + 1\<rparr>
      else y)"

definition Put_data :: "bytes \<Rightarrow> bytes \<Rightarrow> bytes" where
  "Put_data key val = encodeCommand \<lparr>cmd_Type = cmdPut, cmd_Key = key, cmd_Value = val\<rparr>"

definition Delete_data :: "bytes \<Rightarrow> bytes" where
  "Delete_data key = encodeCommand \<lparr>cmd_Type = cmdDelete, cmd_Key = key, cmd_Value = []\<rparr>"

text \<open>How a call ends: the request was not queued because the server is done, or one of the cases of its select.\<close>

datatype 'r waited = NotQueued | Answered 'r | TimedOut | ServerDone

fun propose_result :: "applyResult waited \<Rightarrow> applyResult" where
  "propose_result NotQueued = Some SrvStopped"
| "propose_result (Answered res) = res"
| "propose_result TimedOut = Some SrvProposeTimeout"
| "propose_result ServerDone = Some SrvStopped"

definition Server_Get :: "bytes \<Rightarrow> Server \<Rightarrow> ((server_error + bytes option) \<times> Server) option" where
  "Server_Get key s =
     (case Engine_Get key (sv_eng s) (sv_dir s) of
        (Inl EngineNoReturn, _, _) \<Rightarrow> None
      | (Inl err, eng, dir) \<Rightarrow> Some (Inl (SrvEngine err), s\<lparr>sv_eng := eng, sv_dir := dir\<rparr>)
      | (Inr found, eng, dir) \<Rightarrow> Some (Inr found, s\<lparr>sv_eng := eng, sv_dir := dir\<rparr>))"

fun LinearizableGet :: "bytes \<Rightarrow> readIndexResult waited \<Rightarrow> Server \<Rightarrow> ((server_error + bytes option) \<times> Server) option" where
  "LinearizableGet key NotQueued s = Some (Inl SrvStopped, s)"
| "LinearizableGet key (Answered (Inl err)) s = Some (Inl err, s)"
| "LinearizableGet key (Answered (Inr i)) s = Server_Get key s"
| "LinearizableGet key TimedOut s = Some (Inl SrvReadTimeout, s)"
| "LinearizableGet key ServerDone s = Some (Inl SrvStopped, s)"

definition Server_Status :: "Server \<Rightarrow> Status" where
  "Server_Status s = sv_cachedStatus s"

section \<open>Runs\<close>

text \<open>Clients, the event loop, lookups, and the flush goroutines of the engine, in any order.\<close>

datatype sys_event =
    CallPut bytes bytes
  | CallDelete bytes
  | CallRead
  | CallGet bytes
  | Loop run_event
  | FlushWrite
  | FlushClean nat

fun sys_step :: "env \<Rightarrow> sys_event \<Rightarrow> system \<Rightarrow> system option" where
  "sys_step en (CallPut k v) y = Some (send_propose (Put_data k v) y)"
| "sys_step en (CallDelete k) y = Some (send_propose (Delete_data k) y)"
| "sys_step en CallRead y = Some (send_read y)"
| "sys_step en (CallGet k) y = with_server y (map_option snd (Server_Get k (sy_server y)))"
| "sys_step en (Loop ev) y = Run_step en ev y"
| "sys_step en FlushWrite y =
     (let s = sy_server y
      in case run_write (en_fl en) (sv_eng s) (sv_dir s) of
           (eng, dir) \<Rightarrow> Some (y\<lparr>sy_server := s\<lparr>sv_eng := eng, sv_dir := dir\<rparr>\<rparr>))"
| "sys_step en (FlushClean i) y =
     (let s = sy_server y
      in case run_clean i (sv_eng s) (sv_dir s) of
           (eng, dir) \<Rightarrow> Some (y\<lparr>sy_server := s\<lparr>sv_eng := eng, sv_dir := dir\<rparr>\<rparr>))"

definition sys_run :: "env \<Rightarrow> sys_event list \<Rightarrow> system \<Rightarrow> system option" where
  "sys_run en = fold_option (sys_step en)"

end
