(* ===== verification/Spec2Isabelle.thy ===== *)
theory Spec2Isabelle
  imports Wal_Log Memtable Sst_Table Engine_System Raft_Runs Raft_Gapless Transport_Conns Server_Core
begin

text \<open>
  Verification of a replicated key-value store.
\<close>

end
